(* ===== verification/Prelude.thy ===== *)
theory Prelude
  imports Main "HOL-Library.Word" "HOL-Library.Monad_Syntax"
begin

text \<open>
  Shared vocabulary of the development: the C integer types, the convention for undefined
  behaviour, the first-match search loop that every component of the repository uses on its
  fixed-size tables, the slot-table interface over it, and generic facts on lists and options.

  Convention: a C function that may reach undefined behaviour (an index outside an array, a read
  of uninitialised memory, a null dereference) or that may loop forever returns an \<open>option\<close>, and
  \<open>None\<close> stands for \<open>no defined result\<close>.  Error codes of the source stay ordinary results.
\<close>

section \<open>C integer types\<close>

type_synonym u8 = "8 word"
type_synonym u16 = "16 word"
type_synonym u32 = "32 word"
type_synonym u64 = "64 word"

text \<open>
  A C \<open>int\<close> is an \<open>int\<close> in the range of 32-bit two's complement; the conversions that the
  source makes implicitly are written out with these functions.
\<close>

definition int_of_ulong :: "u64 \<Rightarrow> int" where
  "int_of_ulong w = sint (ucast w :: u32)"

definition ulong_of_int :: "int \<Rightarrow> u64" where
  "ulong_of_int i = word_of_int i"

definition INT_MAX :: int where
  "INT_MAX = 2 ^ 31 - 1"

definition INT_MIN :: int where
  "INT_MIN = - (2 ^ 31)"

lemma int_of_ulong_signed: "int_of_ulong w = signed_take_bit 31 (uint w)"
  unfolding int_of_ulong_def by transfer simp

lemma int_of_ulong_small: "unat w < 2 ^ 31 \<Longrightarrow> int_of_ulong w = int (unat w)"
proof -
  assume "unat w < 2 ^ 31"
  then have "int (unat w) < int (2 ^ 31)" by (simp only: of_nat_less_iff)
  then have "uint w < 2 ^ 31" by simp
  moreover have "- (2 ^ 31) \<le> uint w" by (rule order_trans [OF _ unsigned_greater_eq]) simp
  ultimately show ?thesis
    using signed_take_bit_int_eq_self [of 31 "uint w"] by (simp add: int_of_ulong_signed)
qed

lemma unat_ulong_of_int: "0 \<le> i \<Longrightarrow> i < 2 ^ 63 \<Longrightarrow> unat (ulong_of_int i) = nat i"
  unfolding ulong_of_int_def
  by (subst unat_eq_nat_uint) (simp add: uint_word_of_int_eq take_bit_int_eq_self)

section \<open>Collections of rewrite rules\<close>

named_theorems find_simps \<open>characterisations of the first-match search\<close>
named_theorems wf_intros \<open>introduction rules for the invariants of the components\<close>

section \<open>The first-match search loop\<close>

text \<open>
  \<^verbatim>\<open>for (i = 0; i < N; i++) if (P(a[i])) { idx = i; break; }\<close> with \<open>idx\<close> initialised to -1.
  The result \<open>None\<close> stands for the index -1 that the loop leaves behind when nothing matches.
\<close>

primrec find_slot :: "('a \<Rightarrow> bool) \<Rightarrow> 'a list \<Rightarrow> nat option" where
  "find_slot P [] = None"
| "find_slot P (x # xs) = (if P x then Some 0 else map_option Suc (find_slot P xs))"

lemma find_slot_None_iff [find_simps]: "find_slot P xs = None \<longleftrightarrow> (\<forall>x \<in> set xs. \<not> P x)"
  by (induction xs) auto

lemma find_slot_Some_iff [find_simps]:
  "find_slot P xs = Some i \<longleftrightarrow> i < length xs \<and> P (xs ! i) \<and> (\<forall>j < i. \<not> P (xs ! j))"
proof (induction xs arbitrary: i)
  case Nil
  then show ?case by simp
next
  case (Cons x xs)
  show ?case
  proof (cases i)
    case 0
    then show ?thesis by auto
  next
    case (Suc k)
    with Cons.IH [of k] show ?thesis
      by (auto simp: less_Suc_eq_0_disj)
  qed
qed

lemma find_slot_lt: "find_slot P xs = Some i \<Longrightarrow> i < length xs"
  by (simp add: find_slot_Some_iff)

lemma find_slot_hit: "find_slot P xs = Some i \<Longrightarrow> P (xs ! i)"
  by (simp add: find_slot_Some_iff)

lemma find_slot_exI: "i < length xs \<Longrightarrow> P (xs ! i) \<Longrightarrow> \<exists>j. find_slot P xs = Some j"
proof -
  assume "i < length xs" "P (xs ! i)"
  then have "find_slot P xs \<noteq> None" by (auto simp: find_slot_None_iff)
  then show ?thesis by blast
qed

lemma find_slot_cong: "(\<And>x. x \<in> set xs \<Longrightarrow> P x = Q x) \<Longrightarrow> find_slot P xs = find_slot Q xs"
  by (induction xs) auto

lemma find_slot_nth_cong:
  "length xs = length ys \<Longrightarrow> (\<And>i. i < length xs \<Longrightarrow> P (xs ! i) = Q (ys ! i)) \<Longrightarrow> find_slot P xs = find_slot Q ys"
proof (induction xs ys rule: list_induct2)
  case (Cons x xs y ys)
  have "P x = Q y" using Cons.prems [of 0] by simp
  moreover have "find_slot P xs = find_slot Q ys"
    using Cons.IH Cons.prems by (metis Suc_less_eq length_Cons nth_Cons_Suc)
  ultimately show ?case by simp
qed simp

lemma find_slot_append:
  "find_slot P (xs @ ys) =
     (case find_slot P xs of Some i \<Rightarrow> Some i | None \<Rightarrow> map_option ((+) (length xs)) (find_slot P ys))"
proof (induction xs)
  case Nil
  show ?case by (cases "find_slot P ys") auto
next
  case (Cons x xs)
  then show ?case by (cases "find_slot P xs"; cases "find_slot P ys") auto
qed

lemma find_slot_replicate:
  "find_slot P (replicate n x) = (if 0 < n \<and> P x then Some 0 else None)"
  by (induction n) auto

section \<open>Tables of slots\<close>

text \<open>Number of used slots of a table.\<close>

definition used_count :: "('a \<Rightarrow> bool) \<Rightarrow> 'a list \<Rightarrow> nat" where
  "used_count used xs = length (filter used xs)"

lemma used_count_le: "used_count used xs \<le> length xs"
  by (simp add: used_count_def)

lemma used_count_update:
  assumes "i < length xs"
  shows "used_count used (xs[i := x]) + (if used (xs ! i) then 1 else 0) =
         used_count used xs + (if used x then 1 else 0)"
  using assms
proof (induction xs arbitrary: i)
  case (Cons y ys)
  then show ?case by (cases i) (auto simp: used_count_def)
qed simp

lemma used_count_full: "used_count used xs = length xs \<longleftrightarrow> (\<forall>x \<in> set xs. used x)"
proof (induction xs)
  case (Cons y ys)
  then show ?case
    by (auto simp: used_count_def) (metis Suc_n_not_le_n length_filter_le)
qed (simp add: used_count_def)

text \<open>
  The interface of the repository's fixed-size tables (directory entries, file descriptors,
  inodes, thread slots): a predicate that says which slots are taken and an operation that fills
  a slot.  The law is that a filled slot is taken; everything the callers need about
  \<open>take the first free slot\<close> follows.
\<close>

locale slot_table =
  fixes used :: "'a \<Rightarrow> bool"
    and fill :: "'b \<Rightarrow> 'a \<Rightarrow> 'a"
  assumes used_fill: "used (fill v x)"
begin

lemma free_slot_exists:
  "(\<exists>i. find_slot (\<lambda>x. \<not> used x) xs = Some i) \<longleftrightarrow> used_count used xs < length xs"
proof -
  have "(\<exists>i. find_slot (\<lambda>x. \<not> used x) xs = Some i) \<longleftrightarrow> \<not> (\<forall>x \<in> set xs. used x)"
    using find_slot_None_iff [of "\<lambda>x. \<not> used x" xs] by (cases "find_slot (\<lambda>x. \<not> used x) xs") auto
  then show ?thesis
    using used_count_full [of used xs] used_count_le [of used xs] by (simp add: order_less_le)
qed

lemma table_full_iff: "find_slot (\<lambda>x. \<not> used x) xs = None \<longleftrightarrow> used_count used xs = length xs"
  using free_slot_exists [of xs] used_count_le [of used xs] by (cases "find_slot (\<lambda>x. \<not> used x) xs") auto

lemma take_slot_count:
  assumes "find_slot (\<lambda>x. \<not> used x) xs = Some i"
  shows "used_count used (xs[i := fill v (xs ! i)]) = Suc (used_count used xs)"
  using used_count_update [of i xs used "fill v (xs ! i)"] find_slot_lt [OF assms]
    find_slot_hit [OF assms] by (simp add: used_fill)

lemma take_slot_keeps_used:
  assumes "find_slot (\<lambda>x. \<not> used x) xs = Some i" "j < length xs" "used (xs ! j)"
  shows "xs[i := fill v (xs ! i)] ! j = xs ! j"
  using assms find_slot_hit [OF assms(1)] by (cases "i = j") auto

end

section \<open>Splicing a buffer into a byte array\<close>

text \<open>\<^verbatim>\<open>memcpy(dst + off, src, n)\<close> on lists: \<open>n\<close> is the length of \<open>src\<close>.\<close>

definition memcpy_at :: "nat \<Rightarrow> 'a list \<Rightarrow> 'a list \<Rightarrow> 'a list" where
  "memcpy_at off src dst = take off dst @ src @ drop (off + length src) dst"

lemma length_memcpy_at [simp]:
  "off + length src \<le> length dst \<Longrightarrow> length (memcpy_at off src dst) = length dst"
  by (simp add: memcpy_at_def)

lemma nth_memcpy_at:
  assumes "off + length src \<le> length dst" "i < length dst"
  shows "memcpy_at off src dst ! i =
    (if off \<le> i \<and> i < off + length src then src ! (i - off) else dst ! i)"
  using assms by (auto simp: memcpy_at_def nth_append min_def)

lemma take_drop_memcpy_same:
  assumes "off + length src \<le> length dst"
  shows "take (length src) (drop off (memcpy_at off src dst)) = src"
  using assms by (simp add: memcpy_at_def)

lemma take_drop_memcpy_other:
  assumes "off + length src \<le> length dst" "off' + n \<le> off \<or> off + length src \<le> off'"
  shows "take n (drop off' (memcpy_at off src dst)) = take n (drop off' dst)"
proof (rule nth_equalityI)
  show "length (take n (drop off' (memcpy_at off src dst))) = length (take n (drop off' dst))"
    using assms(1) by simp
next
  fix i
  assume "i < length (take n (drop off' (memcpy_at off src dst)))"
  then have i: "i < n" "off' + i < length dst"
    using assms(1) by auto
  then have "memcpy_at off src dst ! (off' + i) = dst ! (off' + i)"
    using assms by (subst nth_memcpy_at) auto
  then show "take n (drop off' (memcpy_at off src dst)) ! i = take n (drop off' dst) ! i"
    using i assms(1) by simp
qed

lemma memcpy_at_Nil [simp]: "memcpy_at off [] dst = dst"
  by (simp add: memcpy_at_def)

lemma memcpy_at_full: "length src = length dst \<Longrightarrow> memcpy_at 0 src dst = src"
  by (simp add: memcpy_at_def)

section \<open>List updates\<close>

text \<open>An update that keeps an attribute of the element keeps it everywhere.\<close>

lemma attr_list_update: "g v = g (xs ! k) \<Longrightarrow> g (xs[k := v] ! i) = g (xs ! i)"
  by (cases "k < length xs") (auto simp: nth_list_update list_update_beyond)

end
