(* ===== verification/Shell_Parser.thy ===== *)
theory Shell_Parser
  imports Prelude
begin

text \<open>
  The shell's command-line parser, \<^verbatim>\<open>parser-for-shell-noodlez102/myshell_parser.c\<close>.

  A C string is the list of its characters before the terminator, so the cursor
  \<^verbatim>\<open>const char **token\<close> is the suffix that is still to be read.  The \<open>next\<close>-linked list of
  commands is a list of records.  The argument vector of a command is a fixed array of 257 slots
  that \<open>malloc\<close> leaves uninitialised; storing past its end or reading an uninitialised slot has
  no defined result (\<open>None\<close>).  Allocation itself is taken to succeed.
\<close>

section \<open>Data\<close>

definition WHITESPACE_CHARS :: string where
  "WHITESPACE_CHARS = [CHR 0x0A, CHR 0x09, CHR '' '']"

definition SPECIAL_CHARS :: string where
  "SPECIAL_CHARS = ''<>|&''"

definition MAX_WORD_LENGTH :: nat where
  "MAX_WORD_LENGTH = 32"

definition MAX_LINE_LENGTH :: nat where
  "MAX_LINE_LENGTH = 512"

definition MAX_ARGV_LENGTH :: nat where
  "MAX_ARGV_LENGTH = MAX_LINE_LENGTH div 2 + 1"

datatype arg_slot = Uninit | Null | Arg string

record pipeline_command =
  command_args :: "arg_slot list"
  redirect_in_path :: "string option"
  redirect_out_path :: "string option"

record pipeline =
  commands :: "pipeline_command list"
  is_background :: bool

datatype token_type = TT_NONE | TT_AMPERSAND | TT_PIPE | TT_LEFT_ANGLE | TT_RIGHT_ANGLE | TT_WORD

section \<open>C string functions the parser uses\<close>

definition c_string :: "string \<Rightarrow> string" where
  "c_string s = takeWhile (\<lambda>c. c \<noteq> CHR 0x00) s"

definition strspn :: "string \<Rightarrow> string \<Rightarrow> nat" where
  "strspn s accept = length (takeWhile (\<lambda>c. c \<in> set accept) s)"

definition strcspn :: "string \<Rightarrow> string \<Rightarrow> nat" where
  "strcspn s reject = length (takeWhile (\<lambda>c. c \<notin> set reject) s)"

definition strndup :: "string \<Rightarrow> nat \<Rightarrow> string" where
  "strndup s n = take n s"

section \<open>Operations\<close>

definition pipeline_command_alloc :: pipeline_command where
  "pipeline_command_alloc =
     \<lparr>command_args = (replicate MAX_ARGV_LENGTH Uninit)[0 := Null],
      redirect_in_path = None, redirect_out_path = None\<rparr>"

definition next_token :: "string \<Rightarrow> token_type \<times> nat \<times> string" where
  "next_token token =
     (let t = drop (strspn token WHITESPACE_CHARS) token
      in case t of
           [] \<Rightarrow> (TT_NONE, 0, t)
         | c # _ \<Rightarrow>
             if c = CHR ''&'' then (TT_AMPERSAND, 1, t)
             else if c = CHR ''|'' then (TT_PIPE, 1, t)
             else if c = CHR ''<'' then (TT_LEFT_ANGLE, 1, t)
             else if c = CHR ''>'' then (TT_RIGHT_ANGLE, 1, t)
             else (TT_WORD, strcspn t (WHITESPACE_CHARS @ SPECIAL_CHARS), t))"

definition parse_background :: "string \<Rightarrow> bool \<Rightarrow> int \<times> string \<times> bool" where
  "parse_background start bg =
     (case next_token start of (tt, token_length, t) \<Rightarrow>
        if tt \<noteq> TT_AMPERSAND then (0, t, bg)
        else (1, drop token_length t, True))"

definition parse_redirect_out ::
  "string \<Rightarrow> pipeline_command \<Rightarrow> int \<times> string \<times> pipeline_command" where
  "parse_redirect_out token cmd =
     (case next_token token of (tt, len, t) \<Rightarrow>
        if tt \<noteq> TT_RIGHT_ANGLE then (0, t, cmd)
        else (case next_token (drop len t) of (tt', len', t') \<Rightarrow>
                if tt' \<noteq> TT_WORD then (-1, t', cmd)
                else if len' > MAX_WORD_LENGTH then (-1, t', cmd)
                else (1, drop len' t', cmd\<lparr>redirect_out_path := Some (strndup t' len')\<rparr>)))"

definition parse_redirect_in ::
  "string \<Rightarrow> pipeline_command \<Rightarrow> int \<times> string \<times> pipeline_command" where
  "parse_redirect_in token cmd =
     (case next_token token of (tt, len, t) \<Rightarrow>
        if tt \<noteq> TT_LEFT_ANGLE then (0, t, cmd)
        else (case next_token (drop len t) of (tt', len', t') \<Rightarrow>
                if tt' \<noteq> TT_WORD then (-1, t', cmd)
                else if len' > MAX_WORD_LENGTH then (-1, t', cmd)
                else (1, drop len' t', cmd\<lparr>redirect_in_path := Some (strndup t' len')\<rparr>)))"

text \<open>A store to \<open>command_args[i]\<close>: undefined outside the array.\<close>

definition set_arg :: "nat \<Rightarrow> arg_slot \<Rightarrow> pipeline_command \<Rightarrow> pipeline_command option" where
  "set_arg i v cmd =
     (if i < length (command_args cmd)
      then Some (cmd\<lparr>command_args := (command_args cmd)[i := v]\<rparr>) else None)"

text \<open>Facts on the cursor, for the termination of the loops.\<close>

lemma next_token_suffix: "next_token s = (tt, n, t) \<Longrightarrow> t = drop (strspn s WHITESPACE_CHARS) s"
  by (auto simp: next_token_def Let_def split: list.splits if_splits)

lemma next_token_length_le: "next_token s = (tt, n, t) \<Longrightarrow> length t \<le> length s"
  by (auto dest!: next_token_suffix)

lemma drop_strspn: "drop (strspn s accept) s = dropWhile (\<lambda>c. c \<in> set accept) s"
  by (simp add: strspn_def dropWhile_eq_drop)

lemma next_token_not_ws:
  "next_token s = (tt, n, c # t) \<Longrightarrow> c \<notin> set WHITESPACE_CHARS"
  by (drule next_token_suffix) (metis drop_strspn hd_dropWhile list.distinct(1) list.sel(1))

lemma next_token_nonempty:
  assumes "next_token s = (tt, n, t)" "tt \<noteq> TT_NONE"
  shows "0 < n \<and> n \<le> length t"
proof (cases "drop (strspn s WHITESPACE_CHARS) s")
  case Nil
  with assms show ?thesis by (simp add: next_token_def)
next
  case (Cons c u)
  then have t: "t = c # u" using next_token_suffix assms(1) by metis
  then have "c \<notin> set WHITESPACE_CHARS" using next_token_not_ws assms(1) by blast
  then show ?thesis
    using assms(1) t Cons
      length_takeWhile_le [of "\<lambda>c. c \<notin> set (WHITESPACE_CHARS @ SPECIAL_CHARS)" u]
    by (auto simp: next_token_def Let_def strcspn_def SPECIAL_CHARS_def split: if_splits)
qed

lemma next_token_shrinks:
  assumes "next_token s = (tt, n, t)" "tt \<noteq> TT_NONE"
  shows "length t - n < length s"
  using next_token_nonempty [OF assms] next_token_length_le [OF assms(1)] by linarith

text \<open>The loop of \<open>parse_args\<close>.\<close>

function parse_args_loop ::
  "string \<Rightarrow> nat \<Rightarrow> pipeline_command \<Rightarrow> (int \<times> string \<times> pipeline_command) option" where
  "parse_args_loop token arg_count cmd =
     (case next_token token of (tt, len, t) \<Rightarrow>
        if tt = TT_WORD then
          if len > MAX_WORD_LENGTH then Some (-1, t, cmd)
          else (case set_arg arg_count (Arg (strndup t len)) cmd of
                  None \<Rightarrow> None
                | Some cmd' \<Rightarrow> parse_args_loop (drop len t) (Suc arg_count) cmd')
        else (case set_arg arg_count Null cmd of
                None \<Rightarrow> None
              | Some cmd' \<Rightarrow> Some (int arg_count, t, cmd')))"
  by pat_completeness auto
termination
  by (relation "measure (\<lambda>(token, _, _). length token)") (auto dest!: next_token_shrinks [OF sym])

declare parse_args_loop.simps [simp del]

text \<open>The source looks at the first token once before the loop; that call only skips white space.\<close>

definition parse_args ::
  "string \<Rightarrow> pipeline_command \<Rightarrow> (int \<times> string \<times> pipeline_command) option" where
  "parse_args token cmd =
     (case next_token token of (_, _, t) \<Rightarrow> parse_args_loop t 0 cmd)"

lemma parse_redirect_in_le: "parse_redirect_in s cmd = (r, t, cmd') \<Longrightarrow> length t \<le> length s"
  by (auto simp: parse_redirect_in_def split: prod.splits if_splits
      dest!: next_token_length_le)

lemma parse_redirect_out_le: "parse_redirect_out s cmd = (r, t, cmd') \<Longrightarrow> length t \<le> length s"
  by (auto simp: parse_redirect_out_def split: prod.splits if_splits
      dest!: next_token_length_le)

lemma parse_redirect_in_less:
  assumes "parse_redirect_in s cmd = (r, t, cmd')" "0 < r"
  shows "length t < length s"
proof -
  obtain tt n u where u: "next_token s = (tt, n, u)" by (cases "next_token s")
  obtain tt' n' u' where u': "next_token (drop n u) = (tt', n', u')"
    by (cases "next_token (drop n u)")
  from assms u u' have "tt = TT_LEFT_ANGLE" "tt' = TT_WORD" and t: "t = drop n' u'"
    by (auto simp: parse_redirect_in_def split: if_splits)
  then have "length u' - n' < length (drop n u)" "length u - n < length s"
    using next_token_shrinks [OF u'] next_token_shrinks [OF u] by auto
  then show ?thesis using t by simp
qed

text \<open>The do-while loop of \<open>parse_command\<close>; the two return codes of the last round are returned.\<close>

function parse_redirects ::
  "string \<Rightarrow> pipeline_command \<Rightarrow> int \<times> int \<times> string \<times> pipeline_command" where
  "parse_redirects token cmd =
     (case parse_redirect_in token cmd of (in_ret, t1, cmd1) \<Rightarrow>
        (case parse_redirect_out t1 cmd1 of (out_ret, t2, cmd2) \<Rightarrow>
           if in_ret > 0 \<and> out_ret > 0 then parse_redirects t2 cmd2
           else (in_ret, out_ret, t2, cmd2)))"
  by pat_completeness auto
termination
  by (relation "measure (\<lambda>(token, _). length token)")
    (auto dest!: parse_redirect_in_less [OF sym] parse_redirect_out_le [OF sym])

declare parse_redirects.simps [simp del]

definition parse_command ::
  "string \<Rightarrow> pipeline_command \<Rightarrow> (int \<times> string \<times> pipeline_command) option" where
  "parse_command token cmd =
     (case parse_args token cmd of
        None \<Rightarrow> None
      | Some (args_parsed, t, cmd1) \<Rightarrow>
          if args_parsed < 1 then Some (args_parsed, t, cmd1)
          else (case parse_redirects t cmd1 of (in_ret, out_ret, t2, cmd2) \<Rightarrow>
                  if in_ret = -1 \<or> out_ret = -1 then Some (-1, t2, cmd2)
                  else Some (1, t2, cmd2)))"


lemma parse_args_loop_le:
  "parse_args_loop s k cmd = Some (r, t, cmd') \<Longrightarrow> length t \<le> length s"
proof (induction s k cmd rule: parse_args_loop.induct)
  case (1 s k cmd)
  obtain tt n u where nt: "next_token s = (tt, n, u)" by (cases "next_token s")
  note le = next_token_length_le [OF nt]
  show ?case
  proof (cases "tt = TT_WORD \<and> \<not> MAX_WORD_LENGTH < n")
    case True
    with 1(2) nt obtain cmd1 where c: "set_arg k (Arg (strndup u n)) cmd = Some cmd1"
      and rec: "parse_args_loop (drop n u) (Suc k) cmd1 = Some (r, t, cmd')"
      by (auto simp: parse_args_loop.simps [of s k cmd] split: option.splits)
    have "length t \<le> length (drop n u)"
      using 1(1) [OF nt [symmetric] refl _ _ c] True rec by blast
    then show ?thesis using le by simp
  next
    case False
    with 1(2) nt le show ?thesis
      by (auto simp: parse_args_loop.simps [of s k cmd] split: option.splits if_splits)
  qed
qed

lemma parse_redirects_le: "parse_redirects s cmd = (i, out, t, cmd') \<Longrightarrow> length t \<le> length s"
proof (induction s cmd rule: parse_redirects.induct)
  case (1 s cmd)
  obtain i1 t1 c1 where 2: "parse_redirect_in s cmd = (i1, t1, c1)"
    by (cases "parse_redirect_in s cmd")
  obtain o2 t2 c2 where 3: "parse_redirect_out t1 c1 = (o2, t2, c2)"
    by (cases "parse_redirect_out t1 c1")
  have le: "length t2 \<le> length s"
    using parse_redirect_in_le [OF 2] parse_redirect_out_le [OF 3] by simp
  show ?case
  proof (cases "i1 > 0 \<and> o2 > 0")
    case True
    then have "parse_redirects t2 c2 = (i, out, t, cmd')"
      using "1.prems" 2 3 by (simp add: parse_redirects.simps [of s cmd])
    then have "length t \<le> length t2"
      using "1.IH" [OF 2 [symmetric] refl 3 [symmetric] refl True] by blast
    with le show ?thesis by simp
  next
    case False
    with 1(2) 2 3 le show ?thesis by (auto simp: parse_redirects.simps [of s cmd])
  qed
qed

lemma parse_command_le: "parse_command s cmd = Some (r, t, cmd') \<Longrightarrow> length t \<le> length s"
  by (auto simp: parse_command_def parse_args_def split: prod.splits option.splits if_splits
      dest!: parse_args_loop_le parse_redirects_le next_token_length_le)

text \<open>
  The loop of \<open>parse_pipes\<close>.  \<open>cmds\<close> are the commands linked so far, the last one being
  \<open>current_command\<close>; a freshly linked command is part of the pipeline even when its parse fails.
\<close>

function parse_pipes_loop ::
  "string \<Rightarrow> int \<Rightarrow> int \<Rightarrow> pipeline_command list \<Rightarrow>
   (int \<times> string \<times> pipeline_command list) option" where
  "parse_pipes_loop token last_cmd_parse pipe_count cmds =
     (case next_token token of (tt, len, t) \<Rightarrow>
        if tt = TT_PIPE then
          if last_cmd_parse \<noteq> 1 then Some (-1, t, cmds)
          else (case parse_command (drop len t) pipeline_command_alloc of
                  None \<Rightarrow> None
                | Some (r, t', cmd) \<Rightarrow>
                    if r = -1 then Some (-1, t', cmds @ [cmd])
                    else parse_pipes_loop t' r (pipe_count + 1) (cmds @ [cmd]))
        else Some (pipe_count, t, cmds))"
  by pat_completeness auto
termination
  by (relation "measure (\<lambda>(token, _, _, _). length token)")
    (auto dest!: next_token_shrinks [OF sym] parse_command_le)

declare parse_pipes_loop.simps [simp del]

definition parse_pipes :: "string \<Rightarrow> (int \<times> string \<times> pipeline) option" where
  "parse_pipes token =
     (case parse_command token pipeline_command_alloc of
        None \<Rightarrow> None
      | Some (r, t, cmd) \<Rightarrow>
          if r = -1 then Some (-1, t, \<lparr>commands = [cmd], is_background = False\<rparr>)
          else (case parse_pipes_loop t r 0 [cmd] of
                  None \<Rightarrow> None
                | Some (pipe_count, t1, cmds) \<Rightarrow>
                    if pipe_count = -1
                    then Some (-1, t1, \<lparr>commands = cmds, is_background = False\<rparr>)
                    else (case parse_background t1 False of (_, t2, bg) \<Rightarrow>
                            (case next_token t2 of (tt, _, t3) \<Rightarrow>
                               let p = \<lparr>commands = cmds, is_background = bg\<rparr>
                               in if tt \<noteq> TT_NONE then Some (-1, t3, p)
                                  else Some (pipe_count, t3, p)))))"

text \<open>
  \<open>pipeline_command_free_args\<close> walks the argument vector up to the first null pointer; the
  result is the list of strings it frees.  Reading an uninitialised slot, or the word behind the
  array, is undefined.
\<close>

fun free_args_walk :: "arg_slot list \<Rightarrow> string list option" where
  "free_args_walk [] = None"
| "free_args_walk (Uninit # _) = None"
| "free_args_walk (Null # _) = Some []"
| "free_args_walk (Arg a # rest) = map_option ((#) a) (free_args_walk rest)"

definition pipeline_command_free_args :: "pipeline_command \<Rightarrow> string list option" where
  "pipeline_command_free_args cmd = free_args_walk (command_args cmd)"

text \<open>\<open>free(NULL)\<close> does nothing.\<close>

definition free_path :: "string option \<Rightarrow> string list" where
  "free_path p = (case p of None \<Rightarrow> [] | Some s \<Rightarrow> [s])"

fun free_commands :: "pipeline_command list \<Rightarrow> string list option" where
  "free_commands [] = Some []"
| "free_commands (c # cs) =
     (case pipeline_command_free_args c of
        None \<Rightarrow> None
      | Some fs \<Rightarrow>
          (case free_commands cs of
             None \<Rightarrow> None
           | Some rest \<Rightarrow>
               Some (fs @ free_path (redirect_in_path c) @ free_path (redirect_out_path c) @ rest)))"

definition pipeline_free :: "pipeline option \<Rightarrow> string list option" where
  "pipeline_free p = (case p of None \<Rightarrow> Some [] | Some q \<Rightarrow> free_commands (commands q))"

definition pipeline_build :: "string \<Rightarrow> pipeline option option" where
  "pipeline_build command_line =
     (case parse_pipes (c_string command_line) of
        None \<Rightarrow> None
      | Some (pipes_parsed, _, p) \<Rightarrow>
          if pipes_parsed = -1
          then (case pipeline_free (Some p) of None \<Rightarrow> None | Some _ \<Rightarrow> Some None)
          else Some (Some p))"

end
