(* ===== verification/Shell_Grammar.thy ===== *)
theory Shell_Grammar
  imports Shell_Parser
begin

text \<open>
  What the shell parser accepts: a token-level grammar with no pointers, slots or return codes,
  and the proof that \<open>pipeline_build\<close> computes it on every line that fits the argument vector.
  The printer and the parse-after-print theorem are at the end.
\<close>

section \<open>Tokens\<close>

datatype token = T_Amp | T_Pipe | T_In | T_Out | T_Word string

function tokens_of :: "string \<Rightarrow> token list" where
  "tokens_of s =
     (case next_token s of (tt, n, t) \<Rightarrow>
        (case tt of
           TT_NONE \<Rightarrow> []
         | TT_AMPERSAND \<Rightarrow> T_Amp # tokens_of (drop n t)
         | TT_PIPE \<Rightarrow> T_Pipe # tokens_of (drop n t)
         | TT_LEFT_ANGLE \<Rightarrow> T_In # tokens_of (drop n t)
         | TT_RIGHT_ANGLE \<Rightarrow> T_Out # tokens_of (drop n t)
         | TT_WORD \<Rightarrow> T_Word (strndup t n) # tokens_of (drop n t)))"
  by pat_completeness auto
termination
  by (relation "measure length") (auto dest!: next_token_shrinks [OF sym])

declare tokens_of.simps [simp del]

section \<open>The grammar\<close>

datatype 'a verdict = Crash | Reject | Accept 'a

record acommand =
  words :: "string list"
  rin :: "string option"
  rout :: "string option"

fun g_args :: "token list \<Rightarrow> string list \<times> token list" where
  "g_args (T_Word w # ts) =
     (if length w \<le> MAX_WORD_LENGTH
      then (case g_args ts of (ws, rest) \<Rightarrow> (w # ws, rest)) else ([], T_Word w # ts))"
| "g_args ts = ([], ts)"

text \<open>
  One optional redirection: the result says whether there was one, the path now in force and the
  tokens that follow; \<open>None\<close> is a syntax error.
\<close>

definition g_redir :: "token \<Rightarrow> token list \<Rightarrow> string option \<Rightarrow> (bool \<times> string option \<times> token list) option"
where
  "g_redir angle ts old =
     (case ts of
        [] \<Rightarrow> Some (False, old, ts)
      | t # ts' \<Rightarrow>
          if t \<noteq> angle then Some (False, old, ts)
          else (case ts' of
                  T_Word f # ts'' \<Rightarrow>
                    if length f \<le> MAX_WORD_LENGTH then Some (True, Some f, ts'') else None
                | _ \<Rightarrow> None))"

lemma g_redir_length: "g_redir a ts old = Some (b, p, rest) \<Longrightarrow> length rest \<le> length ts"
  by (auto simp: g_redir_def split: list.splits token.splits if_splits)

lemma g_redir_less:
  "g_redir a ts old = Some (b, p, rest) \<Longrightarrow> length rest \<le> length ts \<and> (b \<longrightarrow> length rest < length ts)"
  by (auto simp: g_redir_def split: list.splits token.splits if_splits)

text \<open>Redirections: pairs \<open>< WORD > WORD\<close>, then at most one single one.\<close>

function g_redirs ::
  "token list \<Rightarrow> string option \<Rightarrow> string option \<Rightarrow> (string option \<times> string option \<times> token list) option"
where
  "g_redirs ts i out =
     (case g_redir T_In ts i of
        None \<Rightarrow> None
      | Some (a, i', ts1) \<Rightarrow>
          (case g_redir T_Out ts1 out of
             None \<Rightarrow> None
           | Some (b, out', ts2) \<Rightarrow>
               if a \<and> b then g_redirs ts2 i' out' else Some (i', out', ts2)))"
  by pat_completeness auto
termination
  by (relation "measure (\<lambda>(ts, _, _). length ts)")
    (auto dest!: g_redir_less)

declare g_redirs.simps [simp del]

fun starts_word :: "token list \<Rightarrow> bool" where
  "starts_word (T_Word _ # _) = True"
| "starts_word _ = False"

definition g_command :: "token list \<Rightarrow> (acommand \<times> token list) verdict" where
  "g_command ts =
     (case g_args ts of (ws, rest) \<Rightarrow>
        if starts_word rest then (if ws = [] then Reject else Crash)
        else if ws = [] then Accept (\<lparr>words = [], rin = None, rout = None\<rparr>, rest)
        else (case g_redirs rest None None of
                None \<Rightarrow> Reject
              | Some (i, out, rest') \<Rightarrow> Accept (\<lparr>words = ws, rin = i, rout = out\<rparr>, rest')))"

lemma g_args_length: "g_args ts = (ws, rest) \<Longrightarrow> length rest \<le> length ts"
  by (induction ts arbitrary: ws rest rule: g_args.induct)
    (auto split: if_splits prod.splits intro: le_SucI)

lemma g_redirs_length: "g_redirs ts i out = Some (i', out', rest) \<Longrightarrow> length rest \<le> length ts"
proof (induction ts i out rule: g_redirs.induct)
  case (1 ts i out)
  then show ?case
    by (fastforce simp: g_redirs.simps [of ts] split: option.splits prod.splits if_splits
        dest: g_redir_length)
qed

lemma g_command_length: "g_command ts = Accept (c, rest) \<Longrightarrow> length rest \<le> length ts"
  by (auto simp: g_command_def split: prod.splits if_splits option.splits
      dest!: g_args_length g_redirs_length)

function g_pipes :: "token list \<Rightarrow> (acommand list \<times> token list) verdict" where
  "g_pipes ts =
     (case g_command ts of
        Crash \<Rightarrow> Crash
      | Reject \<Rightarrow> Reject
      | Accept (c, rest) \<Rightarrow>
          (case rest of
             T_Pipe # rest' \<Rightarrow>
               if words c = [] then Reject
               else (case g_pipes rest' of
                       Crash \<Rightarrow> Crash
                     | Reject \<Rightarrow> Reject
                     | Accept (cs, r) \<Rightarrow> Accept (c # cs, r))
           | _ \<Rightarrow> Accept ([c], rest)))"
  by pat_completeness auto
termination
  by (relation "measure length") (auto dest!: g_command_length)

declare g_pipes.simps [simp del]

definition g_line :: "token list \<Rightarrow> (acommand list \<times> bool) verdict" where
  "g_line ts =
     (case g_pipes ts of
        Crash \<Rightarrow> Crash
      | Reject \<Rightarrow> Reject
      | Accept (cs, rest) \<Rightarrow>
          if rest = [] then Accept (cs, False)
          else if rest = [T_Amp] then Accept (cs, True) else Reject)"

text \<open>The records the C code builds for an abstract command.\<close>

definition conc_command :: "acommand \<Rightarrow> pipeline_command" where
  "conc_command c =
     \<lparr>command_args = map Arg (words c) @ Null # replicate (MAX_ARGV_LENGTH - Suc (length (words c))) Uninit,
      redirect_in_path = rin c, redirect_out_path = rout c\<rparr>"

definition conc_pipeline :: "acommand list \<times> bool \<Rightarrow> pipeline" where
  "conc_pipeline p = \<lparr>commands = map conc_command (fst p), is_background = snd p\<rparr>"

section \<open>Facts on the lexer\<close>

lemma next_token_idem: "next_token s = (tt, n, t) \<Longrightarrow> next_token t = (tt, n, t)"
proof -
  assume a: "next_token s = (tt, n, t)"
  then have t: "t = dropWhile (\<lambda>c. c \<in> set WHITESPACE_CHARS) s"
    using next_token_suffix drop_strspn by metis
  then have "drop (strspn t WHITESPACE_CHARS) t = t"
    by (simp add: drop_strspn)
  with a t show ?thesis
    by (simp add: next_token_def drop_strspn)
qed

lemma lex_next_token: "next_token s = (tt, n, t) \<Longrightarrow> tokens_of t = tokens_of s"
  using tokens_of.simps [of s] tokens_of.simps [of t] next_token_idem by simp

lemma lex_cases_next:
  assumes "next_token s = (tt, n, t)"
  shows "tt = TT_NONE \<and> tokens_of s = [] \<or>
    tt = TT_AMPERSAND \<and> tokens_of s = T_Amp # tokens_of (drop n t) \<or>
    tt = TT_PIPE \<and> tokens_of s = T_Pipe # tokens_of (drop n t) \<or>
    tt = TT_LEFT_ANGLE \<and> tokens_of s = T_In # tokens_of (drop n t) \<or>
    tt = TT_RIGHT_ANGLE \<and> tokens_of s = T_Out # tokens_of (drop n t) \<or>
    tt = TT_WORD \<and> n = length (strndup t n) \<and> tokens_of s = T_Word (strndup t n) # tokens_of (drop n t)"
proof (cases tt)
  case TT_WORD
  then have "n \<le> length t" using next_token_nonempty [OF assms] by simp
  with TT_WORD assms show ?thesis by (simp add: tokens_of.simps [of s] strndup_def)
qed (simp_all add: tokens_of.simps [of s] assms)


text \<open>Two consecutive words need a separator: \<open>n\<close> leading words take at least \<open>2 * n - 1\<close> characters.\<close>

lemma next_token_word:
  assumes "next_token s = (TT_WORD, n, t)"
  shows "n = strcspn t (WHITESPACE_CHARS @ SPECIAL_CHARS)"
  using assms
  by (cases "drop (strspn s WHITESPACE_CHARS) s")
    (auto simp: next_token_def Let_def split: if_splits)

lemma word_ends_at_separator:
  assumes "next_token s = (TT_WORD, n, t)" "drop n t = c # u"
  shows "c \<in> set (WHITESPACE_CHARS @ SPECIAL_CHARS)"
proof -
  have "n = length (takeWhile (\<lambda>c. c \<notin> set (WHITESPACE_CHARS @ SPECIAL_CHARS)) t)"
    using next_token_word [OF assms(1)] by (simp add: strcspn_def)
  then have "drop n t = dropWhile (\<lambda>c. c \<notin> set (WHITESPACE_CHARS @ SPECIAL_CHARS)) t"
    by (simp add: dropWhile_eq_drop)
  then have "dropWhile (\<lambda>c. c \<notin> set (WHITESPACE_CHARS @ SPECIAL_CHARS)) t = c # u"
    using assms(2) by simp
  then show ?thesis
    using hd_dropWhile [of "\<lambda>c. c \<notin> set (WHITESPACE_CHARS @ SPECIAL_CHARS)" t] by simp
qed

lemma next_token_word_head:
  assumes "next_token (c # u) = (TT_WORD, n, t)" "c \<in> set (WHITESPACE_CHARS @ SPECIAL_CHARS)"
  shows "c \<in> set WHITESPACE_CHARS"
proof (rule ccontr)
  assume "c \<notin> set WHITESPACE_CHARS"
  with assms show False
    by (auto simp: next_token_def strspn_def SPECIAL_CHARS_def split: if_splits)
qed

lemma lex_words_length:
  "tokens_of s = map T_Word ws @ rest \<Longrightarrow> 2 * length ws \<le> Suc (length s)"
proof (induction ws arbitrary: s)
  case Nil
  then show ?case by simp
next
  case step: (Cons w ws)
  obtain tt n t where nt: "next_token s = (tt, n, t)" by (cases "next_token s")
  with step.prems have tt: "tt = TT_WORD" and rest: "tokens_of (drop n t) = map T_Word ws @ rest"
    using lex_cases_next [OF nt] by auto
  then have ne: "0 < n" "n \<le> length t" and le: "length t \<le> length s"
    using next_token_nonempty [OF nt] next_token_length_le [OF nt] by auto
  show ?case
  proof (cases "ws = []")
    case True
    then show ?thesis using ne le by (cases s) auto
  next
    case False
    obtain tt' n' t' where nt': "next_token (drop n t) = (tt', n', t')"
      by (cases "next_token (drop n t)")
    have tt': "tt' = TT_WORD"
      using rest False lex_cases_next [OF nt'] by (cases ws) auto
    then obtain c u where cu: "drop n t = c # u"
      using nt' by (cases "drop n t") (auto simp: next_token_def)
    then have "c \<in> set WHITESPACE_CHARS"
      using next_token_word_head word_ends_at_separator nt tt nt' tt' by metis
    then have "length t' \<le> length u"
      using next_token_suffix [OF nt'] cu by (simp add: drop_strspn length_dropWhile_le)
    moreover have "2 * length ws \<le> Suc (length t')"
      using step.IH [of t'] rest lex_next_token [OF nt'] by simp
    moreover have "length t = n + Suc (length u)"
      using cu ne by (metis append_take_drop_id length_Cons length_append length_take min.absorb2)
    ultimately show ?thesis using ne le by simp
  qed
qed

section \<open>The parser implements the grammar\<close>

lemma starts_word_iff: "starts_word ts \<longleftrightarrow> (\<exists>w ts'. ts = T_Word w # ts')"
  by (cases ts rule: starts_word.cases) auto

lemma g_args_lex:
  "g_args ts = (ws, rest) \<Longrightarrow> ts = map T_Word ws @ rest"
  by (induction ts arbitrary: ws rest rule: g_args.induct) (auto split: if_splits prod.splits)

lemma g_args_rest_word:
  "g_args ts = (ws, T_Word w # rest) \<Longrightarrow> MAX_WORD_LENGTH < length w"
  by (induction ts arbitrary: ws rule: g_args.induct) (auto split: if_splits prod.splits)

text \<open>The slots a run of \<open>parse_args\<close> leaves behind: the null pointer is stored on success only.\<close>

definition filled :: "string list \<Rightarrow> bool \<Rightarrow> arg_slot list" where
  "filled ws failed = map Arg ws @ (if failed then [] else [Null])"

lemma memcpy_at_step:
  assumes "k < length xs" "Suc k + length ys \<le> length xs"
  shows "memcpy_at (Suc k) ys (xs[k := x]) = memcpy_at k (x # ys) xs"
  using assms by (simp add: memcpy_at_def take_Suc_conv_app_nth)

lemma parse_args_loop_refines:
  assumes "g_args (tokens_of s) = (ws, rest)" "k + length ws < length (command_args cmd)"
  shows "\<exists>t. tokens_of t = rest \<and> parse_args_loop s k cmd =
    Some (if starts_word rest then -1 else int (k + length ws), t,
          cmd\<lparr>command_args := memcpy_at k (filled ws (starts_word rest)) (command_args cmd)\<rparr>)"
  using assms
proof (induction ws arbitrary: s k cmd)
  case Nil
  obtain tt n t where nt: "next_token s = (tt, n, t)" by (cases "next_token s")
  note lexs = lex_cases_next [OF nt]
  from Nil.prems(1) have rest: "rest = tokens_of s" using g_args_lex by fastforce
  show ?case
  proof (cases "tt = TT_WORD")
    case True
    then have "MAX_WORD_LENGTH < n"
      using lexs Nil.prems(1) by (auto split: if_splits prod.splits)
    then show ?thesis
      using True nt rest lexs lex_next_token [OF nt]
      by (auto simp: parse_args_loop.simps [of s] filled_def)
  next
    case False
    then have "\<not> starts_word rest" using lexs rest by (auto simp: starts_word_iff)
    then show ?thesis
      using False nt rest lex_next_token [OF nt] Nil.prems(2)
      by (auto simp: parse_args_loop.simps [of s] filled_def set_arg_def memcpy_at_def
          upd_conv_take_nth_drop)
  qed
next
  case (Cons w ws)
  obtain tt n t where nt: "next_token s = (tt, n, t)" by (cases "next_token s")
  have lexs: "tokens_of s = T_Word w # map T_Word ws @ rest" using g_args_lex [OF Cons.prems(1)] by simp
  then have tt: "tt = TT_WORD" and n: "n = length w" "strndup t n = w"
    and lexd: "tokens_of (drop n t) = map T_Word ws @ rest"
    using lex_cases_next [OF nt] by auto
  have w: "length w \<le> MAX_WORD_LENGTH" and rec: "g_args (tokens_of (drop n t)) = (ws, rest)"
    using Cons.prems(1) lexs lexd by (auto split: if_splits prod.splits)
  let ?cmd = "cmd\<lparr>command_args := (command_args cmd)[k := Arg w]\<rparr>"
  have "Suc k + length ws < length (command_args ?cmd)" using Cons.prems(2) by simp
  from Cons.IH [OF rec this] obtain u where "tokens_of u = rest"
    and "parse_args_loop (drop n t) (Suc k) ?cmd =
      Some (if starts_word rest then -1 else int (Suc k + length ws), u,
        cmd\<lparr>command_args := memcpy_at (Suc k) (filled ws (starts_word rest)) (command_args ?cmd)\<rparr>)"
    by auto
  moreover have "memcpy_at (Suc k) (filled ws (starts_word rest)) (command_args ?cmd) =
      memcpy_at k (filled (w # ws) (starts_word rest)) (command_args cmd)"
    using Cons.prems(2) by (simp add: filled_def memcpy_at_step)
  ultimately show ?case
    using nt tt n w Cons.prems(2)
    by (auto simp: parse_args_loop.simps [of s] set_arg_def)
qed

lemma parse_args_refines:
  assumes "g_args (tokens_of s) = (ws, rest)" "length ws < length (command_args cmd)"
  shows "\<exists>t. tokens_of t = rest \<and> parse_args s cmd =
    Some (if starts_word rest then -1 else int (length ws), t,
          cmd\<lparr>command_args := memcpy_at 0 (filled ws (starts_word rest)) (command_args cmd)\<rparr>)"
proof -
  obtain tt n t where nt: "next_token s = (tt, n, t)" by (cases "next_token s")
  have "g_args (tokens_of t) = (ws, rest)" using assms(1) lex_next_token [OF nt] by simp
  from parse_args_loop_refines [OF this, of 0 cmd] assms(2) nt show ?thesis
    by (simp only: parse_args_def add_0 prod.case simp_thms)
qed

lemma parse_redirect_in_refines:
  assumes "parse_redirect_in s cmd = (r, t, cmd')"
  shows "case g_redir T_In (tokens_of s) (redirect_in_path cmd) of
      None \<Rightarrow> r = -1 \<and> cmd' = cmd
    | Some (b, p, rest) \<Rightarrow> r = of_bool b \<and> tokens_of t = rest \<and> cmd' = cmd\<lparr>redirect_in_path := p\<rparr>"
proof -
  obtain tt n u where nt: "next_token s = (tt, n, u)" by (cases "next_token s")
  obtain tt' n' u' where nt': "next_token (drop n u) = (tt', n', u')"
    by (cases "next_token (drop n u)")
  from assms show ?thesis
    using nt nt' lex_cases_next [OF nt] lex_cases_next [OF nt'] lex_next_token [OF nt]
    by (auto simp: parse_redirect_in_def g_redir_def split: if_splits)
qed

lemma parse_redirect_out_refines:
  assumes "parse_redirect_out s cmd = (r, t, cmd')"
  shows "case g_redir T_Out (tokens_of s) (redirect_out_path cmd) of
      None \<Rightarrow> r = -1 \<and> cmd' = cmd
    | Some (b, p, rest) \<Rightarrow> r = of_bool b \<and> tokens_of t = rest \<and> cmd' = cmd\<lparr>redirect_out_path := p\<rparr>"
proof -
  obtain tt n u where nt: "next_token s = (tt, n, u)" by (cases "next_token s")
  obtain tt' n' u' where nt': "next_token (drop n u) = (tt', n', u')"
    by (cases "next_token (drop n u)")
  from assms show ?thesis
    using nt nt' lex_cases_next [OF nt] lex_cases_next [OF nt'] lex_next_token [OF nt]
    by (auto simp: parse_redirect_out_def g_redir_def split: if_splits)
qed

lemma parse_redirects_refines:
  assumes "parse_redirects s cmd = (a, b, t, cmd')"
  shows "case g_redirs (tokens_of s) (redirect_in_path cmd) (redirect_out_path cmd) of
      None \<Rightarrow> (a = -1 \<or> b = -1) \<and> command_args cmd' = command_args cmd
    | Some (i, out, rest) \<Rightarrow> a \<noteq> -1 \<and> b \<noteq> -1 \<and> tokens_of t = rest \<and>
        cmd' = cmd\<lparr>redirect_in_path := i, redirect_out_path := out\<rparr>"
  using assms
proof (induction s cmd rule: parse_redirects.induct)
  case (1 s cmd)
  obtain r1 t1 c1 where p1: "parse_redirect_in s cmd = (r1, t1, c1)"
    by (cases "parse_redirect_in s cmd")
  obtain r2 t2 c2 where p2: "parse_redirect_out t1 c1 = (r2, t2, c2)"
    by (cases "parse_redirect_out t1 c1")
  note in1 = parse_redirect_in_refines [OF p1] and out1 = parse_redirect_out_refines [OF p2]
  note step = parse_redirects.simps [of s cmd] g_redirs.simps [of "tokens_of s"]
  show ?case
  proof (cases "r1 > 0 \<and> r2 > 0")
    case True
    then have rec: "parse_redirects t2 c2 = (a, b, t, cmd')"
      using "1.prems" p1 p2 by (simp add: parse_redirects.simps [of s cmd])
    note IH = "1.IH" [OF p1 [symmetric] refl p2 [symmetric] refl True rec]
    from True in1 out1 IH show ?thesis
      by (auto simp: step p1 p2 split: option.splits)
  next
    case False
    with "1.prems" p1 p2 in1 out1 show ?thesis
      by (auto simp: step of_bool_def split: option.splits if_splits)
  qed
qed

text \<open>The argument vector of a fresh command after \<open>parse_args\<close>.\<close>

lemma alloc_args: "command_args pipeline_command_alloc = Null # replicate (MAX_ARGV_LENGTH - 1) Uninit"
  by (simp add: pipeline_command_alloc_def MAX_ARGV_LENGTH_def)

lemma length_alloc_args [simp]: "length (command_args pipeline_command_alloc) = MAX_ARGV_LENGTH"
  by (simp add: pipeline_command_alloc_def)

lemma filled_ok:
  assumes "length ws < MAX_ARGV_LENGTH"
  shows "memcpy_at 0 (filled ws False) (command_args pipeline_command_alloc) =
    map Arg ws @ Null # replicate (MAX_ARGV_LENGTH - Suc (length ws)) Uninit"
  using assms by (auto simp: alloc_args memcpy_at_def filled_def drop_Cons' intro!: arg_cong [where f = "\<lambda>n. replicate n Uninit"])

lemma free_args_walk_Args: "free_args_walk (map Arg ws @ rest) = map_option ((@) ws) (free_args_walk rest)"
  by (induction ws) (auto simp: option.map_comp comp_def option.map_ident)

lemma filled_failed_walk:
  assumes "length ws < MAX_ARGV_LENGTH"
  shows "free_args_walk (memcpy_at 0 (filled ws True) (command_args pipeline_command_alloc)) =
    (if ws = [] then Some [] else None)"
proof (cases ws)
  case Nil
  then show ?thesis by (simp add: filled_def alloc_args)
next
  case (Cons w ws')
  then have "drop (length ws) (command_args pipeline_command_alloc) =
      Uninit # replicate (MAX_ARGV_LENGTH - Suc (length ws)) Uninit"
    using assms by (auto simp: alloc_args simp flip: replicate_Suc intro!: arg_cong [where f = "\<lambda>n. replicate n Uninit"])
  then show ?thesis
    using Cons by (simp add: memcpy_at_def filled_def free_args_walk_Args)
qed

lemma parse_command_refines:
  assumes "length s \<le> MAX_LINE_LENGTH"
  shows "case g_command (tokens_of s) of
      Accept (c, rest) \<Rightarrow> \<exists>t. tokens_of t = rest \<and> length t \<le> length s \<and>
        parse_command s pipeline_command_alloc = Some (if words c = [] then 0 else 1, t, conc_command c)
    | Reject \<Rightarrow> \<exists>t cmd. parse_command s pipeline_command_alloc = Some (-1, t, cmd) \<and>
        pipeline_command_free_args cmd \<noteq> None
    | Crash \<Rightarrow> \<exists>t cmd. parse_command s pipeline_command_alloc = Some (-1, t, cmd) \<and>
        pipeline_command_free_args cmd = None"
proof -
  obtain ws rest where ga: "g_args (tokens_of s) = (ws, rest)" by (cases "g_args (tokens_of s)")
  then have "2 * length ws \<le> Suc (length s)" using g_args_lex lex_words_length by blast
  with assms have len: "length ws < MAX_ARGV_LENGTH" by (simp add: MAX_ARGV_LENGTH_def MAX_LINE_LENGTH_def)
  let ?cmd = "pipeline_command_alloc\<lparr>command_args :=
      memcpy_at 0 (filled ws (starts_word rest)) (command_args pipeline_command_alloc)\<rparr>"
  from parse_args_refines [OF ga, of pipeline_command_alloc] len obtain t where t: "tokens_of t = rest"
    and pa: "parse_args s pipeline_command_alloc =
      Some (if starts_word rest then -1 else int (length ws), t, ?cmd)"
    by auto
  show ?thesis
  proof (cases "starts_word rest")
    case True
    then have "parse_command s pipeline_command_alloc = Some (-1, t, ?cmd)"
      using pa by (simp add: parse_command_def)
    then show ?thesis
      using True ga filled_failed_walk [OF len]
      by (cases "ws = []") (simp_all add: g_command_def pipeline_command_free_args_def)
  next
    case False
    have conc: "command_args ?cmd = map Arg ws @ Null # replicate (MAX_ARGV_LENGTH - Suc (length ws)) Uninit"
      using filled_ok [OF len] False by simp
    obtain a b t2 cmd2 where pr: "parse_redirects t ?cmd = (a, b, t2, cmd2)"
      by (cases "parse_redirects t ?cmd")
    note red = parse_redirects_refines [OF pr]
    have le: "length t2 \<le> length s" if "parse_command s pipeline_command_alloc = Some (r, t2, c)" for r c
      using parse_command_le that by blast
    show ?thesis
      using pa t False ga pr red conc le parse_command_le [of s pipeline_command_alloc]
      by (cases "g_redirs rest None None")
        (auto simp: g_command_def parse_command_def conc_command_def t
          pipeline_command_free_args_def free_args_walk_Args pipeline_command_alloc_def
          split: if_splits)
  qed
qed

text \<open>Parsing one command behind the commands \<open>pre\<close> and going on with the loop of \<open>parse_pipes\<close>.\<close>

definition parse_from ::
  "string \<Rightarrow> int \<Rightarrow> pipeline_command list \<Rightarrow> (int \<times> string \<times> pipeline_command list) option" where
  "parse_from s cnt pre =
     (case parse_command s pipeline_command_alloc of
        None \<Rightarrow> None
      | Some (r, t, cmd) \<Rightarrow>
          if r = -1 then Some (-1, t, pre @ [cmd]) else parse_pipes_loop t r cnt (pre @ [cmd]))"

lemma free_commands_None: "free_commands cs = None \<longleftrightarrow> (\<exists>c \<in> set cs. pipeline_command_free_args c = None)"
  by (induction cs) (auto split: option.splits)

lemma conc_command_frees: "pipeline_command_free_args (conc_command c) = Some (words c)"
  by (simp add: pipeline_command_free_args_def conc_command_def free_args_walk_Args)

lemma parse_from_refines:
  assumes "length s \<le> MAX_LINE_LENGTH" "free_commands pre \<noteq> None"
  shows "case g_pipes (tokens_of s) of
      Accept (cs, rest) \<Rightarrow> cs \<noteq> [] \<and> (\<exists>t. tokens_of t = rest \<and>
        parse_from s cnt pre = Some (cnt + int (length cs) - 1, t, pre @ map conc_command cs))
    | Reject \<Rightarrow> \<exists>t cmds. parse_from s cnt pre = Some (-1, t, cmds) \<and> free_commands cmds \<noteq> None
    | Crash \<Rightarrow> \<exists>t cmds. parse_from s cnt pre = Some (-1, t, cmds) \<and> free_commands cmds = None"
  using assms
proof (induction s arbitrary: cnt pre rule: length_induct)
  case (1 s)
  note cmd = parse_command_refines [OF "1.prems"(1)]
  note unfold = g_pipes.simps [of "tokens_of s"] parse_from_def [of s]
  show ?case
  proof (cases "g_command (tokens_of s)")
    case Crash
    with cmd show ?thesis by (auto simp: unfold free_commands_None)
  next
    case Reject
    with cmd obtain t c where "parse_command s pipeline_command_alloc = Some (-1, t, c)"
      and "pipeline_command_free_args c \<noteq> None" by auto
    with Reject "1.prems"(2) show ?thesis by (simp add: unfold free_commands_None)
  next
    case (Accept cr)
    obtain c rest where cr: "cr = (c, rest)" by (cases cr)
    with cmd Accept obtain t where t: "tokens_of t = rest" "length t \<le> length s"
      and pc: "parse_command s pipeline_command_alloc = Some (if words c = [] then 0 else 1, t, conc_command c)"
      by auto
    let ?r = "if words c = [] then 0 else 1 :: int" and ?pre = "pre @ [conc_command c]"
    have pf: "parse_from s cnt pre = parse_pipes_loop t ?r cnt ?pre"
      using pc by (simp add: parse_from_def)
    have fr: "free_commands ?pre \<noteq> None"
      using "1.prems"(2) by (auto simp: free_commands_None conc_command_frees)
    obtain tt n u where nt: "next_token t = (tt, n, u)" by (cases "next_token t")
    note loop = parse_pipes_loop.simps [of t ?r cnt ?pre]
    show ?thesis
    proof (cases "tt = TT_PIPE")
      case False
      have "rest = [] \<or> hd rest \<noteq> T_Pipe"
        using lex_cases_next [OF nt] False t by auto
      then have "g_pipes (tokens_of s) = Accept ([c], rest)"
        using Accept cr by (auto simp: g_pipes.simps [of "tokens_of s"] split: list.splits token.splits)
      moreover have "parse_from s cnt pre = Some (cnt, u, ?pre)"
        using False nt pf by (simp add: loop)
      ultimately show ?thesis using lex_next_token [OF nt] t by auto
    next
      case True
      then have rest: "rest = T_Pipe # tokens_of (drop n u)"
        using lex_cases_next [OF nt] t by auto
      show ?thesis
      proof (cases "words c = []")
        case empty: True
        then have "parse_from s cnt pre = Some (-1, u, ?pre)"
          using pf nt True by (simp add: parse_pipes_loop.simps [of t])
        then show ?thesis
          using Accept cr rest fr empty by (simp add: g_pipes.simps [of "tokens_of s"])
      next
        case False
        have "length u - n < length t" using next_token_shrinks [OF nt] True by simp
        then have short: "length (drop n u) < length s" "length (drop n u) \<le> MAX_LINE_LENGTH"
          using t "1.prems"(1) by auto
        have "parse_from s cnt pre = parse_from (drop n u) (cnt + 1) ?pre"
          using pf False nt True
          by (simp add: parse_pipes_loop.simps [of t 1 cnt] parse_from_def [of "drop n u"]
              split: option.splits)
        moreover note "1.IH" [rule_format, OF short fr, of "cnt + 1"]
        ultimately show ?thesis
          using Accept cr rest False
          by (cases "g_pipes (tokens_of (drop n u))")
            (auto simp: g_pipes.simps [of "tokens_of s"])
      qed
    qed
  qed
qed

lemma parse_background_refines:
  assumes "parse_background s False = (r, t, bg)" "next_token t = (tt, n, u)"
  shows "bg = (tokens_of s \<noteq> [] \<and> hd (tokens_of s) = T_Amp)"
    and "tt = TT_NONE \<longleftrightarrow> tokens_of s = [] \<or> tokens_of s = [T_Amp]"
proof -
  obtain tt' n' u' where nt: "next_token s = (tt', n', u')" by (cases "next_token s")
  show "bg = (tokens_of s \<noteq> [] \<and> hd (tokens_of s) = T_Amp)"
    and "tt = TT_NONE \<longleftrightarrow> tokens_of s = [] \<or> tokens_of s = [T_Amp]"
    using assms nt lex_cases_next [OF nt] lex_cases_next [OF assms(2)] lex_next_token [OF nt]
    by (auto simp: parse_background_def split: if_splits)
qed

text \<open>The whole parser on every line that fits.\<close>

lemma pipeline_build_refines:
  assumes "length (c_string line) \<le> MAX_LINE_LENGTH"
  shows "pipeline_build line =
    (case g_line (tokens_of (c_string line)) of
       Crash \<Rightarrow> None
     | Reject \<Rightarrow> Some None
     | Accept p \<Rightarrow> Some (Some (conc_pipeline p)))"
proof -
  let ?s = "c_string line"
  have pp: "parse_pipes ?s = (case parse_from ?s 0 [] of
        None \<Rightarrow> None
      | Some (pipe_count, t1, cmds) \<Rightarrow>
          if pipe_count = -1 then Some (-1, t1, \<lparr>commands = cmds, is_background = False\<rparr>)
          else (case parse_background t1 False of (_, t2, bg) \<Rightarrow>
                  (case next_token t2 of (tt, _, t3) \<Rightarrow>
                     let p = \<lparr>commands = cmds, is_background = bg\<rparr>
                     in if tt \<noteq> TT_NONE then Some (-1, t3, p) else Some (pipe_count, t3, p))))"
    by (auto simp: parse_pipes_def parse_from_def split: option.splits)
  note ref = parse_from_refines [OF assms, of "[]" 0]
  show ?thesis
  proof (cases "g_pipes (tokens_of ?s)")
    case Crash
    with ref show ?thesis
      by (auto simp: pipeline_build_def pp g_line_def pipeline_free_def)
  next
    case Reject
    with ref show ?thesis
      by (auto simp: pipeline_build_def pp g_line_def pipeline_free_def)
  next
    case (Accept cr)
    then obtain cs rest where cr: "g_pipes (tokens_of ?s) = Accept (cs, rest)" by (cases cr) auto
    with ref obtain t where t: "tokens_of t = rest" "cs \<noteq> []"
      and pf: "parse_from ?s 0 [] = Some (int (length cs) - 1, t, map conc_command cs)"
      by auto
    obtain r t2 bg where pb: "parse_background t False = (r, t2, bg)" by (cases "parse_background t False")
    obtain tt n t3 where nt: "next_token t2 = (tt, n, t3)" by (cases "next_token t2")
    have "free_commands (map conc_command cs) \<noteq> None"
      by (simp add: free_commands_None conc_command_frees)
    then show ?thesis
      using cr pf pb nt t parse_background_refines [OF pb nt]
      by (auto simp: pipeline_build_def pp g_line_def pipeline_free_def conc_pipeline_def Let_def)
  qed
qed

section \<open>Printing a pipeline\<close>

definition valid_word :: "string \<Rightarrow> bool" where
  "valid_word w \<longleftrightarrow> w \<noteq> [] \<and> length w \<le> MAX_WORD_LENGTH \<and>
     list_all (\<lambda>c. c \<notin> set (WHITESPACE_CHARS @ SPECIAL_CHARS) \<and> c \<noteq> CHR 0x00) w"

definition valid_path :: "string option \<Rightarrow> bool" where
  "valid_path p = (case p of None \<Rightarrow> True | Some f \<Rightarrow> valid_word f)"

definition valid_command :: "acommand \<Rightarrow> bool" where
  "valid_command c \<longleftrightarrow> words c \<noteq> [] \<and> list_all valid_word (words c) \<and> valid_path (rin c) \<and> valid_path (rout c)"

definition show_word :: "string \<Rightarrow> string" where
  "show_word w = w @ '' ''"

definition show_path :: "string \<Rightarrow> string option \<Rightarrow> string" where
  "show_path angle p = (case p of None \<Rightarrow> [] | Some f \<Rightarrow> angle @ '' '' @ show_word f)"

definition show_command :: "acommand \<Rightarrow> string" where
  "show_command c = concat (map show_word (words c)) @ show_path ''<'' (rin c) @ show_path ''>'' (rout c)"

fun show_commands :: "acommand list \<Rightarrow> string" where
  "show_commands [] = []"
| "show_commands [c] = show_command c"
| "show_commands (c # cs) = show_command c @ ''| '' @ show_commands cs"

definition show_line :: "acommand list \<times> bool \<Rightarrow> string" where
  "show_line p = show_commands (fst p) @ (if snd p then ''&'' else [])"

lemma next_token_word_sep:
  assumes "valid_word w" "c \<in> set WHITESPACE_CHARS"
  shows "next_token (w @ c # s) = (TT_WORD, length w, w @ c # s)"
proof -
  obtain a v where w: "w = a # v" using assms(1) by (cases w) (auto simp: valid_word_def)
  have a: "a \<notin> set WHITESPACE_CHARS" "a \<notin> set SPECIAL_CHARS"
    using assms(1) w by (auto simp: valid_word_def)
  then have "strspn (w @ c # s) WHITESPACE_CHARS = 0" by (simp add: strspn_def w)
  moreover have "strcspn (w @ c # s) (WHITESPACE_CHARS @ SPECIAL_CHARS) = length w"
    using assms by (simp add: strcspn_def takeWhile_append valid_word_def list_all_iff)
  ultimately show ?thesis using a w by (auto simp: next_token_def SPECIAL_CHARS_def)
qed

lemma tokens_of_ws: "c \<in> set WHITESPACE_CHARS \<Longrightarrow> tokens_of (c # s) = tokens_of s"
proof -
  assume "c \<in> set WHITESPACE_CHARS"
  then have "next_token (c # s) = next_token s"
    by (simp add: next_token_def strspn_def)
  then show ?thesis using tokens_of.simps [of s] tokens_of.simps [of "c # s"] by simp
qed

lemma space_ws: "CHR '' '' \<in> set WHITESPACE_CHARS"
  by (simp add: WHITESPACE_CHARS_def)

lemma tokens_of_word: "valid_word w \<Longrightarrow> tokens_of (w @ CHR '' '' # s) = T_Word w # tokens_of s"
  using next_token_word_sep [OF _ space_ws, of w s] tokens_of_ws [OF space_ws, of s]
  by (simp add: tokens_of.simps [of "w @ CHR '' '' # s"] strndup_def)

lemma tokens_of_Nil [simp]: "tokens_of [] = []"
  by (simp add: tokens_of.simps [of "[]"] next_token_def)

lemma tokens_of_special:
  "tokens_of (CHR ''<'' # s) = T_In # tokens_of s"
  "tokens_of (CHR ''>'' # s) = T_Out # tokens_of s"
  "tokens_of (CHR ''|'' # s) = T_Pipe # tokens_of s"
  "tokens_of (CHR ''&'' # s) = T_Amp # tokens_of s"
  by (simp_all add: tokens_of.simps [of "_ # s"] next_token_def strspn_def WHITESPACE_CHARS_def)

lemmas tokens_of_simps = tokens_of_special tokens_of_ws [OF space_ws] tokens_of_word

definition path_tokens :: "token \<Rightarrow> string option \<Rightarrow> token list" where
  "path_tokens angle p = (case p of None \<Rightarrow> [] | Some f \<Rightarrow> [angle, T_Word f])"

definition command_tokens :: "acommand \<Rightarrow> token list" where
  "command_tokens c = map T_Word (words c) @ path_tokens T_In (rin c) @ path_tokens T_Out (rout c)"

lemma tokens_of_words:
  "list_all valid_word ws \<Longrightarrow> tokens_of (concat (map show_word ws) @ s) = map T_Word ws @ tokens_of s"
  by (induction ws) (auto simp: show_word_def tokens_of_word)

lemma tokens_of_show_command:
  "valid_command c \<Longrightarrow> tokens_of (show_command c @ s) = command_tokens c @ tokens_of s"
  by (auto simp: valid_command_def valid_path_def show_command_def command_tokens_def tokens_of_words
      show_path_def show_word_def path_tokens_def tokens_of_simps split: option.splits)

fun commands_tokens :: "acommand list \<Rightarrow> token list" where
  "commands_tokens [] = []"
| "commands_tokens [c] = command_tokens c"
| "commands_tokens (c # cs) = command_tokens c @ T_Pipe # commands_tokens cs"

lemma tokens_of_show_commands:
  "list_all valid_command cs \<Longrightarrow> tokens_of (show_commands cs @ s) = commands_tokens cs @ tokens_of s"
  by (induction cs rule: show_commands.induct)
    (simp_all add: tokens_of_show_command tokens_of_simps)

text \<open>The grammar reads the tokens of a valid command back.\<close>

lemma g_args_words:
  assumes "list_all valid_word ws" "\<not> starts_word rest"
  shows "g_args (map T_Word ws @ rest) = (ws, rest)"
  using assms
proof (induction ws)
  case Nil
  then show ?case by (cases rest rule: g_args.cases) auto
qed (auto simp: valid_word_def)

definition ends_command :: "token list \<Rightarrow> bool" where
  "ends_command ts \<longleftrightarrow> ts = [] \<or> hd ts = T_Pipe \<or> hd ts = T_Amp"

lemma g_redirs_paths:
  assumes "valid_path i" "valid_path out" "ends_command rest"
  shows "g_redirs (path_tokens T_In i @ path_tokens T_Out out @ rest) None None = Some (i, out, rest)"
  using assms
  by (cases rest) (auto simp: g_redirs.simps [of "_ # _"] g_redirs.simps [of "[]"] g_redir_def path_tokens_def valid_path_def valid_word_def
      ends_command_def split: option.splits)

lemma starts_word_paths:
  "ends_command rest \<Longrightarrow> \<not> starts_word (path_tokens T_In i @ path_tokens T_Out out @ rest)"
  by (cases rest) (auto simp: path_tokens_def ends_command_def split: option.splits)

lemma g_command_tokens:
  assumes "valid_command c" "ends_command rest"
  shows "g_command (command_tokens c @ rest) = Accept (c, rest)"
  using assms g_args_words [OF _ starts_word_paths [OF assms(2)]] g_redirs_paths [OF _ _ assms(2)]
  by (cases c) (auto simp: g_command_def command_tokens_def valid_command_def starts_word_paths)

lemma g_pipes_tokens:
  assumes "list_all valid_command cs" "cs \<noteq> []" "rest = [] \<or> rest = [T_Amp]"
  shows "g_pipes (commands_tokens cs @ rest) = Accept (cs, rest)"
  using assms
proof (induction cs rule: commands_tokens.induct)
  case (2 c)
  then have "ends_command rest" by (auto simp: ends_command_def)
  with 2 show ?case
    by (auto simp: g_pipes.simps [of "command_tokens c @ _"] g_pipes.simps [of "command_tokens c"]
        g_command_tokens g_command_tokens [of c "[]", simplified])
next
  case (3 c c' cs)
  have "ends_command (T_Pipe # commands_tokens (c' # cs) @ rest)" by (simp add: ends_command_def)
  with 3 show ?case
    by (simp add: g_pipes.simps [of "command_tokens c @ _"] g_command_tokens valid_command_def)
qed simp

lemma g_line_show:
  assumes "list_all valid_command (fst p)" "fst p \<noteq> []"
  shows "g_line (tokens_of (show_line p)) = Accept p"
proof -
  have "tokens_of (show_line p) = commands_tokens (fst p) @ (if snd p then [T_Amp] else [])"
    using tokens_of_show_commands [OF assms(1), of "if snd p then ''&'' else []"]
    by (simp add: show_line_def tokens_of_special split: if_splits)
  then show ?thesis
    using g_pipes_tokens [OF assms, of "if snd p then [T_Amp] else []"]
    by (cases p) (auto simp: g_line_def)
qed

section \<open>Words of accepted lines\<close>

lemma tokens_of_word_chars:
  "T_Word w \<in> set (tokens_of s) \<Longrightarrow>
    w \<noteq> [] \<and> set w \<subseteq> set s \<and> (\<forall>c \<in> set w. c \<notin> set (WHITESPACE_CHARS @ SPECIAL_CHARS))"
proof (induction s rule: length_induct)
  case (1 s)
  obtain tt n t where nt: "next_token s = (tt, n, t)" by (cases "next_token s")
  have sub: "set (drop n t) \<subseteq> set s" "set t \<subseteq> set s"
    using next_token_suffix [OF nt] set_drop_subset by (metis subset_trans)+
  show ?case
  proof (cases "tt = TT_WORD \<and> w = strndup t n")
    case True
    then have n: "n = length (takeWhile (\<lambda>c. c \<notin> set (WHITESPACE_CHARS @ SPECIAL_CHARS)) t)"
      using next_token_word nt by (metis strcspn_def)
    have "w = takeWhile (\<lambda>c. c \<notin> set (WHITESPACE_CHARS @ SPECIAL_CHARS)) t"
      using True n by (metis strndup_def takeWhile_eq_take)
    moreover have "0 < length w" using True next_token_nonempty [OF nt] by (simp add: strndup_def)
    ultimately show ?thesis using sub(2) by (auto dest: set_takeWhileD)
  next
    case False
    then have "T_Word w \<in> set (tokens_of (drop n t))" "tt \<noteq> TT_NONE"
      using "1.prems" lex_cases_next [OF nt] by auto
    then show ?thesis
      using "1.IH" [rule_format, of "drop n t"] next_token_shrinks [OF nt] sub(1) by auto
  qed
qed

lemma g_args_words_in:
  "g_args ts = (ws, rest) \<Longrightarrow> (\<forall>w \<in> set ws. T_Word w \<in> set ts \<and> length w \<le> MAX_WORD_LENGTH) \<and> set rest \<subseteq> set ts"
  by (induction ts arbitrary: ws rest rule: g_args.induct) (auto split: if_splits prod.splits)

lemma g_redir_in:
  "g_redir a ts old = Some (b, p, rest) \<Longrightarrow> set rest \<subseteq> set ts \<and>
    (p = old \<or> (\<exists>f. p = Some f \<and> T_Word f \<in> set ts \<and> length f \<le> MAX_WORD_LENGTH))"
  by (auto simp: g_redir_def split: list.splits token.splits if_splits)

lemma g_redirs_in:
  "g_redirs ts i out = Some (i', out', rest) \<Longrightarrow> set rest \<subseteq> set ts \<and>
    (i' = i \<or> (\<exists>f. i' = Some f \<and> T_Word f \<in> set ts \<and> length f \<le> MAX_WORD_LENGTH)) \<and>
    (out' = out \<or> (\<exists>f. out' = Some f \<and> T_Word f \<in> set ts \<and> length f \<le> MAX_WORD_LENGTH))"
proof (induction ts i out rule: g_redirs.induct)
  case (1 ts i out)
  from "1.prems" obtain a i1 ts1 b out1 ts2
    where r: "g_redir T_In ts i = Some (a, i1, ts1)" "g_redir T_Out ts1 out = Some (b, out1, ts2)"
    by (auto simp: g_redirs.simps [of ts] split: option.splits)
  note sub = g_redir_in [OF r(1)] g_redir_in [OF r(2)]
  show ?case
  proof (cases "a \<and> b")
    case True
    then have "g_redirs ts2 i1 out1 = Some (i', out', rest)"
      using "1.prems" r by (simp add: g_redirs.simps [of ts])
    note IH = "1.IH" [OF r(1) refl refl r(2) refl refl True this]
    from sub IH show ?thesis by blast
  next
    case False
    with "1.prems" r sub show ?thesis by (auto simp: g_redirs.simps [of ts])
  qed
qed

definition command_words_in :: "token list \<Rightarrow> acommand \<Rightarrow> bool" where
  "command_words_in ts c \<longleftrightarrow>
     (\<forall>w \<in> set (words c @ free_path (rin c) @ free_path (rout c)).
        T_Word w \<in> set ts \<and> length w \<le> MAX_WORD_LENGTH)"

lemma g_command_in:
  assumes "g_command ts = Accept (c, rest)"
  shows "set rest \<subseteq> set ts \<and> command_words_in ts c"
proof -
  obtain ws r where ga: "g_args ts = (ws, r)" by (cases "g_args ts")
  note sub = g_args_words_in [OF ga]
  show ?thesis
  proof (cases "ws = []")
    case True
    with assms ga sub show ?thesis
      by (auto simp: g_command_def command_words_in_def free_path_def split: if_splits)
  next
    case False
    with assms ga obtain i out where "g_redirs r None None = Some (i, out, rest)"
      and "c = \<lparr>words = ws, rin = i, rout = out\<rparr>"
      by (auto simp: g_command_def split: if_splits option.splits)
    with g_redirs_in [of r None None i out rest] sub show ?thesis
      by (auto simp: command_words_in_def free_path_def split: option.splits)
  qed
qed

lemma command_words_in_mono: "command_words_in ts c \<Longrightarrow> set ts \<subseteq> set ts' \<Longrightarrow> command_words_in ts' c"
  by (auto simp: command_words_in_def)

lemma g_pipes_in:
  "g_pipes ts = Accept (cs, rest) \<Longrightarrow>
    list_all (command_words_in ts) cs \<and> list_all (\<lambda>c. words c \<noteq> []) (butlast cs) \<and> cs \<noteq> []"
proof (induction ts arbitrary: cs rest rule: g_pipes.induct)
  case (1 ts)
  from "1.prems" obtain c r where gc: "g_command ts = Accept (c, r)"
    by (auto simp: g_pipes.simps [of ts] split: verdict.splits)
  note sub = g_command_in [OF gc]
  show ?case
  proof (cases "r \<noteq> [] \<and> hd r = T_Pipe")
    case True
    then obtain r' where r: "r = T_Pipe # r'" by (cases r) auto
    from "1.prems" gc r obtain cs' where ne: "words c \<noteq> []" and cs: "cs = c # cs'"
      and rec: "g_pipes r' = Accept (cs', rest)"
      by (auto simp: g_pipes.simps [of ts] split: verdict.splits if_splits)
    have "list_all (command_words_in r') cs' \<and> list_all (\<lambda>c. words c \<noteq> []) (butlast cs') \<and> cs' \<noteq> []"
      using "1.IH" [OF gc refl r refl ne rec] .
    moreover have "set r' \<subseteq> set ts" using sub r by auto
    ultimately show ?thesis
      using sub ne cs by (auto simp: list_all_iff intro: command_words_in_mono)
  next
    case False
    with "1.prems" gc have "cs = [c]"
      by (auto simp: g_pipes.simps [of ts] split: list.splits token.splits)
    with sub show ?thesis by simp
  qed
qed

lemma g_line_in:
  "g_line ts = Accept (cs, bg) \<Longrightarrow>
    list_all (command_words_in ts) cs \<and> list_all (\<lambda>c. words c \<noteq> []) (butlast cs) \<and> cs \<noteq> []"
  by (auto simp: g_line_def split: verdict.splits if_splits dest!: g_pipes_in)

lemma c_string_id: "CHR 0x00 \<notin> set s \<Longrightarrow> c_string s = s"
  by (auto simp: c_string_def takeWhile_eq_all_conv)

lemma nul_not_in_c_string: "CHR 0x00 \<notin> set (c_string s)"
  by (auto simp: c_string_def dest: set_takeWhileD)

lemma valid_word_no_nul: "valid_word w \<Longrightarrow> CHR 0x00 \<notin> set w"
  by (auto simp: valid_word_def list_all_iff)

lemma show_commands_no_nul: "list_all valid_command cs \<Longrightarrow> CHR 0x00 \<notin> set (show_commands cs)"
  by (induction cs rule: show_commands.induct)
    (auto simp: show_command_def show_path_def show_word_def valid_command_def valid_path_def list_all_iff
      dest!: valid_word_no_nul split: option.splits)

lemma g_args_short: "(\<And>w. T_Word w \<in> set ts \<Longrightarrow> length w \<le> MAX_WORD_LENGTH) \<Longrightarrow>
    g_args ts = (ws, rest) \<Longrightarrow> \<not> starts_word rest"
  by (induction ts arbitrary: ws rest rule: g_args.induct) (auto split: if_splits prod.splits)

lemma g_pipes_no_crash:
  "(\<And>w. T_Word w \<in> set ts \<Longrightarrow> length w \<le> MAX_WORD_LENGTH) \<Longrightarrow> g_pipes ts \<noteq> Crash"
proof (induction ts rule: g_pipes.induct)
  case (1 ts)
  have gc: "g_command ts \<noteq> Crash"
    using g_args_short [OF "1.prems"]
    by (auto simp: g_command_def split: prod.splits option.splits)
  show ?case
  proof
    assume crash: "g_pipes ts = Crash"
    with gc obtain c r where cr: "g_command ts = Accept (c, T_Pipe # r)" "words c \<noteq> []" "g_pipes r = Crash"
      by (auto simp: g_pipes.simps [of ts] split: verdict.splits list.splits token.splits if_splits)
    have "set r \<subseteq> set ts" using g_command_in [OF cr(1)] by auto
    then show False using "1.IH" [OF cr(1) refl refl refl cr(2)] cr(3) "1.prems" by blast
  qed
qed

lemma g_line_no_crash:
  "(\<And>w. T_Word w \<in> set ts \<Longrightarrow> length w \<le> MAX_WORD_LENGTH) \<Longrightarrow> g_line ts \<noteq> Crash"
  using g_pipes_no_crash [of ts] by (auto simp: g_line_def split: verdict.splits)

section \<open>Properties\<close>

text \<open>
  Two sample lines for the witnesses.
\<close>

definition sample_pipeline :: "acommand list \<times> bool" where
  "sample_pipeline =
     ([\<lparr>words = [''cat''], rin = Some ''in.txt'', rout = None\<rparr>,
       \<lparr>words = [''grep'', ''-v'', ''42''], rin = None, rout = None\<rparr>,
       \<lparr>words = [''wc''], rin = None, rout = Some ''out''\<rparr>], True)"

lemma sample_pipeline_ok:
  "list_all valid_command (fst sample_pipeline)" "fst sample_pipeline \<noteq> []"
  "length (show_line sample_pipeline) \<le> MAX_LINE_LENGTH"
  by code_simp+

text \<open>
  C1: on every command line of at most 512 characters, \<open>pipeline_build\<close> returns exactly what the
  token grammar says: the pipeline the tokens denote, the null pointer on a syntax error, and
  undefined behaviour only where the grammar marks a crash.
\<close>

theorem parser_implements_grammar:
  assumes "length (c_string line) \<le> MAX_LINE_LENGTH"
  shows "pipeline_build line =
    (case g_line (tokens_of (c_string line)) of
       Crash \<Rightarrow> None
     | Reject \<Rightarrow> Some None
     | Accept p \<Rightarrow> Some (Some (conc_pipeline p)))"
  by (rule pipeline_build_refines [OF assms])

theorem parser_implements_grammar_witness:
  "pipeline_build ''ls | wc'' = Some (Some (conc_pipeline
     ([\<lparr>words = [''ls''], rin = None, rout = None\<rparr>, \<lparr>words = [''wc''], rin = None, rout = None\<rparr>], False)))"
proof -
  have "length (c_string ''ls | wc'') \<le> MAX_LINE_LENGTH" by code_simp
  note parser_implements_grammar [OF this]
  moreover have "g_line (tokens_of (c_string ''ls | wc'')) = Accept
     ([\<lparr>words = [''ls''], rin = None, rout = None\<rparr>, \<lparr>words = [''wc''], rin = None, rout = None\<rparr>], False)"
    by code_simp
  ultimately show ?thesis by simp
qed

text \<open>
  C2: parsing a printed pipeline gives the pipeline back, for every pipeline of at least one
  command whose words are valid and whose printed form fits the line limit.
\<close>

theorem parse_print_roundtrip:
  assumes "list_all valid_command (fst p)" "fst p \<noteq> []" "length (show_line p) \<le> MAX_LINE_LENGTH"
  shows "pipeline_build (show_line p) = Some (Some (conc_pipeline p))"
proof -
  have "CHR 0x00 \<notin> set (show_line p)"
    using show_commands_no_nul [OF assms(1)] by (simp add: show_line_def)
  then have "c_string (show_line p) = show_line p" by (rule c_string_id)
  then show ?thesis
    using pipeline_build_refines [of "show_line p"] g_line_show [OF assms(1,2)] assms(3) by simp
qed

theorem parse_print_roundtrip_witness:
  "pipeline_build (show_line sample_pipeline) = Some (Some (conc_pipeline sample_pipeline))"
  by (rule parse_print_roundtrip [OF sample_pipeline_ok])

text \<open>
  C21: every pipeline that \<open>pipeline_build\<close> returns is well formed: each argument vector is a list
  of valid words followed by the null pointer, redirect paths are valid words, and every command
  but the last has at least one argument.
\<close>

theorem built_pipeline_wellformed:
  assumes "length (c_string line) \<le> MAX_LINE_LENGTH" "pipeline_build line = Some (Some q)"
  shows "\<exists>cs. commands q = map conc_command cs \<and> cs \<noteq> [] \<and>
    list_all (\<lambda>c. words c \<noteq> []) (butlast cs) \<and>
    list_all (\<lambda>c. list_all valid_word (words c) \<and> valid_path (rin c) \<and> valid_path (rout c)) cs"
proof -
  let ?ts = "tokens_of (c_string line)"
  from assms obtain cs bg where g: "g_line ?ts = Accept (cs, bg)" and q: "commands q = map conc_command cs"
    by (auto simp: pipeline_build_refines conc_pipeline_def split: verdict.splits)
  have valid: "valid_word w" if "T_Word w \<in> set ?ts" "length w \<le> MAX_WORD_LENGTH" for w
    using tokens_of_word_chars [OF that(1)] that(2) nul_not_in_c_string [of line]
    by (auto simp: valid_word_def list_all_iff)
  have "list_all (\<lambda>c. list_all valid_word (words c) \<and> valid_path (rin c) \<and> valid_path (rout c)) cs"
    using g_line_in [OF g] valid
    by (auto simp: list_all_iff command_words_in_def free_path_def valid_path_def split: option.splits)
  then show ?thesis using g_line_in [OF g] q by blast
qed

theorem built_pipeline_wellformed_witness:
  "\<exists>cs. commands (conc_pipeline sample_pipeline) = map conc_command cs \<and> cs \<noteq> [] \<and>
    list_all (\<lambda>c. words c \<noteq> []) (butlast cs) \<and>
    list_all (\<lambda>c. list_all valid_word (words c) \<and> valid_path (rin c) \<and> valid_path (rout c)) cs"
proof (rule built_pipeline_wellformed)
  have id: "c_string (show_line sample_pipeline) = show_line sample_pipeline" by code_simp
  then show len: "length (c_string (show_line sample_pipeline)) \<le> MAX_LINE_LENGTH"
    using sample_pipeline_ok(3) by simp
  show "pipeline_build (show_line sample_pipeline) = Some (Some (conc_pipeline sample_pipeline))"
    using pipeline_build_refines [OF len] g_line_show [OF sample_pipeline_ok(1,2)] id by simp
qed

text \<open>
  C22: freeing a pipeline that \<open>pipeline_build\<close> returned is always defined, and frees exactly the
  words and redirect paths of its commands.
\<close>

theorem free_built_pipeline:
  assumes "length (c_string line) \<le> MAX_LINE_LENGTH" "pipeline_build line = Some (Some q)"
  shows "\<exists>cs. commands q = map conc_command cs \<and>
    pipeline_free (Some q) =
      Some (concat (map (\<lambda>c. words c @ free_path (rin c) @ free_path (rout c)) cs))"
proof -
  from assms obtain cs where "commands q = map conc_command cs"
    by (auto simp: pipeline_build_refines conc_pipeline_def split: verdict.splits)
  moreover have "free_commands (map conc_command cs) =
      Some (concat (map (\<lambda>c. words c @ free_path (rin c) @ free_path (rout c)) cs))" for cs
    by (induction cs) (simp_all add: conc_command_frees, simp add: conc_command_def)
  ultimately show ?thesis by (auto simp: pipeline_free_def)
qed

theorem free_built_pipeline_witness:
  "\<exists>cs. commands (conc_pipeline sample_pipeline) = map conc_command cs \<and>
    pipeline_free (Some (conc_pipeline sample_pipeline)) =
      Some (concat (map (\<lambda>c. words c @ free_path (rin c) @ free_path (rout c)) cs))"
proof (rule free_built_pipeline)
  have id: "c_string (show_line sample_pipeline) = show_line sample_pipeline" by code_simp
  then show len: "length (c_string (show_line sample_pipeline)) \<le> MAX_LINE_LENGTH"
    using sample_pipeline_ok(3) by simp
  show "pipeline_build (show_line sample_pipeline) = Some (Some (conc_pipeline sample_pipeline))"
    using pipeline_build_refines [OF len] g_line_show [OF sample_pipeline_ok(1,2)] id by simp
qed

text \<open>
  C23: on a line of at most 512 characters whose words have at most 32 characters each, the parser
  never reaches undefined behaviour: it never stores past the argument vector and, on a syntax
  error, never frees an uninitialised slot.
\<close>

theorem parser_defined_on_short_words:
  assumes "length (c_string line) \<le> MAX_LINE_LENGTH"
    and "\<forall>w. T_Word w \<in> set (tokens_of (c_string line)) \<longrightarrow> length w \<le> MAX_WORD_LENGTH"
  shows "pipeline_build line \<noteq> None"
  using pipeline_build_refines [OF assms(1)] g_line_no_crash [of "tokens_of (c_string line)"] assms(2)
  by (auto split: verdict.splits)

theorem parser_defined_on_short_words_witness: "pipeline_build ''ls > | wc'' \<noteq> None"
proof (rule parser_defined_on_short_words)
  show "length (c_string ''ls > | wc'') \<le> MAX_LINE_LENGTH" by code_simp
  have "tokens_of (c_string ''ls > | wc'') = [T_Word ''ls'', T_Out, T_Pipe, T_Word ''wc'']" by code_simp
  then show "\<forall>w. T_Word w \<in> set (tokens_of (c_string ''ls > | wc'')) \<longrightarrow> length w \<le> MAX_WORD_LENGTH"
    by (auto simp: MAX_WORD_LENGTH_def)
qed

text \<open>The parse up to a word that is too long: the commands before it, and the unterminated one.\<close>

definition pipe_prefix :: "acommand list \<Rightarrow> token list" where
  "pipe_prefix cs = concat (map (\<lambda>c. command_tokens c @ [T_Pipe]) cs)"

definition unterminated :: "string list \<Rightarrow> pipeline_command" where
  "unterminated ws =
     \<lparr>command_args = map Arg ws @ replicate (MAX_ARGV_LENGTH - length ws) Uninit, redirect_in_path = None,
      redirect_out_path = None\<rparr>"

lemma g_args_long:
  "list_all (\<lambda>w. length w \<le> MAX_WORD_LENGTH) ws \<Longrightarrow> MAX_WORD_LENGTH < length w \<Longrightarrow>
    g_args (map T_Word ws @ T_Word w # post) = (ws, T_Word w # post)"
  by (induction ws) auto

lemma parse_command_long:
  assumes "tokens_of s = map T_Word ws @ T_Word w # post" "ws \<noteq> []" "list_all (\<lambda>w. length w \<le> MAX_WORD_LENGTH) ws"
    "MAX_WORD_LENGTH < length w" "length s \<le> MAX_LINE_LENGTH"
  shows "length ws < MAX_ARGV_LENGTH \<and> (\<exists>t. parse_command s pipeline_command_alloc = Some (-1, t, unterminated ws))"
proof -
  have len: "length ws < MAX_ARGV_LENGTH"
    using lex_words_length [OF assms(1)] assms(5) by (simp add: MAX_ARGV_LENGTH_def MAX_LINE_LENGTH_def)
  have "g_args (tokens_of s) = (ws, T_Word w # post)" unfolding assms(1) using g_args_long [OF assms(3,4)] .
  from parse_args_refines [OF this, of pipeline_command_alloc] len obtain t where
    "parse_args s pipeline_command_alloc = Some (-1, t, pipeline_command_alloc\<lparr>command_args :=
        memcpy_at 0 (filled ws True) (command_args pipeline_command_alloc)\<rparr>)"
    by auto
  moreover have "memcpy_at 0 (filled ws True) (command_args pipeline_command_alloc) =
      map Arg ws @ replicate (MAX_ARGV_LENGTH - length ws) Uninit"
    using assms(2) by (cases ws) (simp_all add: alloc_args memcpy_at_def filled_def)
  ultimately show ?thesis
    using len by (simp add: parse_command_def unterminated_def pipeline_command_alloc_def)
qed

lemma parse_from_long:
  assumes "tokens_of s = pipe_prefix cs @ map T_Word ws @ T_Word w # post" "list_all valid_command cs" "ws \<noteq> []"
    "list_all (\<lambda>w. length w \<le> MAX_WORD_LENGTH) ws" "MAX_WORD_LENGTH < length w" "length s \<le> MAX_LINE_LENGTH"
  shows "length ws < MAX_ARGV_LENGTH \<and>
    (\<exists>t. parse_from s cnt pre = Some (-1, t, pre @ map conc_command cs @ [unterminated ws]))"
  using assms
proof (induction cs arbitrary: s cnt pre)
  case Nil
  then show ?case using parse_command_long [of s ws w post] by (auto simp: parse_from_def pipe_prefix_def)
next
  case (Cons c cs)
  let ?rest = "pipe_prefix cs @ map T_Word ws @ T_Word w # post"
  have "g_command (tokens_of s) = Accept (c, T_Pipe # ?rest)" and ws: "words c \<noteq> []"
    using Cons.prems(1,2) g_command_tokens [of c "T_Pipe # ?rest"]
    by (simp_all add: pipe_prefix_def ends_command_def valid_command_def)
  then obtain t where t: "tokens_of t = T_Pipe # ?rest" "length t \<le> length s"
      "parse_command s pipeline_command_alloc = Some (1, t, conc_command c)"
    using parse_command_refines [OF Cons.prems(6)] by auto
  obtain tt n u where nt: "next_token t = (tt, n, u)" by (cases "next_token t")
  have tt: "tt = TT_PIPE" "tokens_of (drop n u) = ?rest" using lex_cases_next [OF nt] t(1) by auto
  have "length (drop n u) \<le> MAX_LINE_LENGTH" using next_token_length_le [OF nt] t(2) Cons.prems(6) by simp
  from Cons.IH [OF tt(2) _ Cons.prems(3-5) this, of "cnt + 1" "pre @ [conc_command c]"] Cons.prems(2)
  obtain t' where "length ws < MAX_ARGV_LENGTH" "parse_from (drop n u) (cnt + 1) (pre @ [conc_command c]) =
      Some (-1, t', pre @ map conc_command (c # cs) @ [unterminated ws])" by auto
  moreover have "parse_from s cnt pre = parse_from (drop n u) (cnt + 1) (pre @ [conc_command c])"
    using t(3) nt tt(1)
    by (simp add: parse_from_def parse_pipes_loop.simps [of t 1 cnt] split: option.splits)
  ultimately show ?case by simp
qed

text \<open>
  C24: an argument of more than 32 characters that is not the first word of its command makes the
  parser free an uninitialised pointer, in any command of a line of at most 512 characters in which the
  commands before it are well formed.  \<open>parse_pipes\<close> reports the error and leaves behind the commands
  before it and the words before it, with no null pointer but an uninitialised slot behind them; the
  walk of \<open>pipeline_free\<close> reaches that slot, so that \<open>pipeline_build\<close> has no defined result, although it is
  documented to return NULL.
\<close>

theorem long_argument_undefined:
  assumes "tokens_of (c_string line) = pipe_prefix cs @ map T_Word ws @ T_Word w # post" "list_all valid_command cs"
    and "ws \<noteq> []" "list_all (\<lambda>w. length w \<le> MAX_WORD_LENGTH) ws" "MAX_WORD_LENGTH < length w"
    and "length (c_string line) \<le> MAX_LINE_LENGTH"
  shows "(\<exists>t. parse_pipes (c_string line) =
      Some (-1, t, \<lparr>commands = map conc_command cs @ [unterminated ws], is_background = False\<rparr>)) \<and>
    free_args_walk (command_args (unterminated ws)) = None \<and> command_args (unterminated ws) ! length ws = Uninit \<and>
    pipeline_build line = None"
proof -
  obtain t where len: "length ws < MAX_ARGV_LENGTH" and t: "parse_from (c_string line) 0 [] = Some (-1, t, map conc_command cs @ [unterminated ws])"
    using parse_from_long [OF assms, of 0 "[]"] by auto
  then have pp: "parse_pipes (c_string line) =
      Some (-1, t, \<lparr>commands = map conc_command cs @ [unterminated ws], is_background = False\<rparr>)"
    by (auto simp: parse_pipes_def parse_from_def split: option.splits if_splits)
  from len obtain m where m: "MAX_ARGV_LENGTH - length ws = Suc m" by (metis Suc_diff_Suc)
  have walk: "free_args_walk (command_args (unterminated ws)) = None" "command_args (unterminated ws) ! length ws = Uninit"
    by (simp_all add: unterminated_def m free_args_walk_Args nth_append)
  then have "free_commands (map conc_command cs @ [unterminated ws]) = None"
    by (auto simp: free_commands_None pipeline_command_free_args_def)
  then have "pipeline_build line = None" by (simp add: pipeline_build_def pp pipeline_free_def)
  then show ?thesis using pp walk by blast
qed

theorem long_argument_undefined_witness:
  "pipeline_build (''ls | cat -n '' @ replicate 33 CHR ''x'' @ '' y'') = None"
proof -
  let ?line = "''ls | cat -n '' @ replicate 33 CHR ''x'' @ '' y''"
  let ?ls = "\<lparr>words = [''ls''], rin = None, rout = None\<rparr>"
  have "tokens_of (c_string ?line) = pipe_prefix [?ls] @ map T_Word [''cat'', ''-n''] @ T_Word (replicate 33 CHR ''x'') # [T_Word ''y'']"
    by code_simp
  moreover have "list_all valid_command [?ls]" by code_simp
  moreover have "length (c_string ?line) \<le> MAX_LINE_LENGTH" by code_simp
  ultimately show ?thesis
    using long_argument_undefined [of ?line "[?ls]" "[''cat'', ''-n'']" "replicate 33 CHR ''x''" "[T_Word ''y'']"]
    by (simp add: MAX_WORD_LENGTH_def)
qed

text \<open>
  C25: an output redirection written before an input redirection is rejected, although the comment
  in \<open>parse_command\<close> says that the two may come in either order.
\<close>

theorem out_before_in_rejected:
  assumes "valid_word c" "valid_word f" "valid_word g"
    and "length (c @ '' > '' @ f @ '' < '' @ g @ '' '') \<le> MAX_LINE_LENGTH"
  shows "pipeline_build (c @ '' > '' @ f @ '' < '' @ g @ '' '') = Some None"
proof -
  have nul: "CHR 0x00 \<notin> set (c @ '' > '' @ f @ '' < '' @ g @ '' '')"
    using assms(1-3) by (auto dest!: valid_word_no_nul)
  have "tokens_of (c @ '' > '' @ f @ '' < '' @ g @ '' '') = [T_Word c, T_Out, T_Word f, T_In, T_Word g]"
    using assms(1-3) by (simp add: tokens_of_simps)
  moreover have "g_line [T_Word c, T_Out, T_Word f, T_In, T_Word g] = Reject"
    using assms(1-3) by (simp add: g_line_def g_pipes.simps [of "[_, _, _, _, _]"] g_command_def
        g_redirs.simps [of "[_, _, _, _]"] g_redir_def valid_word_def)
  ultimately show ?thesis
    using pipeline_build_refines [of "c @ '' > '' @ f @ '' < '' @ g @ '' ''"] assms(4) c_string_id [OF nul]
    by simp
qed

theorem out_before_in_rejected_witness:
  "pipeline_build (''cat'' @ '' > '' @ ''y'' @ '' < '' @ ''x'' @ '' '') = Some None"
  by (rule out_before_in_rejected) code_simp+

end
