(* ===== verification/Shell_Exec.thy ===== *)
theory Shell_Exec
  imports Shell_Grammar
begin

text \<open>
  The shell, \<^verbatim>\<open>parser-for-shell-noodlez102/myshell.c\<close>: how the commands of a pipeline are started and
  connected, and the loop that reads lines.

  A process has a table of file descriptors of a fixed size; \<open>pipe\<close> and \<open>open\<close> take the lowest free
  entries, \<open>fork\<close> copies the table, \<open>dup2\<close> and \<open>close\<close> change one entry.  What the children do after
  \<open>execvp\<close> is not part of the program: a child is the argument vector it executes together with its
  table at that moment, or the way it ended before.  Which paths can be opened, and which executed
  programs end while the shell waits for them, are parameters; a \<open>waitpid\<close> that never returns is
  \<open>None\<close>.  \<open>fork\<close> is taken to succeed.

  The SIGCHLD handler is installed without \<open>SA_RESTART\<close>, so the end of a background child interrupts the
  read of the next line.  A schedule says for each call of \<open>fgets\<close> whether it is interrupted, and after
  how many characters; \<open>main\<close> does not look at the result of \<open>fgets\<close> and goes on with the buffer.
\<close>

section \<open>File descriptors\<close>

datatype open_file =
    Tty_In
  | Tty_Out
  | Tty_Err
  | Pipe_Read nat
  | Pipe_Write nat
  | File_In string
  | File_Out string

type_synonym fd_table = "open_file option list"

definition fd_used :: "open_file option \<Rightarrow> bool" where
  "fd_used x \<longleftrightarrow> x \<noteq> None"

definition fill_entry :: "open_file \<Rightarrow> open_file option \<Rightarrow> open_file option" where
  "fill_entry f x = Some f"

definition alloc_fd :: "open_file \<Rightarrow> fd_table \<Rightarrow> (nat \<times> fd_table) option" where
  "alloc_fd f t =
     (case find_slot (\<lambda>x. \<not> fd_used x) t of
        None \<Rightarrow> None
      | Some i \<Rightarrow> Some (i, t[i := fill_entry f (t ! i)]))"

definition dup2_fd :: "nat \<Rightarrow> nat \<Rightarrow> fd_table \<Rightarrow> fd_table option" where
  "dup2_fd a b t = (if a < length t \<and> b < length t \<and> t ! a \<noteq> None then Some (t[b := t ! a]) else None)"

definition close_fd :: "nat \<Rightarrow> fd_table \<Rightarrow> fd_table" where
  "close_fd a t = t[a := None]"

text \<open>A call of \<open>dup2\<close> whose result is not looked at.\<close>

definition try_dup2 :: "nat \<Rightarrow> nat \<Rightarrow> fd_table \<Rightarrow> fd_table" where
  "try_dup2 a b t = (case dup2_fd a b t of None \<Rightarrow> t | Some t' \<Rightarrow> t')"

section \<open>Starting one command\<close>

record host =
  can_create :: "string \<Rightarrow> bool"
  can_read :: "string \<Rightarrow> bool"
  finishes :: "arg_slot list \<Rightarrow> fd_table \<Rightarrow> bool"

datatype child_end = Exec "arg_slot list" fd_table | Child_Exit | Child_Crash

record shell_state =
  fds :: fd_table
  next_pipe :: nat
  children :: "(bool \<times> child_end) list"
  printed :: "string list"

text \<open>The two redirections in the child; \<open>None\<close> means that the child has called \<open>exit\<close>.\<close>

definition redirect_out :: "host \<Rightarrow> string option \<Rightarrow> fd_table \<Rightarrow> fd_table option" where
  "redirect_out fl path t =
     (case path of
        None \<Rightarrow> Some t
      | Some p \<Rightarrow>
          if \<not> can_create fl p then None
          else (case alloc_fd (File_Out p) t of
                  None \<Rightarrow> None
                | Some (fdout, t1) \<Rightarrow>
                    (case dup2_fd fdout 1 t1 of None \<Rightarrow> None | Some t2 \<Rightarrow> Some (close_fd fdout t2))))"

definition redirect_in :: "host \<Rightarrow> string option \<Rightarrow> fd_table \<Rightarrow> fd_table option" where
  "redirect_in fl path t =
     (case path of
        None \<Rightarrow> Some t
      | Some p \<Rightarrow>
          if \<not> can_read fl p then None
          else (case alloc_fd (File_In p) t of
                  None \<Rightarrow> None
                | Some (fdin, t1) \<Rightarrow>
                    (case dup2_fd fdin 0 t1 of None \<Rightarrow> None | Some t2 \<Rightarrow> Some (close_fd fdin t2))))"

definition connect :: "bool \<Rightarrow> bool \<Rightarrow> nat \<Rightarrow> nat \<Rightarrow> fd_table \<Rightarrow> fd_table" where
  "connect bg at_end input fd1 t0 =
     (let t = (if bg then close_fd fd1 t0 else t0)
      in if \<not> at_end \<and> input = 0 then try_dup2 fd1 1 t
         else if \<not> at_end \<and> input \<noteq> 0 then try_dup2 fd1 1 (try_dup2 input 0 t)
         else try_dup2 input 0 t)"

definition exec_child :: "arg_slot list \<Rightarrow> fd_table \<Rightarrow> child_end" where
  "exec_child args t = (case args of Arg a # _ \<Rightarrow> Exec args t | _ \<Rightarrow> Child_Crash)"

definition child_branch :: "host \<Rightarrow> pipeline_command \<Rightarrow> bool \<Rightarrow> bool \<Rightarrow> nat \<Rightarrow> nat \<Rightarrow> fd_table \<Rightarrow> child_end" where
  "child_branch fl c bg at_end input fd1 t =
     (case redirect_out fl (redirect_out_path c) t of
        None \<Rightarrow> Child_Exit
      | Some t1 \<Rightarrow>
          (case redirect_in fl (redirect_in_path c) t1 of
             None \<Rightarrow> Child_Exit
           | Some t2 \<Rightarrow> exec_child (command_args c) (connect bg at_end input fd1 t2)))"

text \<open>\<open>waitpid\<close> for one child: a child that has called \<open>exit\<close> or crashed has ended.\<close>

definition child_ends :: "host \<Rightarrow> child_end \<Rightarrow> bool" where
  "child_ends fl ch = (case ch of Exec args t \<Rightarrow> finishes fl args t | _ \<Rightarrow> True)"

text \<open>
  \<open>doCommand\<close>: the pipe, the child, and the parent, which waits for a foreground child.  The result is
  \<open>fd[0]\<close>.  A pipeline without commands is a null pointer, and a \<open>pipe\<close> that fails leaves \<open>fd\<close>
  uninitialised.
\<close>

definition doCommand :: "host \<Rightarrow> pipeline \<Rightarrow> nat \<Rightarrow> bool \<Rightarrow> bool \<Rightarrow> shell_state \<Rightarrow> (nat \<times> shell_state) option" where
  "doCommand fl p input at_end background s =
     (case commands p of
        [] \<Rightarrow> None
      | c # _ \<Rightarrow>
          (case alloc_fd (Pipe_Read (next_pipe s)) (fds s) of
             None \<Rightarrow> None
           | Some (fd0, t0) \<Rightarrow>
               (case alloc_fd (Pipe_Write (next_pipe s)) t0 of
                  None \<Rightarrow> None
                | Some (fd1, t1) \<Rightarrow>
                    (let child = child_branch fl c (is_background p) at_end input fd1 t1;
                         t2 = close_fd fd1 t1;
                         t3 = (if input \<noteq> 0 then close_fd input t2 else t2);
                         t4 = (if at_end then close_fd fd0 t3 else t3)
                     in if \<not> background \<and> \<not> child_ends fl child then None
                        else Some (fd0, s\<lparr>fds := t4, next_pipe := Suc (next_pipe s),
                                     children := children s @ [(\<not> background, child)]\<rparr>)))))"

section \<open>Reaping children\<close>

text \<open>
  The loop of the SIGCHLD handler over the results of its calls of \<open>waitpid\<close>: it returns at the first
  result that is not the number of a process.  The result is the list of processes reaped.
\<close>

fun signalHandler :: "int list \<Rightarrow> int list option" where
  "signalHandler [] = None"
| "signalHandler (pid # pids) =
     (if pid \<le> 0 then Some [] else map_option ((#) pid) (signalHandler pids))"

section \<open>The main loop\<close>

text \<open>The loop over the commands of a pipeline; it leaves the pipeline with its last command only.\<close>

fun run_pipeline :: "host \<Rightarrow> pipeline_command list \<Rightarrow> bool \<Rightarrow> nat \<Rightarrow> shell_state \<Rightarrow> (pipeline \<times> shell_state) option" where
  "run_pipeline fl (c # d # cs) bg input s =
     (case doCommand fl \<lparr>commands = c # d # cs, is_background = bg\<rparr> input False bg s of
        None \<Rightarrow> None
      | Some (input', s') \<Rightarrow> run_pipeline fl (d # cs) bg input' s')"
| "run_pipeline fl cs bg input s =
     (case doCommand fl \<lparr>commands = cs, is_background = bg\<rparr> input True bg s of
        None \<Rightarrow> None
      | Some (_, s') \<Rightarrow> Some (\<lparr>commands = cs, is_background = bg\<rparr>, s'))"

definition MAX_COMMAND_LENGTH :: nat where
  "MAX_COMMAND_LENGTH = 256"

text \<open>\<open>fgets\<close>: the characters stored, the rest of the input, and whether the end of the input was met.\<close>

definition fgets :: "nat \<Rightarrow> string \<Rightarrow> string \<times> string \<times> bool" where
  "fgets n inp =
     (let part = take (n - 1) inp; line = takeWhile (\<lambda>c. c \<noteq> CHR 0x0A) part
      in if length line < length part then (take (Suc (length line)) inp, drop (Suc (length line)) inp, False)
         else (part, drop (n - 1) inp, length inp < n - 1))"

text \<open>
  An interrupted \<open>fgets\<close>: at most \<open>k\<close> characters of the line were stored, and the rest of the input is
  still to be read.
\<close>

definition fgets_interrupted :: "nat \<Rightarrow> nat \<Rightarrow> string \<Rightarrow> string \<times> string" where
  "fgets_interrupted n k inp =
     (let stored = take k (takeWhile (\<lambda>c. c \<noteq> CHR 0x0A) (take (n - 1) inp)) in (stored, drop (length stored) inp))"

text \<open>
  The array \<open>input\<close> of \<open>main\<close>, \<open>None\<close> for an uninitialised character.  \<open>fgets\<close> stores a terminating zero
  only when it returns a line.  Reading a string from the array is undefined when an uninitialised
  character or the end of the array comes before a zero.
\<close>

type_synonym char_buffer = "char option list"

definition store_line :: "string \<Rightarrow> char_buffer \<Rightarrow> char_buffer" where
  "store_line line buf = memcpy_at 0 (map Some (line @ [CHR 0x00])) buf"

definition store_chars :: "string \<Rightarrow> char_buffer \<Rightarrow> char_buffer" where
  "store_chars cs buf = memcpy_at 0 (map Some cs) buf"

fun buffer_string :: "char_buffer \<Rightarrow> string option" where
  "buffer_string [] = None"
| "buffer_string (None # _) = None"
| "buffer_string (Some c # cs) = (if c = CHR 0x00 then Some [] else map_option ((#) c) (buffer_string cs))"

definition show_prompt :: "bool \<Rightarrow> shell_state \<Rightarrow> shell_state" where
  "show_prompt quiet s = (if quiet then s else s\<lparr>printed := printed s @ [''my_shell$ '']\<rparr>)"

text \<open>The part of the loop after the test for the end of the input: lines 121 to 134.\<close>

definition run_buffer :: "host \<Rightarrow> char_buffer \<Rightarrow> shell_state \<Rightarrow> (pipeline option \<times> shell_state) option" where
  "run_buffer fl buf s =
     (case buffer_string buf of
        None \<Rightarrow> None
      | Some line \<Rightarrow>
          (case pipeline_build line of
             None \<Rightarrow> None
           | Some None \<Rightarrow> Some (None, s\<lparr>printed := printed s @ [line @ [CHR 0x0A]]\<rparr>)
           | Some (Some p) \<Rightarrow>
               map_option (\<lambda>(q, s'). (Some q, s')) (run_pipeline fl (commands p) (is_background p) 0 s)))"

lemma fgets_shorter: "fgets MAX_COMMAND_LENGTH inp = (line, rest, False) \<Longrightarrow> length rest < length inp"
proof -
  let ?part = "take 255 inp"
  assume "fgets MAX_COMMAND_LENGTH inp = (line, rest, False)"
  then consider "length (takeWhile (\<lambda>c. c \<noteq> CHR 0x0A) ?part) < length ?part"
      "rest = drop (Suc (length (takeWhile (\<lambda>c. c \<noteq> CHR 0x0A) ?part))) inp"
    | "rest = drop 255 inp" "255 \<le> length inp"
    by (auto simp: fgets_def MAX_COMMAND_LENGTH_def Let_def split: if_splits)
  then show ?thesis by cases auto
qed

lemma fgets_interrupted_le: "fgets_interrupted n k inp = (cs, rest) \<Longrightarrow> length rest \<le> length inp"
  by (auto simp: fgets_interrupted_def Let_def)

text \<open>
  The loop of \<open>main\<close> under a schedule of interruptions (\<open>Some k\<close>: this \<open>fgets\<close> is interrupted after \<open>k\<close>
  characters; none when the schedule has ended).  \<open>var\<close> is the variable \<open>pipeline\<close>: \<open>None\<close> while it is
  uninitialised, \<open>Some None\<close> for the null pointer.
\<close>

function shell_loop ::
  "host \<Rightarrow> bool \<Rightarrow> nat option list \<Rightarrow> string \<Rightarrow> char_buffer \<Rightarrow> pipeline option option \<Rightarrow> shell_state \<Rightarrow>
   (pipeline option option \<times> shell_state) option" where
  "shell_loop fl quiet (Some k # sched) inp buf var s0 =
     (let s = show_prompt quiet s0; (cs, rest) = fgets_interrupted MAX_COMMAND_LENGTH k inp;
          buf1 = store_chars cs buf
      in case run_buffer fl buf1 s of
           None \<Rightarrow> None
         | Some (q, s') \<Rightarrow> shell_loop fl quiet sched rest buf1 (Some q) s')"
| "shell_loop fl quiet (None # sched) inp buf var s0 =
     (let s = show_prompt quiet s0; (line, rest, eof) = fgets MAX_COMMAND_LENGTH inp; buf1 = store_line line buf
      in if eof then Some (var, s)
         else (case run_buffer fl buf1 s of
                 None \<Rightarrow> None
               | Some (q, s') \<Rightarrow> shell_loop fl quiet sched rest buf1 (Some q) s'))"
| "shell_loop fl quiet [] inp buf var s0 =
     (let s = show_prompt quiet s0; (line, rest, eof) = fgets MAX_COMMAND_LENGTH inp; buf1 = store_line line buf
      in if eof then Some (var, s)
         else (case run_buffer fl buf1 s of
                 None \<Rightarrow> None
               | Some (q, s') \<Rightarrow> shell_loop fl quiet [] rest buf1 (Some q) s'))"
  by pat_completeness auto

termination
  by (relation "measure (\<lambda>(_, _, sched, inp, _). length sched + length inp)")
    (auto dest: fgets_shorter [OF sym] fgets_interrupted_le [OF sym] intro: le_imp_less_Suc add_le_mono less_SucI)

declare shell_loop.simps [simp del]

definition main :: "host \<Rightarrow> bool \<Rightarrow> nat option list \<Rightarrow> string \<Rightarrow> shell_state \<Rightarrow> (int \<times> shell_state) option" where
  "main fl quiet sched inp s =
     (case shell_loop fl quiet sched inp (replicate MAX_COMMAND_LENGTH None) None s of
        None \<Rightarrow> None
      | Some (None, _) \<Rightarrow> None
      | Some (Some p, s') \<Rightarrow> (case pipeline_free p of None \<Rightarrow> None | Some _ \<Rightarrow> Some (0, s')))"

interpretation fdt: slot_table fd_used fill_entry
  by unfold_locales (simp add: fd_used_def fill_entry_def)

end
