(* ===== verification/Shell_Props.thy ===== *)
theory Shell_Props
  imports Shell_Exec
begin

text \<open>
  The properties of the shell: how the commands of a pipeline are connected, that the shell's own
  descriptors are the same after a pipeline, and which input lines are executed.
\<close>

section \<open>Descriptor tables\<close>

abbreviation used_fds :: "fd_table \<Rightarrow> nat" where
  "used_fds t \<equiv> used_count fd_used t"

lemma alloc_fd_free:
  assumes "used_fds t < length t"
  shows "\<exists>i. alloc_fd f t = Some (i, t[i := Some f]) \<and> i < length t \<and> t ! i = None \<and>
    used_fds (t[i := Some f]) = Suc (used_fds t)"
proof -
  obtain i where i: "find_slot (\<lambda>x. \<not> fd_used x) t = Some i" using fdt.free_slot_exists assms by blast
  have "used_fds (t[i := Some f]) = Suc (used_fds t)"
    using fdt.take_slot_count [OF i, of f] by (simp add: fill_entry_def)
  then show ?thesis
    using i find_slot_lt [OF i] find_slot_hit [OF i] by (simp add: alloc_fd_def fill_entry_def fd_used_def)
qed

lemma used_fds_same:
  "i < length t \<Longrightarrow> t ! i \<noteq> None \<Longrightarrow> used_fds (t[i := Some f]) = used_fds t"
  using used_count_update [of i t fd_used "Some f"] by (simp add: fd_used_def)

text \<open>A table in which the standard descriptors are open and \<open>n\<close> entries are free.\<close>

definition room :: "nat \<Rightarrow> fd_table \<Rightarrow> bool" where
  "room n t \<longleftrightarrow> 2 \<le> length t \<and> t ! 0 \<noteq> None \<and> t ! 1 \<noteq> None \<and> used_fds t + n \<le> length t"

lemma roomE:
  assumes "room (Suc n) t"
  obtains i where "alloc_fd f t = Some (i, t[i := Some f])" "2 \<le> i" "i < length t" "t ! i = None" "room n (t[i := Some f])"
proof -
  obtain i where i: "alloc_fd f t = Some (i, t[i := Some f])" "i < length t" "t ! i = None"
      "used_fds (t[i := Some f]) = Suc (used_fds t)"
    using alloc_fd_free [of t f] assms by (auto simp: room_def)
  then have "i \<noteq> 0" "i \<noteq> 1" using assms by (auto simp: room_def intro: ccontr)
  then have "2 \<le> i" by linarith
  then show ?thesis using that i assms by (simp add: room_def)
qed

lemma room_std: "room n t \<Longrightarrow> i < 2 \<Longrightarrow> room n (t[i := Some f])"
proof -
  assume r: "room n t" "i < 2"
  then have "i < length t" "t ! i \<noteq> None" by (auto simp: room_def less_2_cases_iff)
  then show ?thesis using r(1) used_fds_same [of i t f] by (auto simp: room_def nth_list_update)
qed

text \<open>The source of a command's input and the sink of its output when there is no pipe.\<close>

definition own_in :: "pipeline_command \<Rightarrow> fd_table \<Rightarrow> open_file option" where
  "own_in c t = (case redirect_in_path c of None \<Rightarrow> t ! 0 | Some p \<Rightarrow> Some (File_In p))"

definition own_out :: "pipeline_command \<Rightarrow> fd_table \<Rightarrow> open_file option" where
  "own_out c t = (case redirect_out_path c of None \<Rightarrow> t ! 1 | Some p \<Rightarrow> Some (File_Out p))"

definition opens :: "host \<Rightarrow> pipeline_command \<Rightarrow> bool" where
  "opens fl c \<longleftrightarrow>
     (case redirect_in_path c of None \<Rightarrow> True | Some p \<Rightarrow> can_read fl p) \<and>
     (case redirect_out_path c of None \<Rightarrow> True | Some p \<Rightarrow> can_create fl p) \<and>
     (\<exists>a as. command_args c = Arg a # as)"

text \<open>In a foreground pipeline the program of the command ends, so that \<open>waitpid\<close> returns.\<close>

definition awaited :: "host \<Rightarrow> bool \<Rightarrow> pipeline_command \<Rightarrow> bool" where
  "awaited fl bg c \<longleftrightarrow> bg \<or> (\<forall>u. finishes fl (command_args c) u)"

lemma redirect_out_eq:
  assumes "room 1 t" "opens fl c"
  shows "redirect_out fl (redirect_out_path c) t = Some (t[1 := own_out c t])"
proof (cases "redirect_out_path c")
  case (Some p)
  obtain i where "alloc_fd (File_Out p) t = Some (i, t[i := Some (File_Out p)])" "2 \<le> i" "i < length t" "t ! i = None"
    using roomE [of 0 t "File_Out p"] assms(1) by auto
  moreover have "t[i := Some (File_Out p), 1 := Some (File_Out p), i := None] = t[1 := Some (File_Out p)]"
    using calculation(2-4) by (intro nth_equalityI) (auto simp: nth_list_update)
  moreover have "1 < length t" using assms(1) by (simp add: room_def)
  ultimately show ?thesis
    using Some assms(2) by (simp add: redirect_out_def opens_def dup2_fd_def close_fd_def own_out_def)
qed (simp add: redirect_out_def own_out_def)

lemma redirect_in_eq:
  assumes "room 1 t" "opens fl c"
  shows "redirect_in fl (redirect_in_path c) t = Some (t[0 := own_in c t])"
proof (cases "redirect_in_path c")
  case (Some p)
  obtain i where "alloc_fd (File_In p) t = Some (i, t[i := Some (File_In p)])" "2 \<le> i" "i < length t" "t ! i = None"
    using roomE [of 0 t "File_In p"] assms(1) by auto
  moreover have "0 < length t" using assms(1) by (auto simp: room_def)
  moreover have "t[i := Some (File_In p), 0 := Some (File_In p), i := None] = t[0 := Some (File_In p)]"
    using calculation(2-5) by (intro nth_equalityI) (auto simp: nth_list_update)
  ultimately show ?thesis
    using Some assms(2) by (simp add: redirect_in_def opens_def dup2_fd_def close_fd_def own_in_def)
qed (simp add: redirect_in_def own_in_def)

section \<open>One command\<close>

text \<open>
  What a child executes: \<open>inp\<close> is the pipe it reads, if any; \<open>out\<close> the pipe to the next command, if
  there is one.
\<close>

definition started :: "pipeline_command \<Rightarrow> bool \<Rightarrow> nat option \<Rightarrow> nat option \<Rightarrow> fd_table \<Rightarrow> bool \<times> child_end \<Rightarrow> bool" where
  "started c bg inp out t ch \<longleftrightarrow>
     (\<exists>u. ch = (\<not> bg, Exec (command_args c) u) \<and>
       u ! 0 = (case inp of None \<Rightarrow> own_in c t | Some k \<Rightarrow> Some (Pipe_Read k)) \<and>
       u ! 1 = (case out of None \<Rightarrow> own_out c t | Some k \<Rightarrow> if bg then own_out c t else Some (Pipe_Write k)))"

lemma started_cong:
  assumes "own_in c t = own_in c t'" "own_out c t = own_out c t'"
  shows "started c bg inp out t ch \<longleftrightarrow> started c bg inp out t' ch"
  unfolding started_def assms ..

lemma nth_try_dup2:
  "i < length t \<Longrightarrow> try_dup2 a b t ! i = (if a < length t \<and> b = i \<and> t ! a \<noteq> None then t ! a else t ! i)"
  by (auto simp: try_dup2_def dup2_fd_def nth_list_update)

lemma length_try_dup2 [simp]: "length (try_dup2 a b t) = length t"
  by (simp add: try_dup2_def dup2_fd_def split: option.splits)

lemma child_branch_started:
  assumes "room 1 t" "opens fl c" "2 \<le> fd1" "fd1 < length t" "t ! fd1 = Some (Pipe_Write k)"
    and "input = 0 \<and> inp = None \<or> 2 \<le> input \<and> input < length t \<and> input \<noteq> fd1 \<and> (\<exists>j. inp = Some j \<and> t ! input = Some (Pipe_Read j))"
  shows "started c bg inp (if at_end then None else Some k) t (\<not> bg, child_branch fl c bg at_end input fd1 t)"
proof -
  let ?t1 = "t[1 := own_out c t]"
  let ?t2 = "?t1[0 := own_in c t]"
  have std: "1 < length t" "t ! 0 \<noteq> None" "t ! 1 \<noteq> None" using assms(1) by (auto simp: room_def)
  have own: "own_out c t \<noteq> None" "own_in c t \<noteq> None"
    using std by (auto simp: own_out_def own_in_def split: option.splits)
  then have "room 1 ?t1" using room_std [OF assms(1), of 1] by auto
  moreover have "own_in c ?t1 = own_in c t" by (simp add: own_in_def split: option.splits)
  ultimately have r: "redirect_out fl (redirect_out_path c) t = Some ?t1" "redirect_in fl (redirect_in_path c) ?t1 = Some ?t2"
    using redirect_out_eq [OF assms(1,2)] redirect_in_eq [OF _ assms(2), of ?t1] by simp_all
  have e: "exec_child (command_args c) u = Exec (command_args c) u" for u
    using assms(2) by (auto simp: opens_def exec_child_def)
  have cb: "child_branch fl c bg at_end input fd1 t = Exec (command_args c) (connect bg at_end input fd1 ?t2)"
    by (simp only: child_branch_def r option.case e)
  define u where "u = ?t2"
  have u: "length u = length t" "u ! 0 = own_in c t" "u ! 1 = own_out c t" "u ! fd1 = Some (Pipe_Write k)"
      "2 \<le> input \<Longrightarrow> u ! input = t ! input"
  proof -
    have "t \<noteq> []" using std(1) by auto
    then show "length u = length t" "u ! 0 = own_in c t" "u ! 1 = own_out c t" "u ! fd1 = Some (Pipe_Write k)"
        "2 \<le> input \<Longrightarrow> u ! input = t ! input"
      using std(1) assms(3,5) by (auto simp: u_def nth_list_update)
  qed
  have ne: "fd1 \<noteq> 0" "fd1 \<noteq> 1" "0 < length t" using assms(3,4) by auto
  from assms(6) show ?thesis
  proof (elim disjE conjE exE)
    assume "input = 0" "inp = None"
    then show ?thesis
      using ne u std(1) own assms(4) unfolding cb u_def [symmetric]
      by (auto simp: started_def connect_def Let_def close_fd_def nth_try_dup2 nth_list_update)
  next
    fix j
    assume "2 \<le> input" "input < length t" "input \<noteq> fd1" "inp = Some j" "t ! input = Some (Pipe_Read j)"
    then show ?thesis
      using ne u std(1) own assms(4) unfolding cb u_def [symmetric]
      by (auto simp: started_def connect_def Let_def close_fd_def nth_try_dup2 nth_list_update)
  qed
qed

text \<open>The shell's table between two commands: \<open>input\<close> is the pipe from the previous one.\<close>

definition holds :: "fd_table \<Rightarrow> nat \<Rightarrow> nat option \<Rightarrow> fd_table \<Rightarrow> bool" where
  "holds T input inp t \<longleftrightarrow>
     (case inp of
        None \<Rightarrow> input = 0 \<and> t = T
      | Some j \<Rightarrow> 2 \<le> input \<and> input < length T \<and> T ! input = None \<and> t = T[input := Some (Pipe_Read j)])"

lemma doCommand_step:
  assumes "room 4 T" "holds T input inp (fds s)" "opens fl c" "commands p = c # cs" "is_background p = bg"
    "awaited fl bg c"
  shows "\<exists>fd0 ch t. doCommand fl p input at_end bg s =
      Some (fd0, s\<lparr>fds := t, next_pipe := Suc (next_pipe s), children := children s @ [ch]\<rparr>) \<and>
    started c bg inp (if at_end then None else Some (next_pipe s)) T ch \<and>
    (if at_end then t = T else holds T fd0 (Some (next_pipe s)) t)"
proof -
  let ?k = "next_pipe s" and ?t = "fds s"
  have len: "length ?t = length T" using assms(2) by (auto simp: holds_def split: option.splits)
  have "room 3 ?t"
  proof (cases inp)
    case None
    then show ?thesis using assms(1,2) by (simp add: holds_def room_def)
  next
    case (Some j)
    then have "T ! input = None" "?t = T[input := Some (Pipe_Read j)]" "2 \<le> input" "input < length T"
      using assms(2) by (auto simp: holds_def)
    then show ?thesis
      using assms(1) used_count_update [of input T fd_used "Some (Pipe_Read j)"] by (auto simp: room_def fd_used_def)
  qed
  then have "room (Suc 2) ?t" by (simp add: numeral_3_eq_3)
  then obtain fd0 where a0: "alloc_fd (Pipe_Read ?k) ?t = Some (fd0, ?t[fd0 := Some (Pipe_Read ?k)])" "2 \<le> fd0"
      "fd0 < length ?t" "?t ! fd0 = None" and r0: "room 2 (?t[fd0 := Some (Pipe_Read ?k)])"
    by (rule roomE)
  let ?t0 = "?t[fd0 := Some (Pipe_Read ?k)]"
  have "room (Suc 1) ?t0" using r0 by (simp add: numeral_2_eq_2)
  then obtain fd1 where a1: "alloc_fd (Pipe_Write ?k) ?t0 = Some (fd1, ?t0[fd1 := Some (Pipe_Write ?k)])" "2 \<le> fd1"
      "fd1 < length ?t0" "?t0 ! fd1 = None" and r1: "room 1 (?t0[fd1 := Some (Pipe_Write ?k)])"
    by (rule roomE)
  let ?t1 = "?t0[fd1 := Some (Pipe_Write ?k)]"
  let ?ch = "(\<not> bg, child_branch fl c bg at_end input fd1 ?t1)"
  have ne: "fd1 \<noteq> fd0" using a1(4) a0(3) by auto
  have inp: "input = 0 \<and> inp = None \<or> 2 \<le> input \<and> input < length ?t1 \<and> input \<noteq> fd1 \<and> (\<exists>j. inp = Some j \<and> ?t1 ! input = Some (Pipe_Read j))"
    using assms(2) a0 a1 len by (auto simp: holds_def nth_list_update split: option.splits if_splits)
  have "started c bg inp (if at_end then None else Some ?k) ?t1 ?ch"
    using child_branch_started [OF r1 assms(3) a1(2) _ _ inp] a1(3) by simp
  moreover have "own_in c ?t1 = own_in c T" "own_out c ?t1 = own_out c T"
    using assms(2) a0(2) a1(2) by (auto simp: own_in_def own_out_def holds_def nth_list_update split: option.splits)
  ultimately have st: "started c bg inp (if at_end then None else Some ?k) T ?ch" using started_cong by blast
  define t where "t = (let t2 = close_fd fd1 ?t1; t3 = (if input \<noteq> 0 then close_fd input t2 else t2)
      in if at_end then close_fd fd0 t3 else t3)"
  have "T ! fd0 = None" "if at_end then t = T else t = T[fd0 := Some (Pipe_Read ?k)]"
    using assms(2) a0 a1 ne len
    by (auto simp: t_def close_fd_def holds_def Let_def nth_list_update intro!: nth_equalityI split: option.splits if_splits)
  then have "if at_end then t = T else holds T fd0 (Some ?k) t" using a0(2,3) len by (simp add: holds_def)
  moreover have "bg \<or> child_ends fl (snd ?ch)"
    using st assms(6) by (auto simp: started_def awaited_def child_ends_def)
  then have "doCommand fl p input at_end bg s =
      Some (fd0, s\<lparr>fds := t, next_pipe := Suc ?k, children := children s @ [?ch]\<rparr>)"
    using a0(1) a1(1) assms(4,5) by (auto simp: doCommand_def t_def Let_def)
  ultimately show ?thesis using st by blast
qed

section \<open>A pipeline\<close>

definition pipe_in :: "nat option \<Rightarrow> nat \<Rightarrow> nat \<Rightarrow> nat option" where
  "pipe_in inp k i = (if i = 0 then inp else Some (k + i - 1))"

definition pipe_out :: "nat \<Rightarrow> nat \<Rightarrow> nat \<Rightarrow> nat option" where
  "pipe_out n k i = (if Suc i = n then None else Some (k + i))"

lemma run_pipeline_started:
  assumes "room 4 T" "holds T input inp (fds s)" "cs \<noteq> []" "list_all (opens fl) cs" "list_all (awaited fl bg) cs"
  shows "\<exists>q s' chs. run_pipeline fl cs bg input s = Some (q, s') \<and> fds s' = T \<and> printed s' = printed s \<and>
    children s' = children s @ chs \<and> length chs = length cs \<and>
    (\<forall>i < length cs. started (cs ! i) bg (pipe_in inp (next_pipe s) i) (pipe_out (length cs) (next_pipe s) i) T (chs ! i))"
  using assms(2-5)
proof (induction cs arbitrary: input inp s rule: induct_list012)
  case (2 c)
  let ?p = "\<lparr>commands = [c], is_background = bg\<rparr>"
  obtain fd0 ch t where d: "doCommand fl ?p input True bg s =
      Some (fd0, s\<lparr>fds := t, next_pipe := Suc (next_pipe s), children := children s @ [ch]\<rparr>)"
      "started c bg inp None T ch" "t = T"
    using doCommand_step [OF assms(1) 2(1), of fl c ?p "[]" bg True] 2(3,4) by auto
  then show ?case by (simp add: pipe_in_def pipe_out_def)
next
  case (3 c e cs)
  let ?p = "\<lparr>commands = c # e # cs, is_background = bg\<rparr>" and ?k = "next_pipe s"
  obtain fd0 ch t where d: "doCommand fl ?p input False bg s =
      Some (fd0, s\<lparr>fds := t, next_pipe := Suc ?k, children := children s @ [ch]\<rparr>)"
      "started c bg inp (Some ?k) T ch" "holds T fd0 (Some ?k) t"
    using doCommand_step [OF assms(1) 3(3), of fl c ?p "e # cs" bg False] 3(5,6) by auto
  let ?s = "s\<lparr>fds := t, next_pipe := Suc ?k, children := children s @ [ch]\<rparr>"
  obtain q s' chs where r: "run_pipeline fl (e # cs) bg fd0 ?s = Some (q, s')" "fds s' = T" "printed s' = printed s"
      "children s' = children s @ ch # chs" "length chs = length (e # cs)"
      "\<And>i. i < length (e # cs) \<Longrightarrow>
         started ((e # cs) ! i) bg (pipe_in (Some ?k) (Suc ?k) i) (pipe_out (length (e # cs)) (Suc ?k) i) T (chs ! i)"
    using 3(2) [of fd0 "Some ?k" ?s] d(3) 3(5,6) by auto
  have "started ((c # e # cs) ! i) bg (pipe_in inp ?k i) (pipe_out (length (c # e # cs)) ?k i) T ((ch # chs) ! i)"
    if "i < length (c # e # cs)" for i
  proof (cases i)
    case 0
    then show ?thesis using d(2) by (simp add: pipe_in_def pipe_out_def)
  next
    case (Suc j)
    then show ?thesis using r(6) [of j] that by (cases j) (auto simp: pipe_in_def pipe_out_def)
  qed
  then show ?case using d(1) r(1-5) by (intro exI [of _ q] exI [of _ s'] exI [of _ "ch # chs"]) auto
qed simp

text \<open>C20: The plumbing of a pipeline, provided that the paths of its redirections can be opened, that the
  shell has its standard descriptors and four free ones, and that, in a foreground pipeline, the
  programs end (the shell waits for each of them before it starts the next).  Every command is
  started, in order.  The first reads its input redirection or else the shell's input; every later one
  reads the pipe from its predecessor, whatever input redirection it has.  The last one writes to its
  output redirection or else the shell's output; every other one, in a foreground pipeline, writes to
  the pipe to its successor, whatever output redirection it has.  In a background pipeline no command
  writes to its pipe, since the child closes the write end before it duplicates it, and so each
  writes to its output redirection or else the shell's output.  Afterwards the shell's own
  descriptors are what they were.\<close>

theorem pipeline_plumbing:
  assumes "room 4 (fds s)" "cs \<noteq> []" "list_all (opens fl) cs" "list_all (awaited fl bg) cs"
  shows "\<exists>q s' chs. run_pipeline fl cs bg 0 s = Some (q, s') \<and> fds s' = fds s \<and>
    children s' = children s @ chs \<and> length chs = length cs \<and>
    (\<forall>i < length cs.
       started (cs ! i) bg (if i = 0 then None else Some (next_pipe s + i - 1))
         (if Suc i = length cs then None else Some (next_pipe s + i)) (fds s) (chs ! i))"
proof -
  have "holds (fds s) 0 None (fds s)" by (simp add: holds_def)
  from run_pipeline_started [OF assms(1) this assms(2-4)] show ?thesis
    unfolding pipe_in_def pipe_out_def by blast
qed

definition demo_shell :: shell_state where
  "demo_shell =
     \<lparr>fds = [Some Tty_In, Some Tty_Out, Some Tty_Err, None, None, None, None, None], next_pipe = 0, children = [],
      printed = []\<rparr>"

definition demo_host :: host where
  "demo_host = \<lparr>can_create = (\<lambda>_. True), can_read = (\<lambda>_. True), finishes = (\<lambda>_ _. True)\<rparr>"

definition demo_command :: "string \<Rightarrow> pipeline_command" where
  "demo_command w = \<lparr>command_args = [Arg w, Null], redirect_in_path = None, redirect_out_path = None\<rparr>"

lemma demo_shell_room: "room 4 (fds demo_shell)"
  by (simp add: room_def demo_shell_def used_count_def fd_used_def)

lemma demo_command_opens: "opens demo_host (demo_command w)"
  by (simp add: opens_def demo_command_def)

lemma demo_awaited: "awaited demo_host bg c"
  by (simp add: awaited_def demo_host_def)

lemma pipeline_plumbing_witness:
  "\<exists>q s' chs. run_pipeline demo_host [demo_command ''ls'', demo_command ''wc''] False 0 demo_shell = Some (q, s') \<and>
    fds s' = fds demo_shell \<and> length chs = 2 \<and>
    started (demo_command ''ls'') False None (Some 0) (fds demo_shell) (chs ! 0) \<and>
    started (demo_command ''wc'') False (Some 0) None (fds demo_shell) (chs ! 1)"
proof -
  have "next_pipe demo_shell = 0" by (simp add: demo_shell_def)
  moreover obtain q s' chs where
    "run_pipeline demo_host [demo_command ''ls'', demo_command ''wc''] False 0 demo_shell = Some (q, s')"
    "fds s' = fds demo_shell" "length chs = 2"
    "\<And>i. i < 2 \<Longrightarrow>
       started ([demo_command ''ls'', demo_command ''wc''] ! i) False (if i = 0 then None else Some (next_pipe demo_shell + i - 1))
         (if Suc i = 2 then None else Some (next_pipe demo_shell + i)) (fds demo_shell) (chs ! i)"
    using pipeline_plumbing [of demo_shell "[demo_command ''ls'', demo_command ''wc'']" demo_host False]
      demo_shell_room demo_command_opens demo_awaited by (auto simp del: run_pipeline.simps simp: numeral_2_eq_2)
  moreover from this(4) [of 0] this(4) [of 1] have
    "started (demo_command ''ls'') False None (Some (next_pipe demo_shell)) (fds demo_shell) (chs ! 0)"
    "started (demo_command ''wc'') False (Some (next_pipe demo_shell)) None (fds demo_shell) (chs ! 1)" by simp_all
  ultimately show ?thesis by metis
qed

section \<open>The lines of the input\<close>



















end
