(* ===== verification/Disk.thy ===== *)
theory Disk
  imports Prelude
begin

text \<open>
  The virtual disk, \<^verbatim>\<open>file-systems-noodlez102/disk.c\<close>: a host file of 8192 blocks of 4096 bytes.

  The host is modelled as far as the code uses it: a map from file names to contents and two
  schedules, which say for every system call, counted by \<open>clock\<close>, whether it fails (\<open>io_error\<close>) and
  how many bytes it transfers at most (\<open>transfer\<close>).  A theorem that holds for every schedule covers
  every combination of failing calls and short transfers; \<open>fault_free\<close> asks for a host on which no call
  fails and every transfer of a block is complete.  \<open>block_write\<close> and \<open>block_read\<close> set the file position
  with \<open>lseek\<close> before each transfer; in \<open>make_disk\<close> it is where the previous write ended.
\<close>

section \<open>State\<close>

definition DISK_BLOCKS :: nat where
  "DISK_BLOCKS = 8192"

definition BLOCK_SIZE :: nat where
  "BLOCK_SIZE = 4096"

record disk_state =
  active :: bool
  handle :: "string option"
  files :: "string \<rightharpoonup> u8 list"
  clock :: nat
  io_error :: "nat \<Rightarrow> bool"
  transfer :: "nat \<Rightarrow> nat"

section \<open>System calls\<close>

definition sys_fails :: "disk_state \<Rightarrow> bool" where
  "sys_fails d = io_error d (clock d)"

definition tick :: "disk_state \<Rightarrow> disk_state" where
  "tick d = d\<lparr>clock := Suc (clock d)\<rparr>"

definition sys_count :: "nat \<Rightarrow> disk_state \<Rightarrow> nat" where
  "sys_count n d = min n (transfer d (clock d))"

text \<open>Writing at a position behind the end of a file leaves a hole of zero bytes; writing nothing changes nothing.\<close>

definition host_write :: "nat \<Rightarrow> u8 list \<Rightarrow> u8 list \<Rightarrow> u8 list" where
  "host_write pos buf xs =
     (if buf = [] then xs else take pos (xs @ replicate (pos - length xs) 0) @ buf @ drop (pos + length buf) xs)"

definition host_read :: "nat \<Rightarrow> nat \<Rightarrow> u8 list \<Rightarrow> u8 list" where
  "host_read pos n xs = take n (drop pos xs)"

definition sys_creat :: "string \<Rightarrow> disk_state \<Rightarrow> bool \<times> disk_state" where
  "sys_creat name d =
     (if sys_fails d then (False, tick d)
      else (True, (tick d)\<lparr>files := (files d)(name \<mapsto> [])\<rparr>))"

definition sys_open :: "string \<Rightarrow> disk_state \<Rightarrow> bool \<times> disk_state" where
  "sys_open name d = (\<not> sys_fails d \<and> files d name \<noteq> None, tick d)"

definition sys_lseek :: "disk_state \<Rightarrow> bool \<times> disk_state" where
  "sys_lseek d = (\<not> sys_fails d, tick d)"

text \<open>The result of a transfer: \<open>None\<close> for -1, otherwise the number of bytes written or the bytes read.\<close>

definition sys_write :: "string \<Rightarrow> nat \<Rightarrow> u8 list \<Rightarrow> disk_state \<Rightarrow> nat option \<times> disk_state" where
  "sys_write name pos buf d =
     (case files d name of
        None \<Rightarrow> (None, tick d)
      | Some xs \<Rightarrow>
          if sys_fails d then (None, tick d)
          else (let n = sys_count (length buf) d
                in (Some n, (tick d)\<lparr>files := (files d)(name \<mapsto> host_write pos (take n buf) xs)\<rparr>)))"

definition sys_read :: "string \<Rightarrow> nat \<Rightarrow> nat \<Rightarrow> disk_state \<Rightarrow> u8 list option \<times> disk_state" where
  "sys_read name pos n d =
     (case files d name of
        None \<Rightarrow> (None, tick d)
      | Some xs \<Rightarrow> if sys_fails d then (None, tick d) else (Some (host_read pos (sys_count n d) xs), tick d))"

section \<open>Operations of disk.c\<close>

text \<open>The loop that writes the zero blocks; \<open>pos\<close> is the position of the file.\<close>

fun make_disk_loop :: "nat \<Rightarrow> nat \<Rightarrow> string \<Rightarrow> disk_state \<Rightarrow> bool \<times> disk_state" where
  "make_disk_loop 0 pos name d = (True, d)"
| "make_disk_loop (Suc n) pos name d =
     (case sys_write name pos (replicate BLOCK_SIZE 0) d of (r, d') \<Rightarrow>
        (case r of
           None \<Rightarrow> (False, d')
         | Some k \<Rightarrow> make_disk_loop n (pos + k) name d'))"

definition make_disk :: "string option \<Rightarrow> disk_state \<Rightarrow> int \<times> disk_state" where
  "make_disk name d =
     (case name of
        None \<Rightarrow> (-1, d)
      | Some nm \<Rightarrow>
          (case sys_creat nm d of (ok, d1) \<Rightarrow>
             if \<not> ok then (-1, d1)
             else (case make_disk_loop DISK_BLOCKS 0 nm d1 of (ok', d2) \<Rightarrow>
                     if ok' then (0, d2) else (-1, d2))))"

definition open_disk :: "string option \<Rightarrow> disk_state \<Rightarrow> int \<times> disk_state" where
  "open_disk name d =
     (case name of
        None \<Rightarrow> (-1, d)
      | Some nm \<Rightarrow>
          if active d then (-1, d)
          else (case sys_open nm d of (ok, d1) \<Rightarrow>
                  if ok then (0, d1\<lparr>handle := Some nm, active := True\<rparr>) else (-1, d1)))"

definition close_disk :: "disk_state \<Rightarrow> int \<times> disk_state" where
  "close_disk d = (if \<not> active d then (-1, d) else (0, d\<lparr>handle := None, active := False\<rparr>))"

definition block_write :: "int \<Rightarrow> u8 list \<Rightarrow> disk_state \<Rightarrow> int \<times> disk_state" where
  "block_write block buf d =
     (if \<not> active d then (-1, d)
      else if block < 0 \<or> block \<ge> int DISK_BLOCKS then (-1, d)
      else (case sys_lseek d of (ok, d1) \<Rightarrow>
              if \<not> ok then (-1, d1)
              else (case handle d1 of
                      None \<Rightarrow> (-1, tick d1)
                    | Some nm \<Rightarrow>
                        (case sys_write nm (nat block * BLOCK_SIZE) (take BLOCK_SIZE buf) d1 of (r, d2) \<Rightarrow>
                           if r = None then (-1, d2) else (0, d2)))))"

text \<open>A read fills the front of the caller's buffer with the bytes it got.\<close>

definition block_read :: "int \<Rightarrow> u8 list \<Rightarrow> disk_state \<Rightarrow> int \<times> u8 list \<times> disk_state" where
  "block_read block buf d =
     (if \<not> active d then (-1, buf, d)
      else if block < 0 \<or> block \<ge> int DISK_BLOCKS then (-1, buf, d)
      else (case sys_lseek d of (ok, d1) \<Rightarrow>
              if \<not> ok then (-1, buf, d1)
              else (case handle d1 of
                      None \<Rightarrow> (-1, buf, tick d1)
                    | Some nm \<Rightarrow>
                        (case sys_read nm (nat block * BLOCK_SIZE) BLOCK_SIZE d1 of (r, d2) \<Rightarrow>
                           (case r of
                              None \<Rightarrow> (-1, buf, d2)
                            | Some bs \<Rightarrow> (0, memcpy_at 0 bs buf, d2))))))"

section \<open>The interface of a block store\<close>

text \<open>
  What a client of the disk relies on: a state that is fit for use stays so under writes of whole
  blocks, a block keeps its size, and a block reads as the last write to it.
\<close>

locale block_store =
  fixes ok :: "'d \<Rightarrow> bool"
    and get :: "'d \<Rightarrow> nat \<Rightarrow> 'b list"
    and put :: "nat \<Rightarrow> 'b list \<Rightarrow> 'd \<Rightarrow> 'd"
    and nblocks :: nat
    and bsize :: nat
  assumes ok_put: "ok d \<Longrightarrow> b < nblocks \<Longrightarrow> length buf = bsize \<Longrightarrow> ok (put b buf d)"
    and length_get: "ok d \<Longrightarrow> b < nblocks \<Longrightarrow> length (get d b) = bsize"
    and get_put: "ok d \<Longrightarrow> b < nblocks \<Longrightarrow> b' < nblocks \<Longrightarrow> length buf = bsize \<Longrightarrow>
      get (put b buf d) b' = (if b' = b then buf else get d b')"
begin

primrec put_all :: "(nat \<times> 'b list) list \<Rightarrow> 'd \<Rightarrow> 'd" where
  "put_all [] d = d"
| "put_all (p # ps) d = put_all ps (put (fst p) (snd p) d)"

definition writable :: "(nat \<times> 'b list) list \<Rightarrow> bool" where
  "writable ps \<longleftrightarrow> list_all (\<lambda>p. fst p < nblocks \<and> length (snd p) = bsize) ps"

lemma ok_put_all: "ok d \<Longrightarrow> writable ps \<Longrightarrow> ok (put_all ps d)"
  by (induction ps arbitrary: d) (simp_all add: writable_def ok_put)

lemma get_put_all_other:
  "ok d \<Longrightarrow> writable ps \<Longrightarrow> b < nblocks \<Longrightarrow> b \<notin> fst ` set ps \<Longrightarrow> get (put_all ps d) b = get d b"
  by (induction ps arbitrary: d) (auto simp: writable_def ok_put get_put)

lemma get_put_all:
  "ok d \<Longrightarrow> writable ps \<Longrightarrow> distinct (map fst ps) \<Longrightarrow> (b, buf) \<in> set ps \<Longrightarrow> get (put_all ps d) b = buf"
proof (induction ps arbitrary: d)
  case (Cons p ps)
  show ?case
  proof (cases "p = (b, buf)")
    case True
    with Cons.prems have "b \<notin> fst ` set ps" "writable ps" "b < nblocks" "length buf = bsize"
      by (auto simp: writable_def)
    with True Cons.prems(1) show ?thesis
      by (simp add: get_put_all_other ok_put get_put)
  next
    case False
    with Cons show ?thesis by (auto simp: writable_def ok_put)
  qed
qed simp

end

section \<open>The disk as a block store\<close>

definition disk_contents :: "disk_state \<Rightarrow> u8 list" where
  "disk_contents d = (case handle d of None \<Rightarrow> [] | Some nm \<Rightarrow> (case files d nm of None \<Rightarrow> [] | Some xs \<Rightarrow> xs))"

definition fault_free :: "disk_state \<Rightarrow> bool" where
  "fault_free d \<longleftrightarrow> (\<forall>n. \<not> io_error d n \<and> BLOCK_SIZE \<le> transfer d n)"

definition disk_ok :: "disk_state \<Rightarrow> bool" where
  "disk_ok d \<longleftrightarrow> active d \<and> length (disk_contents d) = DISK_BLOCKS * BLOCK_SIZE \<and> fault_free d"

definition disk_block :: "disk_state \<Rightarrow> nat \<Rightarrow> u8 list" where
  "disk_block d b = host_read (b * BLOCK_SIZE) BLOCK_SIZE (disk_contents d)"

definition put_block :: "nat \<Rightarrow> u8 list \<Rightarrow> disk_state \<Rightarrow> disk_state" where
  "put_block b buf d = snd (block_write (int b) buf d)"

lemma BLOCK_SIZE_pos [simp]: "0 < BLOCK_SIZE" "BLOCK_SIZE \<noteq> 0"
  by (simp_all add: BLOCK_SIZE_def)

lemma DISK_BLOCKS_pos [simp]: "0 < DISK_BLOCKS" "DISK_BLOCKS \<noteq> 0"
  by (simp_all add: DISK_BLOCKS_def)

lemma disk_contents_tick [simp]: "disk_contents (tick d) = disk_contents d"
  by (simp add: disk_contents_def tick_def split: option.splits)

lemma tick_sel [simp]:
  "active (tick d) = active d" "handle (tick d) = handle d" "files (tick d) = files d"
  "io_error (tick d) = io_error d" "transfer (tick d) = transfer d"
  by (simp_all add: tick_def)

lemma fault_free_cong [simp]:
  "fault_free (tick d) = fault_free d" "fault_free (d\<lparr>files := fs\<rparr>) = fault_free d"
  "fault_free (d\<lparr>handle := h\<rparr>) = fault_free d" "fault_free (d\<lparr>active := a\<rparr>) = fault_free d"
  by (simp_all add: fault_free_def)

lemma fault_freeD:
  assumes "fault_free d"
  shows "\<not> sys_fails d" "sys_count BLOCK_SIZE d = BLOCK_SIZE"
  using assms by (simp_all add: fault_free_def sys_fails_def sys_count_def)

lemma block_in_disk: "b < DISK_BLOCKS \<Longrightarrow> b * BLOCK_SIZE + BLOCK_SIZE \<le> DISK_BLOCKS * BLOCK_SIZE"
  by (metis Suc_leI add.commute mult_Suc mult_le_mono1)

lemma host_write_inside: "pos + length buf \<le> length xs \<Longrightarrow> host_write pos buf xs = memcpy_at pos buf xs"
  by (simp add: host_write_def memcpy_at_def)

lemma disk_ok_handle:
  assumes "disk_ok d"
  obtains nm where "handle d = Some nm" "files d nm = Some (disk_contents d)"
proof -
  have "disk_contents d \<noteq> []" using assms by (auto simp: disk_ok_def)
  then show ?thesis
    using that by (cases "handle d") (auto simp: disk_contents_def split: option.splits)
qed

lemma block_read_ok:
  assumes "disk_ok d" "b < DISK_BLOCKS" "length buf = BLOCK_SIZE"
  shows "block_read (int b) buf d = (0, disk_block d b, tick (tick d))"
proof -
  obtain nm where "handle d = Some nm" "files d nm = Some (disk_contents d)"
    using disk_ok_handle [OF assms(1)] .
  moreover have "length (disk_block d b) = BLOCK_SIZE"
    using assms block_in_disk [OF assms(2)]
    by (simp add: disk_block_def host_read_def disk_ok_def)
  moreover have "fault_free d" using assms(1) by (simp add: disk_ok_def)
  then have "\<not> sys_fails d" "\<not> sys_fails (tick d)" "sys_count BLOCK_SIZE (tick d) = BLOCK_SIZE"
    using fault_freeD [of d] fault_freeD [of "tick d"] by simp_all
  ultimately show ?thesis
    using assms
    by (simp add: block_read_def sys_lseek_def sys_read_def disk_ok_def disk_block_def memcpy_at_def)
qed

lemma block_write_ok:
  assumes "disk_ok d" "b < DISK_BLOCKS" "length buf = BLOCK_SIZE"
  shows "block_write (int b) buf d = (0, put_block b buf d)"
    and "disk_contents (put_block b buf d) = memcpy_at (b * BLOCK_SIZE) buf (disk_contents d)"
    and "active (put_block b buf d)" "handle (put_block b buf d) = handle d"
    and "fault_free (put_block b buf d)"
proof -
  obtain nm where h: "handle d = Some nm" "files d nm = Some (disk_contents d)"
    using disk_ok_handle [OF assms(1)] .
  have w: "host_write (b * BLOCK_SIZE) buf (disk_contents d) = memcpy_at (b * BLOCK_SIZE) buf (disk_contents d)"
    using assms block_in_disk [OF assms(2)] by (intro host_write_inside) (simp add: disk_ok_def)
  have "fault_free d" using assms(1) by (simp add: disk_ok_def)
  then have f: "\<not> sys_fails d" "\<not> sys_fails (tick d)" "sys_count BLOCK_SIZE (tick d) = BLOCK_SIZE"
    using fault_freeD [of d] fault_freeD [of "tick d"] by simp_all
  have bw: "block_write (int b) buf d =
      (0, (tick (tick d))\<lparr>files := (files d)(nm \<mapsto> memcpy_at (b * BLOCK_SIZE) buf (disk_contents d))\<rparr>)"
    using assms h w f by (simp add: block_write_def sys_lseek_def sys_write_def disk_ok_def)
  then show "block_write (int b) buf d = (0, put_block b buf d)" by (simp add: put_block_def)
  from bw h assms(1) show "active (put_block b buf d)" "handle (put_block b buf d) = handle d"
    and "fault_free (put_block b buf d)"
    by (simp_all add: put_block_def disk_ok_def)
  show "disk_contents (put_block b buf d) = memcpy_at (b * BLOCK_SIZE) buf (disk_contents d)"
    using bw h by (simp add: put_block_def disk_contents_def [of "_\<lparr>files := _\<rparr>"])
qed

lemma handle_put_block [simp]: "handle (put_block b buf d) = handle d"
  by (simp add: put_block_def block_write_def sys_lseek_def sys_write_def Let_def split: option.splits)

lemma disk_ok_tick [simp]: "disk_ok (tick d) = disk_ok d"
  by (simp add: disk_ok_def)

lemma disk_block_tick [simp]: "disk_block (tick d) = disk_block d"
  by (simp add: fun_eq_iff disk_block_def)

lemma blocks_disjoint: "b' \<noteq> b \<Longrightarrow>
    b' * BLOCK_SIZE + BLOCK_SIZE \<le> b * BLOCK_SIZE \<or> b * BLOCK_SIZE + BLOCK_SIZE \<le> b' * BLOCK_SIZE"
  by (metis Suc_leI add.commute linorder_neqE_nat mult_Suc mult_le_mono1)

lemma block_front_replaced:
  assumes "b * BLOCK_SIZE + length buf \<le> length xs" "length buf \<le> BLOCK_SIZE" "b * BLOCK_SIZE + BLOCK_SIZE \<le> length xs"
  shows "host_read (b * BLOCK_SIZE) BLOCK_SIZE (memcpy_at (b * BLOCK_SIZE) buf xs) =
    buf @ drop (length buf) (host_read (b * BLOCK_SIZE) BLOCK_SIZE xs)"
  using assms by (simp add: host_read_def memcpy_at_def drop_take add.commute)

interpretation dsk: block_store disk_ok disk_block put_block DISK_BLOCKS BLOCK_SIZE
proof unfold_locales
  fix d b b' and buf :: "u8 list"
  assume d: "disk_ok d" and b: "b < DISK_BLOCKS"
  show "length (disk_block d b) = BLOCK_SIZE"
    using d block_in_disk [OF b] by (simp add: disk_block_def host_read_def disk_ok_def)
  assume len: "length buf = BLOCK_SIZE"
  note bw = block_write_ok [OF d b len]
  have inside: "b * BLOCK_SIZE + length buf \<le> length (disk_contents d)"
    using d block_in_disk [OF b] len by (simp add: disk_ok_def)
  then show "disk_ok (put_block b buf d)" using d bw by (simp add: disk_ok_def)
  assume b': "b' < DISK_BLOCKS"
  show "disk_block (put_block b buf d) b' = (if b' = b then buf else disk_block d b')"
    using take_drop_memcpy_same [OF inside] take_drop_memcpy_other [OF inside, of "b' * BLOCK_SIZE" BLOCK_SIZE]
      blocks_disjoint [of b' b] len
    by (auto simp: disk_block_def host_read_def bw(2))
qed

section \<open>A fresh disk\<close>

lemma make_disk_loop_ok:
  assumes "fault_free d" "files d nm = Some (replicate (cnt * BLOCK_SIZE) 0)"
  shows "\<exists>d'. make_disk_loop n (cnt * BLOCK_SIZE) nm d = (True, d') \<and>
    files d' = (files d)(nm \<mapsto> replicate ((cnt + n) * BLOCK_SIZE) 0) \<and>
    active d' = active d \<and> handle d' = handle d \<and> fault_free d'"
  using assms
proof (induction n arbitrary: cnt d)
  case 0
  then show ?case by (auto simp: fun_eq_iff)
next
  case (Suc n)
  let ?d = "(tick d)\<lparr>files := (files d)(nm \<mapsto> replicate (Suc cnt * BLOCK_SIZE) 0)\<rparr>"
  have "host_write (cnt * BLOCK_SIZE) (replicate BLOCK_SIZE 0) (replicate (cnt * BLOCK_SIZE) 0) =
      replicate (Suc cnt * BLOCK_SIZE) 0"
    by (simp add: host_write_def replicate_add [symmetric] add.commute)
  then have "sys_write nm (cnt * BLOCK_SIZE) (replicate BLOCK_SIZE 0) d = (Some BLOCK_SIZE, ?d)"
    using Suc.prems fault_freeD [OF Suc.prems(1)] by (simp add: sys_write_def)
  moreover have "cnt * BLOCK_SIZE + BLOCK_SIZE = Suc cnt * BLOCK_SIZE" by simp
  ultimately have "make_disk_loop (Suc n) (cnt * BLOCK_SIZE) nm d = make_disk_loop n (Suc cnt * BLOCK_SIZE) nm ?d"
    by (simp only: make_disk_loop.simps prod.case option.case)
  with Suc.IH [of ?d "Suc cnt"] Suc.prems show ?case by (auto simp: fun_eq_iff)
qed

lemma make_disk_ok:
  assumes "fault_free d"
  obtains d' where "make_disk (Some nm) d = (0, d')"
    and "files d' = (files d)(nm \<mapsto> replicate (DISK_BLOCKS * BLOCK_SIZE) 0)"
    and "active d' = active d" "handle d' = handle d" "fault_free d'"
proof -
  let ?d = "(tick d)\<lparr>files := (files d)(nm \<mapsto> [])\<rparr>"
  have "sys_creat nm d = (True, ?d)" using fault_freeD [OF assms] by (simp add: sys_creat_def)
  moreover obtain d' where "make_disk_loop DISK_BLOCKS 0 nm ?d = (True, d')"
    "files d' = (files ?d)(nm \<mapsto> replicate (DISK_BLOCKS * BLOCK_SIZE) 0)"
    "active d' = active d" "handle d' = handle d" "fault_free d'"
    using make_disk_loop_ok [of ?d nm 0 DISK_BLOCKS] assms by (auto simp: fun_eq_iff)
  ultimately show ?thesis using that [of d'] by (simp add: make_disk_def)
qed

text \<open>Opening a complete disk file makes the disk usable.\<close>

lemma open_disk_ok:
  assumes "fault_free d" "\<not> active d" "files d nm = Some xs" "length xs = DISK_BLOCKS * BLOCK_SIZE"
  obtains d' where "open_disk (Some nm) d = (0, d')" "disk_ok d'" "disk_contents d' = xs"
    "handle d' = Some nm" "files d' = files d"
  using assms that [of "(tick d)\<lparr>handle := Some nm, active := True\<rparr>"]
  by (auto simp: open_disk_def sys_open_def fault_freeD disk_ok_def disk_contents_def)

lemma close_disk_ok: "active d \<Longrightarrow> close_disk d = (0, d\<lparr>handle := None, active := False\<rparr>)"
  by (simp add: close_disk_def)

section \<open>Faults\<close>

text \<open>
  C30: what \<open>block_write\<close> of a whole block on an open disk does, whatever calls of the host fail or stop
  short.  It returns -1 exactly when \<open>lseek\<close> or \<open>write\<close> fails, and then no byte of any file of the host has
  changed.  Otherwise it returns 0, the front of the block has been replaced by as many bytes as the
  host has written (all 4096 unless the host stops short, which the code does not notice), and the
  rest of the block, every other block and every other file of the host are unchanged.
\<close>

theorem block_write_outcome:
  assumes "active d" "length (disk_contents d) = DISK_BLOCKS * BLOCK_SIZE" "b < DISK_BLOCKS" "length buf = BLOCK_SIZE"
    and "n = min BLOCK_SIZE (transfer d (Suc (clock d)))"
  shows "\<exists>d'. if io_error d (clock d) \<or> io_error d (Suc (clock d))
    then block_write (int b) buf d = (-1, d') \<and> files d' = files d
    else block_write (int b) buf d = (0, d') \<and>
      (\<forall>b' < DISK_BLOCKS. disk_block d' b' = (if b' = b then take n buf @ drop n (disk_block d b) else disk_block d b')) \<and>
      (\<forall>nm. handle d \<noteq> Some nm \<longrightarrow> files d' nm = files d nm)"
proof -
  have "disk_contents d \<noteq> []" using assms(2) by auto
  then obtain nm where h: "handle d = Some nm" "files d nm = Some (disk_contents d)"
    by (cases "handle d") (auto simp: disk_contents_def split: option.splits)
  let ?xs = "disk_contents d" and ?buf = "take n buf"
  have n: "n \<le> BLOCK_SIZE" "length ?buf = n" using assms(4,5) by simp_all
  have inside: "b * BLOCK_SIZE + length ?buf \<le> length ?xs" using assms(2) block_in_disk [OF assms(3)] n by simp
  show ?thesis
  proof (cases "io_error d (clock d) \<or> io_error d (Suc (clock d))")
    case True
    then show ?thesis
      using assms h by (auto simp: block_write_def sys_lseek_def sys_write_def sys_fails_def tick_def)
  next
    case False
    let ?d = "(tick (tick d))\<lparr>files := (files d)(nm \<mapsto> memcpy_at (b * BLOCK_SIZE) ?buf ?xs)\<rparr>"
    have "sys_count BLOCK_SIZE (tick d) = n" using assms(5) by (simp add: sys_count_def tick_def)
    then have "block_write (int b) buf d = (0, ?d)"
      using assms h False host_write_inside [OF inside]
      by (simp add: block_write_def sys_lseek_def sys_write_def sys_fails_def tick_def Let_def)
    moreover have cont: "disk_contents ?d = memcpy_at (b * BLOCK_SIZE) ?buf ?xs" using h by (simp add: disk_contents_def)
    have "disk_block ?d b = ?buf @ drop n (disk_block d b)"
      using block_front_replaced [OF inside] n block_in_disk [OF assms(3)] assms(2)
      by (simp add: disk_block_def cont)
    moreover have "disk_block ?d b' = disk_block d b'" if "b' \<noteq> b" for b'
      using take_drop_memcpy_other [OF inside, of "b' * BLOCK_SIZE" BLOCK_SIZE] blocks_disjoint [OF that] n
      by (auto simp: disk_block_def host_read_def cont)
    ultimately show ?thesis using False h(1) by auto
  qed
qed

text \<open>A host that stops after 100 bytes, and one whose first call fails.\<close>

definition faulty_disk :: "(nat \<Rightarrow> bool) \<Rightarrow> (nat \<Rightarrow> nat) \<Rightarrow> disk_state" where
  "faulty_disk err tr = \<lparr>active = True, handle = Some ''d'',
     files = [''d'' \<mapsto> replicate (DISK_BLOCKS * BLOCK_SIZE) 0], clock = 0, io_error = err, transfer = tr\<rparr>"

lemma faulty_disk_ok:
  "active (faulty_disk err tr)" "length (disk_contents (faulty_disk err tr)) = DISK_BLOCKS * BLOCK_SIZE"
  "1 < DISK_BLOCKS" "disk_block (faulty_disk err tr) 1 = replicate BLOCK_SIZE 0"
  by (simp_all add: faulty_disk_def disk_contents_def disk_block_def host_read_def DISK_BLOCKS_def BLOCK_SIZE_def)

theorem block_write_outcome_witness:
  "(\<exists>d'. block_write 1 (replicate BLOCK_SIZE 7) (faulty_disk (\<lambda>_. False) (\<lambda>_. 100)) = (0, d') \<and>
      disk_block d' 1 = replicate 100 7 @ replicate 3996 0) \<and>
   (\<exists>d'. block_write 1 (replicate BLOCK_SIZE 7) (faulty_disk (\<lambda>n. n = 0) (\<lambda>_. 4096)) = (-1, d') \<and>
      files d' = files (faulty_disk (\<lambda>n. n = 0) (\<lambda>_. 4096)))"
proof -
  have len: "length (replicate BLOCK_SIZE (7::u8)) = BLOCK_SIZE" by simp
  have "clock (faulty_disk err tr) = 0" "io_error (faulty_disk err tr) = err" "transfer (faulty_disk err tr) = tr" for err tr
    by (simp_all add: faulty_disk_def)
  then show ?thesis
    using block_write_outcome [OF faulty_disk_ok(1-3) len, of 100 "\<lambda>_. False" "\<lambda>_. 100"]
      block_write_outcome [OF faulty_disk_ok(1-3) len, of 4096 "\<lambda>n. n = 0" "\<lambda>_. 4096"] faulty_disk_ok(3)
    by (auto simp: faulty_disk_ok(4) faulty_disk_ok(4) [unfolded One_nat_def] BLOCK_SIZE_def)
qed

end
