(* ===== verification/FS_Codec.thy ===== *)
theory FS_Codec
  imports Prelude
begin

text \<open>
  Fixed-width byte encodings: the memory representation that \<open>memcpy\<close> of a C struct to and from a
  disk block relies on.  Words are little-endian, as on the x86-64 machines the code targets.
\<close>

section \<open>The codec interface\<close>

locale codec =
  fixes enc :: "'a \<Rightarrow> u8 list"
    and dec :: "u8 list \<Rightarrow> 'a"
    and width :: nat
    and valid :: "'a \<Rightarrow> bool"
  assumes length_enc: "valid x \<Longrightarrow> length (enc x) = width"
    and dec_enc: "valid x \<Longrightarrow> dec (enc x) = x"
begin

definition enc_array :: "'a list \<Rightarrow> u8 list" where
  "enc_array xs = concat (map enc xs)"

definition dec_array :: "nat \<Rightarrow> u8 list \<Rightarrow> 'a list" where
  "dec_array n bs = map (\<lambda>i. dec (take width (drop (i * width) bs))) [0..<n]"

lemma length_enc_array: "list_all valid xs \<Longrightarrow> length (enc_array xs) = length xs * width"
  by (induction xs) (auto simp: enc_array_def length_enc)

lemma length_dec_array [simp]: "length (dec_array n bs) = n"
  by (simp add: dec_array_def)

text \<open>Element \<open>i\<close> of an encoded array sits at \<open>i * width\<close>, whatever follows the array.\<close>

lemma enc_array_slice:
  "list_all valid xs \<Longrightarrow> i < length xs \<Longrightarrow>
    take width (drop (i * width) (enc_array xs @ ys)) = enc (xs ! i)"
proof (induction xs arbitrary: i)
  case (Cons x xs)
  then show ?case
    by (cases i) (auto simp: enc_array_def length_enc add.commute [of width] drop_drop [symmetric]
        simp del: drop_drop)
qed simp

lemma dec_enc_array:
  assumes "list_all valid xs"
  shows "dec_array (length xs) (enc_array xs @ ys) = xs"
proof (rule nth_equalityI)
  show "length (dec_array (length xs) (enc_array xs @ ys)) = length xs" by simp
next
  fix i
  assume "i < length (dec_array (length xs) (enc_array xs @ ys))"
  then have i: "i < length xs" by simp
  then have "valid (xs ! i)" using assms by (simp add: list_all_length)
  then show "dec_array (length xs) (enc_array xs @ ys) ! i = xs ! i"
    using i enc_array_slice [OF assms i, of ys] by (simp add: dec_array_def dec_enc)
qed

end

section \<open>Little-endian words\<close>

definition le_bytes :: "nat \<Rightarrow> 'a::len word \<Rightarrow> u8 list" where
  "le_bytes n w = map (\<lambda>i. ucast (drop_bit (8 * i) w)) [0..<n]"

primrec le_word :: "u8 list \<Rightarrow> 'a::len word" where
  "le_word [] = 0"
| "le_word (b # bs) = or (ucast b) (push_bit 8 (le_word bs))"

lemma length_le_bytes [simp]: "length (le_bytes n w) = n"
  by (simp add: le_bytes_def)

lemma bit_le_word:
  "bit (le_word bs :: 'a::len word) n \<longleftrightarrow> n < LENGTH('a) \<and> n div 8 < length bs \<and> bit (bs ! (n div 8)) (n mod 8)"
proof (induction bs arbitrary: n)
  case (Cons b bs)
  show ?case
  proof (cases "n < 8")
    case True
    then show ?thesis by (auto simp: bit_or_iff bit_push_bit_iff bit_ucast_iff)
  next
    case False
    then obtain m where "n = m + 8" by (metis add.commute le_Suc_ex not_less)
    moreover from this have "\<not> bit b n" by (simp add: bit_word.rep_eq bit_take_bit_iff)
    ultimately show ?thesis
      using Cons.IH [of m] by (auto simp: bit_or_iff bit_push_bit_iff bit_ucast_iff div_add_self2)
  qed
qed simp

lemma le_word_le_bytes:
  fixes w :: "'a::len word"
  assumes "LENGTH('a) = 8 * n"
  shows "le_word (le_bytes n w) = w"
proof (rule bit_word_eqI)
  fix k
  assume k: "k < LENGTH('a)"
  then have "k div 8 < n" using assms by (simp add: less_mult_imp_div_less)
  then show "bit (le_word (le_bytes n w) :: 'a word) k = bit w k"
    using k by (simp add: bit_le_word le_bytes_def bit_ucast_iff bit_drop_bit_eq)
qed

interpretation c16: codec "le_bytes 2 :: u16 \<Rightarrow> u8 list" le_word 2 "\<lambda>_. True"
  by unfold_locales (simp_all add: le_word_le_bytes)

interpretation c64: codec "le_bytes 8 :: u64 \<Rightarrow> u8 list" le_word 8 "\<lambda>_. True"
  by unfold_locales (simp_all add: le_word_le_bytes)

section \<open>C int\<close>

definition is_c_int :: "int \<Rightarrow> bool" where
  "is_c_int i \<longleftrightarrow> INT_MIN \<le> i \<and> i \<le> INT_MAX"

definition int_bytes :: "int \<Rightarrow> u8 list" where
  "int_bytes i = le_bytes 4 (word_of_int i :: u32)"

definition bytes_int :: "u8 list \<Rightarrow> int" where
  "bytes_int bs = sint (le_word bs :: u32)"

lemma sint_u32_of_int: "is_c_int i \<Longrightarrow> sint (word_of_int i :: u32) = i"
  by (simp add: is_c_int_def INT_MIN_def INT_MAX_def sint_sbintrunc' signed_take_bit_int_eq_self)

interpretation cint: codec int_bytes bytes_int 4 is_c_int
  by unfold_locales (simp_all add: int_bytes_def bytes_int_def le_word_le_bytes sint_u32_of_int)

end
