(* ===== verification/FS_State.thy ===== *)
theory FS_State
  imports Prelude Disk FS_Codec
begin

text \<open>
  The data of \<^verbatim>\<open>file-systems-noodlez102/fs.c\<close>: its structs as records, its global variables as one
  record \<open>fs_state\<close> that also carries the disk, and the bitmap helpers.  Field names that two
  structs share carry a prefix (\<open>de_\<close> for \<open>dir_entry\<close>, \<open>fd_\<close> for \<open>file_descriptor\<close>).
\<close>

section \<open>Constants and structs\<close>

definition MAX_FILE_NAME :: nat where
  "MAX_FILE_NAME = 15"

definition MAX_NUM_OF_FILES :: nat where
  "MAX_NUM_OF_FILES = 64"

definition TOTAL_BLOCKS :: nat where
  "TOTAL_BLOCKS = 8192"

definition MAX_FILESIZE :: nat where
  "MAX_FILESIZE = 2 ^ 20"

definition MAX_FILE_DESCRIPTORS :: nat where
  "MAX_FILE_DESCRIPTORS = 32"

definition CHAR_BIT :: nat where
  "CHAR_BIT = 8"

text \<open>The length of \<open>direct_offset\<close>.\<close>

definition NDIRECT :: nat where
  "NDIRECT = MAX_FILESIZE div BLOCK_SIZE"

record super_block =
  used_block_bitmap_count :: u16
  used_block_bitmap_offset :: u16
  inode_metadata_blocks :: u16
  inode_metadata_offset :: u16

record inode =
  file_type :: u64
  direct_offset :: "u64 list"
  single_indirect_offset :: u64
  double_indirect_offset :: u64
  file_size :: u64

record dir_entry =
  de_is_used :: bool
  de_inode_number :: int
  de_name :: string

record file_descriptor =
  fd_is_used :: bool
  fd_inode_number :: int
  fd_offset :: int

record fs_state =
  open_disk_fd :: int
  used_block_bitmap :: "u8 list"
  inode_table :: "inode list"
  open_file_descriptors :: "file_descriptor list"
  superblock :: super_block
  directory :: "dir_entry list"
  inode_bitmap :: "u8 list"
  disk :: disk_state

text \<open>Global variables start zeroed, except \<open>open_disk_fd\<close>.\<close>

definition zero_inode :: inode where
  "zero_inode = \<lparr>file_type = 0, direct_offset = replicate NDIRECT 0, single_indirect_offset = 0,
     double_indirect_offset = 0, file_size = 0\<rparr>"

definition zero_dir_entry :: dir_entry where
  "zero_dir_entry = \<lparr>de_is_used = False, de_inode_number = 0, de_name = replicate MAX_FILE_NAME (CHR 0x00)\<rparr>"

definition zero_fd :: file_descriptor where
  "zero_fd = \<lparr>fd_is_used = False, fd_inode_number = 0, fd_offset = 0\<rparr>"

definition init_globals :: "disk_state \<Rightarrow> fs_state" where
  "init_globals d = \<lparr>open_disk_fd = -1, used_block_bitmap = replicate (TOTAL_BLOCKS div CHAR_BIT) 0,
     inode_table = replicate MAX_NUM_OF_FILES zero_inode,
     open_file_descriptors = replicate MAX_FILE_DESCRIPTORS zero_fd,
     superblock = \<lparr>used_block_bitmap_count = 0, used_block_bitmap_offset = 0,
       inode_metadata_blocks = 0, inode_metadata_offset = 0\<rparr>,
     directory = replicate MAX_NUM_OF_FILES zero_dir_entry,
     inode_bitmap = replicate MAX_NUM_OF_FILES 0, disk = d\<rparr>"

section \<open>Bitmap helpers\<close>

text \<open>The callers pass indices inside the arrays: below 8192 for the 1024-byte block bitmap.\<close>

definition set_bit_at :: "u8 list \<Rightarrow> nat \<Rightarrow> u8 list" where
  "set_bit_at bitmap index =
     bitmap[index div 8 := or (bitmap ! (index div 8)) (push_bit (index mod 8) 1)]"

definition clear_bit_at :: "u8 list \<Rightarrow> nat \<Rightarrow> u8 list" where
  "clear_bit_at bitmap index =
     bitmap[index div 8 := and (bitmap ! (index div 8)) (not (push_bit (index mod 8) 1))]"

definition get_bit_at :: "u8 list \<Rightarrow> nat \<Rightarrow> bool" where
  "get_bit_at bitmap index \<longleftrightarrow> and (bitmap ! (index div 8)) (push_bit (index mod 8) 1) \<noteq> 0"

lemma length_set_bit_at [simp]: "length (set_bit_at bm i) = length bm"
  by (simp add: set_bit_at_def)

lemma length_clear_bit_at [simp]: "length (clear_bit_at bm i) = length bm"
  by (simp add: clear_bit_at_def)

lemma bit_2_power: "bit (2 ^ k :: u8) n \<longleftrightarrow> n = k \<and> n < 8"
  by (auto simp: bit_exp_iff)

lemma get_bit_at_bit: "get_bit_at bm i \<longleftrightarrow> bit (bm ! (i div 8)) (i mod 8)"
proof -
  have "i mod 8 < 8" by simp
  moreover have "and (bm ! (i div 8)) (2 ^ (i mod 8)) = 0 \<longleftrightarrow>
      (\<forall>n < 8. \<not> bit (and (bm ! (i div 8)) (2 ^ (i mod 8))) n)"
    by (subst bit_eq_iff) simp
  ultimately show ?thesis by (auto simp: get_bit_at_def bit_and_iff bit_2_power)
qed

lemma same_bit_iff: "i div 8 = j div (8::nat) \<and> i mod 8 = j mod 8 \<longleftrightarrow> i = j"
  by (metis mult_div_mod_eq)

lemma get_set_bit_at:
  assumes "i div 8 < length bm"
  shows "get_bit_at (set_bit_at bm i) j \<longleftrightarrow> j = i \<or> get_bit_at bm j"
  using assms same_bit_iff [of i j]
  by (auto simp: get_bit_at_bit set_bit_at_def nth_list_update bit_or_iff bit_2_power)

lemma get_clear_bit_at:
  assumes "i div 8 < length bm"
  shows "get_bit_at (clear_bit_at bm i) j \<longleftrightarrow> j \<noteq> i \<and> get_bit_at bm j"
  using assms same_bit_iff [of i j]
  by (auto simp: get_bit_at_bit clear_bit_at_def nth_list_update bit_and_iff bit_not_iff
      bit_2_power)

section \<open>String helpers of the C library\<close>

definition c_str :: "string \<Rightarrow> string" where
  "c_str s = takeWhile (\<lambda>c. c \<noteq> CHR 0x00) s"

definition strncmp_eq :: "nat \<Rightarrow> string \<Rightarrow> string \<Rightarrow> bool" where
  "strncmp_eq n a b \<longleftrightarrow> c_str (take n a) = c_str (take n b)"

definition strncpy :: "nat \<Rightarrow> string \<Rightarrow> string" where
  "strncpy n src = (let s = take n (c_str src) in s @ replicate (n - length s) (CHR 0x00))"

lemma length_strncpy [simp]: "length (strncpy n src) = n"
  by (simp add: strncpy_def Let_def)

lemma c_str_append_nul: "CHR 0x00 \<notin> set s \<Longrightarrow> c_str (s @ replicate k (CHR 0x00)) = s"
  by (cases k) (auto simp: c_str_def takeWhile_append)

lemma c_str_take: "c_str (take n s) = take n (c_str s)"
proof (induction s arbitrary: n)
  case (Cons c s)
  then show ?case by (cases n) (auto simp: c_str_def)
qed (simp add: c_str_def)

lemma c_str_strncpy: "c_str (strncpy n src) = take n (c_str src)"
proof -
  have "CHR 0x00 \<notin> set (take n (c_str src))"
    by (auto simp: c_str_def dest!: in_set_takeD set_takeWhileD)
  then show ?thesis by (simp add: strncpy_def Let_def c_str_append_nul)
qed

text \<open>A stored name matches exactly the strings that agree with the original on 15 characters.\<close>

lemma strncmp_eq_strncpy: "strncmp_eq n (strncpy n a) b \<longleftrightarrow> take n (c_str a) = take n (c_str b)"
  by (simp add: strncmp_eq_def c_str_take c_str_strncpy)

lemma strncmp_eq_sym: "strncmp_eq n a b = strncmp_eq n b a"
  by (auto simp: strncmp_eq_def)

section \<open>Well-formed states\<close>

text \<open>The sizes of the global arrays, and the ranges the \<open>int\<close> fields keep.\<close>

definition wf_inode :: "inode \<Rightarrow> bool" where
  "wf_inode nd \<longleftrightarrow> length (direct_offset nd) = NDIRECT \<and> unat (file_size nd) \<le> MAX_FILESIZE"

definition wf_dir_entry :: "dir_entry \<Rightarrow> bool" where
  "wf_dir_entry e \<longleftrightarrow> length (de_name e) = MAX_FILE_NAME \<and>
     0 \<le> de_inode_number e \<and> de_inode_number e < int MAX_NUM_OF_FILES"

definition wf_fd :: "file_descriptor \<Rightarrow> bool" where
  "wf_fd f \<longleftrightarrow> fd_is_used f \<longrightarrow>
     0 \<le> fd_inode_number f \<and> fd_inode_number f < int MAX_NUM_OF_FILES \<and>
     0 \<le> fd_offset f \<and> fd_offset f \<le> int MAX_FILESIZE"

definition wf_tables :: "fs_state \<Rightarrow> bool" where
  "wf_tables s \<longleftrightarrow> length (used_block_bitmap s) = TOTAL_BLOCKS div CHAR_BIT \<and>
     length (inode_table s) = MAX_NUM_OF_FILES \<and> list_all wf_inode (inode_table s) \<and>
     length (open_file_descriptors s) = MAX_FILE_DESCRIPTORS \<and> list_all wf_fd (open_file_descriptors s) \<and>
     length (directory s) = MAX_NUM_OF_FILES \<and> list_all wf_dir_entry (directory s) \<and>
     length (inode_bitmap s) = MAX_NUM_OF_FILES"

lemma wf_tables_lengths:
  assumes "wf_tables s"
  shows "length (used_block_bitmap s) = TOTAL_BLOCKS div CHAR_BIT" "length (inode_table s) = MAX_NUM_OF_FILES"
    "length (open_file_descriptors s) = MAX_FILE_DESCRIPTORS" "length (directory s) = MAX_NUM_OF_FILES"
    "length (inode_bitmap s) = MAX_NUM_OF_FILES"
  using assms by (simp_all add: wf_tables_def)

lemma wf_tables_nth:
  assumes "wf_tables s"
  shows "i < MAX_NUM_OF_FILES \<Longrightarrow> wf_inode (inode_table s ! i)"
    and "i < MAX_NUM_OF_FILES \<Longrightarrow> wf_dir_entry (directory s ! i)"
    and "j < MAX_FILE_DESCRIPTORS \<Longrightarrow> wf_fd (open_file_descriptors s ! j)"
  using assms by (simp_all add: wf_tables_def list_all_length)

lemma list_all_update: "list_all P xs \<Longrightarrow> P x \<Longrightarrow> list_all P (xs[i := x])"
  by (auto simp: list_all_iff dest!: set_update_subset_insert [THEN subsetD])

lemma wf_tables_init: "wf_tables (init_globals d)"
  by (simp add: wf_tables_def init_globals_def list_all_length wf_inode_def zero_inode_def wf_fd_def zero_fd_def
      wf_dir_entry_def zero_dir_entry_def MAX_NUM_OF_FILES_def)

end
