(* ===== verification/FS_Layout.thy ===== *)
theory FS_Layout
  imports FS_State
begin

text \<open>
  The memory layout of the structs that \<^verbatim>\<open>fs.c\<close> copies to and from disk blocks with \<open>memcpy\<close>, as on
  x86-64: \<open>struct super_block\<close> has 8 bytes, \<open>struct inode\<close> 2080 and \<open>struct dir_entry\<close> 24 (a \<open>bool\<close>,
  three bytes of padding, an \<open>int\<close>, 15 characters, one byte of padding).  Padding is zero, as in the
  zero-initialised global variables; a \<open>bool\<close> is read as the test whether its byte is not zero.
\<close>

section \<open>Sizes\<close>

definition SIZEOF_SUPER_BLOCK :: nat where
  "SIZEOF_SUPER_BLOCK = 8"

definition SIZEOF_INODE :: nat where
  "SIZEOF_INODE = 2080"

definition SIZEOF_DIR_ENTRY :: nat where
  "SIZEOF_DIR_ENTRY = 24"

section \<open>Encodings\<close>

definition enc_super_block :: "super_block \<Rightarrow> u8 list" where
  "enc_super_block sb = le_bytes 2 (used_block_bitmap_count sb) @ le_bytes 2 (used_block_bitmap_offset sb) @
     le_bytes 2 (inode_metadata_blocks sb) @ le_bytes 2 (inode_metadata_offset sb)"

definition dec_super_block :: "u8 list \<Rightarrow> super_block" where
  "dec_super_block bs =
     \<lparr>used_block_bitmap_count = le_word (take 2 bs), used_block_bitmap_offset = le_word (take 2 (drop 2 bs)),
      inode_metadata_blocks = le_word (take 2 (drop 4 bs)), inode_metadata_offset = le_word (take 2 (drop 6 bs))\<rparr>"

definition enc_words :: "u64 list \<Rightarrow> u8 list" where
  "enc_words ws = c64.enc_array ws"

definition dec_words :: "nat \<Rightarrow> u8 list \<Rightarrow> u64 list" where
  "dec_words n bs = c64.dec_array n bs"

definition enc_inode :: "inode \<Rightarrow> u8 list" where
  "enc_inode nd = le_bytes 8 (file_type nd) @ enc_words (direct_offset nd) @
     le_bytes 8 (single_indirect_offset nd) @ le_bytes 8 (double_indirect_offset nd) @ le_bytes 8 (file_size nd)"

definition dec_inode :: "u8 list \<Rightarrow> inode" where
  "dec_inode bs =
     \<lparr>file_type = le_word (take 8 bs), direct_offset = dec_words NDIRECT (drop 8 bs),
      single_indirect_offset = le_word (take 8 (drop 2056 bs)),
      double_indirect_offset = le_word (take 8 (drop 2064 bs)), file_size = le_word (take 8 (drop 2072 bs))\<rparr>"

definition char_byte :: "char \<Rightarrow> u8" where
  "char_byte c = of_nat (of_char c)"

definition byte_char :: "u8 \<Rightarrow> char" where
  "byte_char b = char_of (unat b)"

definition enc_dir_entry :: "dir_entry \<Rightarrow> u8 list" where
  "enc_dir_entry e = [if de_is_used e then 1 else 0, 0, 0, 0] @ int_bytes (de_inode_number e) @
     map char_byte (de_name e) @ [0]"

definition dec_dir_entry :: "u8 list \<Rightarrow> dir_entry" where
  "dec_dir_entry bs =
     \<lparr>de_is_used = (bs ! 0 \<noteq> 0), de_inode_number = bytes_int (take 4 (drop 4 bs)),
      de_name = map byte_char (take MAX_FILE_NAME (drop 8 bs))\<rparr>"

definition valid_inode :: "inode \<Rightarrow> bool" where
  "valid_inode nd \<longleftrightarrow> length (direct_offset nd) = NDIRECT"

definition valid_dir_entry :: "dir_entry \<Rightarrow> bool" where
  "valid_dir_entry e \<longleftrightarrow> length (de_name e) = MAX_FILE_NAME \<and> is_c_int (de_inode_number e)"

section \<open>The structs as codecs\<close>

lemma NDIRECT_eq: "NDIRECT = 256"
  by (simp add: NDIRECT_def MAX_FILESIZE_def BLOCK_SIZE_def)

interpretation csb: codec enc_super_block dec_super_block SIZEOF_SUPER_BLOCK "\<lambda>_. True"
  by unfold_locales (simp_all add: enc_super_block_def dec_super_block_def SIZEOF_SUPER_BLOCK_def le_word_le_bytes)

lemma length_enc_words: "length (enc_words ws) = length ws * 8"
  using c64.length_enc_array [of ws] by (simp add: enc_words_def list_all_iff)

lemma dec_enc_words: "length ws = n \<Longrightarrow> dec_words n (enc_words ws @ ys) = ws"
  using c64.dec_enc_array [of ws ys] by (auto simp: enc_words_def dec_words_def list_all_iff)

interpretation cino: codec enc_inode dec_inode SIZEOF_INODE valid_inode
proof unfold_locales
  fix nd
  assume v: "valid_inode nd"
  then have len: "length (enc_words (direct_offset nd)) = 2048"
    by (simp add: length_enc_words valid_inode_def NDIRECT_eq)
  then show "length (enc_inode nd) = SIZEOF_INODE" by (simp add: enc_inode_def SIZEOF_INODE_def)
  have "dec_words NDIRECT (drop 8 (enc_inode nd)) = direct_offset nd"
    using v by (simp add: enc_inode_def dec_enc_words valid_inode_def)
  then show "dec_inode (enc_inode nd) = nd"
    using len by (simp add: dec_inode_def enc_inode_def le_word_le_bytes)
qed

lemma byte_char_byte: "byte_char (char_byte c) = c"
proof -
  have "(of_char c :: nat) < 256" by (rule nat_of_char_less_256)
  then have "unat (of_nat (of_char c) :: u8) = of_char c" by (simp add: unat_of_nat)
  then show ?thesis by (simp add: byte_char_def char_byte_def)
qed

interpretation cde: codec enc_dir_entry dec_dir_entry SIZEOF_DIR_ENTRY valid_dir_entry
proof unfold_locales
  fix e
  assume v: "valid_dir_entry e"
  then have len: "length (int_bytes (de_inode_number e)) = 4" "length (de_name e) = MAX_FILE_NAME"
    by (simp_all add: valid_dir_entry_def cint.length_enc)
  then show "length (enc_dir_entry e) = SIZEOF_DIR_ENTRY"
    by (simp add: enc_dir_entry_def SIZEOF_DIR_ENTRY_def MAX_FILE_NAME_def)
  show "dec_dir_entry (enc_dir_entry e) = e"
    using v len by (simp add: dec_dir_entry_def enc_dir_entry_def valid_dir_entry_def cint.dec_enc comp_def byte_char_byte)
qed

end
