(* ===== verification/FS_Dir.thy ===== *)
theory FS_Dir
  imports FS_State
begin

text \<open>
  The operations of \<^verbatim>\<open>fs.c\<close> on the directory, the inode table and the file descriptors: \<open>fs_open\<close>,
  \<open>fs_close\<close>, \<open>fs_create\<close>, \<open>fs_delete\<close>, \<open>fs_get_filesize\<close>, \<open>fs_listfiles\<close>, \<open>fs_lseek\<close> and
  \<open>fs_truncate\<close>.  Messages to the terminal are left out.

  The loop of \<open>fs_delete\<close> runs over 8192 bytes of a bitmap that has 1024; what it reads behind the
  array is a parameter \<open>adj\<close> of the model, and the theorems hold for every value of it.
\<close>

section \<open>Operations\<close>

text \<open>The descriptor check shared by the operations on open files.\<close>

definition bad_fd :: "int \<Rightarrow> fs_state \<Rightarrow> bool" where
  "bad_fd fildes s \<longleftrightarrow> fildes < 0 \<or> fildes \<ge> int MAX_FILE_DESCRIPTORS \<or>
     \<not> fd_is_used (open_file_descriptors s ! nat fildes)"

text \<open>
  The second check: the inode number of the descriptor is used as an index into the directory.
\<close>

definition bad_index :: "int \<Rightarrow> fs_state \<Rightarrow> bool" where
  "bad_index file_index s \<longleftrightarrow> file_index < 0 \<or> file_index \<ge> int MAX_NUM_OF_FILES \<or>
     \<not> de_is_used (directory s ! nat file_index)"

definition name_matches :: "string \<Rightarrow> dir_entry \<Rightarrow> bool" where
  "name_matches name e \<longleftrightarrow> de_is_used e \<and> strncmp_eq MAX_FILE_NAME (de_name e) name"

definition fill_fd :: "int \<Rightarrow> file_descriptor \<Rightarrow> file_descriptor" where
  "fill_fd ino f = f\<lparr>fd_is_used := True, fd_inode_number := ino, fd_offset := 0\<rparr>"

definition fs_open :: "string \<Rightarrow> fs_state \<Rightarrow> int \<times> fs_state" where
  "fs_open name s =
     (if open_disk_fd s = -1 then (-1, s)
      else (case find_slot (name_matches name) (directory s) of
              None \<Rightarrow> (-1, s)
            | Some i \<Rightarrow>
                (case find_slot (\<lambda>f. \<not> fd_is_used f) (open_file_descriptors s) of
                   None \<Rightarrow> (-1, s)
                 | Some j \<Rightarrow>
                     (int j, s\<lparr>open_file_descriptors := (open_file_descriptors s)
                        [j := fill_fd (de_inode_number (directory s ! i)) (open_file_descriptors s ! j)]\<rparr>))))"

definition fs_close :: "int \<Rightarrow> fs_state \<Rightarrow> int \<times> fs_state" where
  "fs_close fildes s =
     (if fildes < 0 \<or> fildes \<ge> int MAX_FILE_DESCRIPTORS then (-1, s)
      else if \<not> fd_is_used (open_file_descriptors s ! nat fildes) then (-1, s)
      else (0, s\<lparr>open_file_descriptors := (open_file_descriptors s)
              [nat fildes := (open_file_descriptors s ! nat fildes)
                 \<lparr>fd_is_used := False, fd_inode_number := 0, fd_offset := 0\<rparr>]\<rparr>))"

definition inode_used :: "inode \<Rightarrow> bool" where
  "inode_used nd \<longleftrightarrow> file_type nd \<noteq> 0"

definition fill_inode :: "unit \<Rightarrow> inode \<Rightarrow> inode" where
  "fill_inode _ nd = nd\<lparr>file_type := 1, file_size := 0, direct_offset := replicate NDIRECT 0,
     single_indirect_offset := 0, double_indirect_offset := 0\<rparr>"

definition fill_dir_entry :: "int \<times> string \<Rightarrow> dir_entry \<Rightarrow> dir_entry" where
  "fill_dir_entry v e = e\<lparr>de_is_used := True, de_inode_number := fst v, de_name := strncpy MAX_FILE_NAME (snd v)\<rparr>"

definition fs_create :: "string \<Rightarrow> fs_state \<Rightarrow> int \<times> fs_state" where
  "fs_create name s =
     (if length (c_str name) > MAX_FILE_NAME \<or> length (c_str name) = 0 then (-1, s)
      else if open_disk_fd s = -1 then (-1, s)
      else (case find_slot (name_matches name) (directory s) of
              Some _ \<Rightarrow> (-1, s)
            | None \<Rightarrow>
                (case find_slot (\<lambda>nd. \<not> inode_used nd) (inode_table s) of
                   None \<Rightarrow> (-1, s)
                 | Some i \<Rightarrow>
                     (let s1 = s\<lparr>inode_table := (inode_table s)[i := fill_inode () (inode_table s ! i)],
                                 inode_bitmap := set_bit_at (inode_bitmap s) i\<rparr>
                      in case find_slot (\<lambda>e. \<not> de_is_used e) (directory s1) of
                           None \<Rightarrow> (-1, s1)
                         | Some j \<Rightarrow>
                             (0, s1\<lparr>directory := (directory s1)
                                    [j := fill_dir_entry (int i, name) (directory s1 ! j)]\<rparr>)))))"

text \<open>One round of the loop that is meant to release the blocks of a deleted file.\<close>

definition bitmap_byte :: "(nat \<Rightarrow> u8) \<Rightarrow> fs_state \<Rightarrow> nat \<Rightarrow> u8" where
  "bitmap_byte adj s i = (if i < length (used_block_bitmap s) then used_block_bitmap s ! i else adj i)"

definition release_step :: "(nat \<Rightarrow> u8) \<Rightarrow> int \<Rightarrow> fs_state \<Rightarrow> nat \<Rightarrow> fs_state" where
  "release_step adj ino s i =
     (if uint (bitmap_byte adj s i) = ino
      then s\<lparr>used_block_bitmap := clear_bit_at (used_block_bitmap s) i,
             superblock := (superblock s)\<lparr>used_block_bitmap_count := used_block_bitmap_count (superblock s) - 1\<rparr>\<rparr>
      else s)"

definition fs_delete :: "(nat \<Rightarrow> u8) \<Rightarrow> string \<Rightarrow> fs_state \<Rightarrow> int \<times> fs_state" where
  "fs_delete adj name s =
     (if open_disk_fd s = -1 then (-1, s)
      else (case find_slot (name_matches name) (directory s) of
              None \<Rightarrow> (-1, s)
            | Some file_index \<Rightarrow>
                (let ino = de_inode_number (directory s ! file_index)
                 in if list_ex (\<lambda>f. fd_is_used f \<and> fd_inode_number f = ino) (open_file_descriptors s)
                    then (-1, s)
                    else (let s1 = foldl (release_step adj ino) s [0..<TOTAL_BLOCKS]
                          in (0, s1\<lparr>directory := (directory s1)
                                [file_index := \<lparr>de_is_used = False, de_inode_number = 0,
                                   de_name = replicate MAX_FILE_NAME (CHR 0x00)\<rparr>]\<rparr>)))))"

definition fs_get_filesize :: "int \<Rightarrow> fs_state \<Rightarrow> int option" where
  "fs_get_filesize fildes s =
     (if bad_fd fildes s then Some (-1)
      else (case find_slot (\<lambda>e. de_is_used e \<and>
                de_inode_number e = fd_inode_number (open_file_descriptors s ! nat fildes)) (directory s) of
              None \<Rightarrow> Some (-1)
            | Some i \<Rightarrow>
                (let ino = de_inode_number (directory s ! i)
                 in if 0 \<le> ino \<and> ino < int (length (inode_table s))
                    then Some (int_of_ulong (file_size (inode_table s ! nat ino))) else None)))"

text \<open>\<open>fs_listfiles\<close> counts the used entries and then copies that many names from the front.\<close>

definition fs_listfiles :: "fs_state \<Rightarrow> int \<times> string list" where
  "fs_listfiles s =
     (let num_of_files = used_count de_is_used (directory s)
      in (0, map (\<lambda>i. c_str (strncpy MAX_FILE_NAME (de_name (directory s ! i)))) [0..<num_of_files]))"

definition set_fd_offset :: "int \<Rightarrow> int \<Rightarrow> fs_state \<Rightarrow> fs_state" where
  "set_fd_offset fildes off s = s\<lparr>open_file_descriptors := (open_file_descriptors s)
     [nat fildes := (open_file_descriptors s ! nat fildes)\<lparr>fd_offset := off\<rparr>]\<rparr>"

definition set_file_size :: "int \<Rightarrow> u64 \<Rightarrow> fs_state \<Rightarrow> fs_state" where
  "set_file_size ino sz s = s\<lparr>inode_table := (inode_table s)
     [nat ino := (inode_table s ! nat ino)\<lparr>file_size := sz\<rparr>]\<rparr>"

text \<open>
  The comparison of a signed \<open>off_t\<close> with the unsigned file size is made on unsigned values, so
  a negative length of \<open>fs_truncate\<close> is a huge one.
\<close>

definition fs_lseek :: "int \<Rightarrow> int \<Rightarrow> fs_state \<Rightarrow> int \<times> fs_state" where
  "fs_lseek fildes offset s =
     (if bad_fd fildes s then (-1, s)
      else if offset < 0 then (-1, s)
      else (let file_index = fd_inode_number (open_file_descriptors s ! nat fildes)
            in if bad_index file_index s then (-1, s)
               else if ulong_of_int offset > file_size (inode_table s ! nat file_index) then (-1, s)
               else (0, set_fd_offset fildes (int_of_ulong (ulong_of_int offset)) s)))"

definition fs_truncate :: "int \<Rightarrow> int \<Rightarrow> fs_state \<Rightarrow> int \<times> fs_state" where
  "fs_truncate fildes len s =
     (if bad_fd fildes s then (-1, s)
      else (let file_index = fd_inode_number (open_file_descriptors s ! nat fildes)
            in if bad_index file_index s then (-1, s)
               else if ulong_of_int len > file_size (inode_table s ! nat file_index) then (-1, s)
               else (0, set_fd_offset fildes (int_of_ulong (ulong_of_int len))
                          (set_file_size file_index (ulong_of_int len) s))))"

section \<open>The tables as slot tables\<close>

interpretation dirs: slot_table de_is_used fill_dir_entry
  by unfold_locales (simp add: fill_dir_entry_def)

interpretation fds: slot_table fd_is_used fill_fd
  by unfold_locales (simp add: fill_fd_def)

interpretation inodes: slot_table inode_used fill_inode
  by unfold_locales (simp add: fill_inode_def inode_used_def)

section \<open>The directory invariant\<close>

text \<open>
  Used entries have different names and different inodes, point to inodes in use, and every open
  descriptor belongs to a used entry.  The last conjunct rules out the branch of \<open>fs_create\<close> that
  has an inode but no entry.
\<close>

definition entries_distinct :: "dir_entry list \<Rightarrow> bool" where
  "entries_distinct es \<longleftrightarrow>
     (\<forall>i < length es. \<forall>j < length es. i \<noteq> j \<and> de_is_used (es ! i) \<and> de_is_used (es ! j) \<longrightarrow>
        de_inode_number (es ! i) \<noteq> de_inode_number (es ! j) \<and>
        \<not> strncmp_eq MAX_FILE_NAME (de_name (es ! i)) (de_name (es ! j)))"

definition entries_live :: "inode list \<Rightarrow> dir_entry list \<Rightarrow> bool" where
  "entries_live nodes es \<longleftrightarrow> list_all (\<lambda>e. de_is_used e \<longrightarrow> inode_used (nodes ! nat (de_inode_number e))) es"

definition fds_named :: "dir_entry list \<Rightarrow> file_descriptor list \<Rightarrow> bool" where
  "fds_named es fs \<longleftrightarrow>
     list_all (\<lambda>f. fd_is_used f \<longrightarrow> list_ex (\<lambda>e. de_is_used e \<and> de_inode_number e = fd_inode_number f) es) fs"

definition dir_inv :: "fs_state \<Rightarrow> bool" where
  "dir_inv s \<longleftrightarrow> wf_tables s \<and> entries_distinct (directory s) \<and>
     entries_live (inode_table s) (directory s) \<and> fds_named (directory s) (open_file_descriptors s) \<and>
     used_count de_is_used (directory s) \<le> used_count inode_used (inode_table s)"

lemma dir_inv_init: "dir_inv (init_globals d)"
  using wf_tables_init [of d]
  by (simp add: dir_inv_def init_globals_def entries_distinct_def entries_live_def fds_named_def
      zero_dir_entry_def zero_fd_def list_all_length used_count_def)

section \<open>Directory lookup\<close>

text \<open>The abstract directory: which inode a name denotes.\<close>

definition dir_lookup :: "dir_entry list \<Rightarrow> string \<Rightarrow> int option" where
  "dir_lookup es name = map_option (\<lambda>i. de_inode_number (es ! i)) (find_slot (name_matches name) es)"

lemma dir_lookup_None: "dir_lookup es name = None \<longleftrightarrow> (\<forall>e \<in> set es. \<not> name_matches name e)"
  by (simp add: dir_lookup_def find_slot_None_iff)

lemma name_matches_unique:
  assumes "entries_distinct es" "i < length es" "j < length es"
    "name_matches name (es ! i)" "name_matches name (es ! j)"
  shows "i = j"
  using assms unfolding entries_distinct_def name_matches_def strncmp_eq_def by metis

lemma dir_lookup_Some:
  assumes "entries_distinct es" "i < length es" "name_matches name (es ! i)"
  shows "dir_lookup es name = Some (de_inode_number (es ! i))"
proof -
  obtain j where j: "find_slot (name_matches name) es = Some j"
    using find_slot_exI assms(2,3) by blast
  then have "j = i"
    using name_matches_unique assms find_slot_lt [OF j] find_slot_hit [OF j] by blast
  with j show ?thesis by (simp add: dir_lookup_def)
qed

text \<open>Filling a free entry adds its name; emptying an entry removes its name.\<close>

lemma dir_lookup_fill:
  assumes "entries_distinct (es[j := e])" "j < length es" "\<not> de_is_used (es ! j)" "de_is_used e"
  shows "dir_lookup (es[j := e]) k =
    (if strncmp_eq MAX_FILE_NAME (de_name e) k then Some (de_inode_number e) else dir_lookup es k)"
proof (cases "strncmp_eq MAX_FILE_NAME (de_name e) k")
  case True
  then show ?thesis using dir_lookup_Some [OF assms(1), of j k] assms by (simp add: name_matches_def)
next
  case False
  have same: "name_matches k (es[j := e] ! i) = name_matches k (es ! i)" for i
    using False assms(2-4) by (cases "i = j") (auto simp: name_matches_def)
  then have "find_slot (name_matches k) (es[j := e]) = find_slot (name_matches k) es"
    by (intro find_slot_nth_cong) auto
  moreover have "de_inode_number (es[j := e] ! i) = de_inode_number (es ! i)" if "name_matches k (es ! i)" for i
    using that assms(3) by (cases "i = j") (auto simp: name_matches_def)
  ultimately show ?thesis
    using False by (auto simp: dir_lookup_def dest: find_slot_hit intro!: map_option_cong)
qed

lemma dir_lookup_clear:
  assumes "entries_distinct es" "j < length es" "de_is_used (es ! j)" "\<not> de_is_used e"
  shows "dir_lookup (es[j := e]) k =
    (if strncmp_eq MAX_FILE_NAME (de_name (es ! j)) k then None else dir_lookup es k)"
proof (cases "strncmp_eq MAX_FILE_NAME (de_name (es ! j)) k")
  case True
  then have "name_matches k (es ! j)" using assms(3) by (simp add: name_matches_def)
  then have "\<not> name_matches k (es[j := e] ! i)" if "i < length es" for i
    using name_matches_unique [OF assms(1) that assms(2), of k] assms(2,4) that
    by (cases "i = j") (auto simp: name_matches_def)
  then have "dir_lookup (es[j := e]) k = None"
    by (auto simp: dir_lookup_None in_set_conv_nth)
  with True show ?thesis by simp
next
  case False
  have same: "name_matches k (es[j := e] ! i) = name_matches k (es ! i)" for i
    using False assms(2-4) by (cases "i = j") (auto simp: name_matches_def)
  then have "find_slot (name_matches k) (es[j := e]) = find_slot (name_matches k) es"
    by (intro find_slot_nth_cong) auto
  moreover have "de_inode_number (es[j := e] ! i) = de_inode_number (es ! i)" if "name_matches k (es ! i)" for i
    using that False by (cases "i = j") (auto simp: name_matches_def)
  ultimately show ?thesis
    using False by (auto simp: dir_lookup_def dest: find_slot_hit intro!: map_option_cong)
qed

section \<open>Every operation keeps the invariant\<close>

lemma find_slot_directory_lt:
  "wf_tables s \<Longrightarrow> find_slot P (directory s) = Some i \<Longrightarrow> i < MAX_NUM_OF_FILES"
  using find_slot_lt [of P "directory s" i] by (simp add: wf_tables_lengths)

lemma fs_open_inv:
  assumes "dir_inv s"
  shows "dir_inv (snd (fs_open name s))"
proof (cases "fst (fs_open name s) = -1 \<and> snd (fs_open name s) = s")
  case True
  then show ?thesis using assms by simp
next
  case False
  then obtain i j where ij: "find_slot (name_matches name) (directory s) = Some i"
    "find_slot (\<lambda>f. \<not> fd_is_used f) (open_file_descriptors s) = Some j"
    and s': "snd (fs_open name s) = s\<lparr>open_file_descriptors := (open_file_descriptors s)
        [j := fill_fd (de_inode_number (directory s ! i)) (open_file_descriptors s ! j)]\<rparr>"
    by (auto simp: fs_open_def split: if_splits option.splits)
  have wf: "wf_tables s" using assms by (simp add: dir_inv_def)
  have i: "i < length (directory s)" "de_is_used (directory s ! i)"
    using find_slot_lt [OF ij(1)] find_slot_hit [OF ij(1)] by (simp_all add: name_matches_def)
  then have "wf_dir_entry (directory s ! i)" using wf by (simp add: wf_tables_def list_all_length)
  then have "wf_fd (fill_fd (de_inode_number (directory s ! i)) (open_file_descriptors s ! j))"
    by (simp add: wf_fd_def fill_fd_def wf_dir_entry_def)
  moreover have "list_ex (\<lambda>e. de_is_used e \<and> de_inode_number e = de_inode_number (directory s ! i)) (directory s)"
    using i by (auto simp: list_ex_length)
  ultimately show ?thesis
    using assms s' by (auto simp: dir_inv_def wf_tables_def fds_named_def fill_fd_def intro!: list_all_update)
qed

lemma fs_close_inv:
  assumes "dir_inv s"
  shows "dir_inv (snd (fs_close fildes s))"
  using assms
  by (auto simp: fs_close_def dir_inv_def wf_tables_def fds_named_def wf_fd_def intro!: list_all_update)

lemma entries_distinct_fill:
  assumes "entries_distinct es" "j < length es" "\<not> de_is_used (es ! j)"
    and "\<forall>i < length es. de_is_used (es ! i) \<longrightarrow> de_inode_number (es ! i) \<noteq> de_inode_number e"
    and "\<forall>i < length es. de_is_used (es ! i) \<longrightarrow> \<not> strncmp_eq MAX_FILE_NAME (de_name (es ! i)) (de_name e)"
  shows "entries_distinct (es[j := e])"
  unfolding entries_distinct_def
proof (intro allI impI)
  fix i k
  assume ik: "i < length (es[j := e])" "k < length (es[j := e])"
    "i \<noteq> k \<and> de_is_used (es[j := e] ! i) \<and> de_is_used (es[j := e] ! k)"
  show "de_inode_number (es[j := e] ! i) \<noteq> de_inode_number (es[j := e] ! k) \<and>
      \<not> strncmp_eq MAX_FILE_NAME (de_name (es[j := e] ! i)) (de_name (es[j := e] ! k))"
  proof (cases "i = j \<or> k = j")
    case True
    then show ?thesis
      using ik assms(2,4,5) strncmp_eq_sym [of MAX_FILE_NAME "de_name e"]
      by (auto simp: nth_list_update split: if_splits)
  next
    case False
    then show ?thesis using ik assms(1) by (auto simp: entries_distinct_def)
  qed
qed

text \<open>The state after a successful create.\<close>

definition created :: "string \<Rightarrow> nat \<Rightarrow> nat \<Rightarrow> fs_state \<Rightarrow> fs_state" where
  "created name i j s =
     s\<lparr>inode_table := (inode_table s)[i := fill_inode () (inode_table s ! i)],
       inode_bitmap := set_bit_at (inode_bitmap s) i,
       directory := (directory s)[j := fill_dir_entry (int i, name) (directory s ! j)]\<rparr>"

definition can_create :: "string \<Rightarrow> fs_state \<Rightarrow> bool" where
  "can_create name s \<longleftrightarrow> 0 < length (c_str name) \<and> length (c_str name) \<le> MAX_FILE_NAME \<and>
     open_disk_fd s \<noteq> -1 \<and> dir_lookup (directory s) name = None \<and>
     used_count inode_used (inode_table s) < MAX_NUM_OF_FILES"

lemma fs_create_ok:
  assumes "dir_inv s" "can_create name s"
  obtains i j where "find_slot (\<lambda>nd. \<not> inode_used nd) (inode_table s) = Some i"
    "find_slot (\<lambda>e. \<not> de_is_used e) (directory s) = Some j"
    "fs_create name s = (0, created name i j s)"
proof -
  have wf: "length (inode_table s) = MAX_NUM_OF_FILES" "length (directory s) = MAX_NUM_OF_FILES"
    using assms(1) by (auto simp: dir_inv_def wf_tables_def)
  then obtain i where i: "find_slot (\<lambda>nd. \<not> inode_used nd) (inode_table s) = Some i"
    using inodes.free_slot_exists [of "inode_table s"] assms(2) by (auto simp: can_create_def)
  have "used_count de_is_used (directory s) < length (directory s)"
    using assms wf by (auto simp: dir_inv_def can_create_def)
  then obtain j where j: "find_slot (\<lambda>e. \<not> de_is_used e) (directory s) = Some j"
    using dirs.free_slot_exists [of "directory s"] by auto
  have "find_slot (name_matches name) (directory s) = None"
    using assms(2) by (simp add: can_create_def dir_lookup_def)
  then have "fs_create name s = (0, created name i j s)"
    using i j assms(2) by (simp add: fs_create_def can_create_def created_def Let_def)
  with i j show ?thesis using that by blast
qed

lemma fs_create_fail:
  assumes "dir_inv s" "\<not> can_create name s"
  shows "fs_create name s = (-1, s)"
proof -
  have "find_slot (\<lambda>nd. \<not> inode_used nd) (inode_table s) = None"
    if "\<not> used_count inode_used (inode_table s) < MAX_NUM_OF_FILES"
    using that inodes.table_full_iff [of "inode_table s"] used_count_le [of inode_used "inode_table s"] assms(1)
    by (simp add: dir_inv_def wf_tables_def)
  then show ?thesis
    using assms(2) by (auto simp: fs_create_def can_create_def dir_lookup_def split: option.splits)
qed

lemma live_inode_not_free:
  assumes "dir_inv s" "find_slot (\<lambda>nd. \<not> inode_used nd) (inode_table s) = Some i"
    "e \<in> set (directory s)" "de_is_used e"
  shows "de_inode_number e \<noteq> int i"
  using assms find_slot_hit [OF assms(2)]
  by (auto simp: dir_inv_def entries_live_def list_all_iff)

lemma created_inv:
  assumes inv: "dir_inv s" and len: "length (c_str name) \<le> MAX_FILE_NAME"
    and none: "dir_lookup (directory s) name = None"
    and i: "find_slot (\<lambda>nd. \<not> inode_used nd) (inode_table s) = Some i"
    and j: "find_slot (\<lambda>e. \<not> de_is_used e) (directory s) = Some j"
  shows "dir_inv (created name i j s)"
proof -
  let ?e = "fill_dir_entry (int i, name) (directory s ! j)" and ?nd = "fill_inode () (inode_table s ! i)"
  note wf = wf_tables_lengths [of s]
  have wft: "wf_tables s" using inv by (simp add: dir_inv_def)
  have lt: "i < MAX_NUM_OF_FILES" "j < length (directory s)"
    using find_slot_lt [OF i] find_slot_lt [OF j] wf wft by auto
  have "wf_dir_entry ?e" "wf_inode ?nd"
    using lt by (simp_all add: wf_inode_def wf_dir_entry_def fill_inode_def fill_dir_entry_def)
  then have wf': "wf_tables (created name i j s)"
    using wft by (simp add: created_def wf_tables_def list_all_update)
  have nomatch: "\<not> name_matches name e" if "e \<in> set (directory s)" for e
    using none that by (simp add: dir_lookup_None)
  have dist: "entries_distinct ((directory s)[j := ?e])"
  proof (rule entries_distinct_fill)
    show "entries_distinct (directory s)" using inv by (simp add: dir_inv_def)
    show "j < length (directory s)" by (rule lt)
    show "\<not> de_is_used (directory s ! j)" using find_slot_hit [OF j] .
    show "\<forall>k < length (directory s). de_is_used (directory s ! k) \<longrightarrow>
        de_inode_number (directory s ! k) \<noteq> de_inode_number ?e"
      using live_inode_not_free [OF inv i] by (simp add: fill_dir_entry_def)
    show "\<forall>k < length (directory s). de_is_used (directory s ! k) \<longrightarrow>
        \<not> strncmp_eq MAX_FILE_NAME (de_name (directory s ! k)) (de_name ?e)"
      using nomatch
      by (auto simp: fill_dir_entry_def name_matches_def strncmp_eq_def c_str_take c_str_strncpy)
  qed
  have live: "entries_live ((inode_table s)[i := ?nd]) ((directory s)[j := ?e])"
    unfolding entries_live_def
  proof (rule list_all_update)
    have used: "inode_used nd \<Longrightarrow> inode_used ((inode_table s)[i := ?nd] ! k)" if "nd = inode_table s ! k" for nd k
      using that inodes.used_fill [of "()"] find_slot_lt [OF i] by (cases "k = i") auto
    show "list_all (\<lambda>e. de_is_used e \<longrightarrow> inode_used ((inode_table s)[i := ?nd] ! nat (de_inode_number e))) (directory s)"
      using inv used by (simp add: dir_inv_def entries_live_def list_all_iff)
    show "de_is_used ?e \<longrightarrow> inode_used ((inode_table s)[i := ?nd] ! nat (de_inode_number ?e))"
      using inodes.used_fill find_slot_lt [OF i] by (simp add: fill_dir_entry_def)
  qed
  have named: "fds_named ((directory s)[j := ?e]) (open_file_descriptors s)"
    unfolding fds_named_def list_all_iff
  proof (intro ballI impI)
    fix f assume f: "f \<in> set (open_file_descriptors s)" "fd_is_used f"
    then obtain k where k: "k < length (directory s)" "de_is_used (directory s ! k)"
      "de_inode_number (directory s ! k) = fd_inode_number f"
      using inv by (auto simp: dir_inv_def fds_named_def list_all_iff list_ex_length)
    then have "k \<noteq> j" using find_slot_hit [OF j] by auto
    with k show "list_ex (\<lambda>e. de_is_used e \<and> de_inode_number e = fd_inode_number f) ((directory s)[j := ?e])"
      by (auto simp: list_ex_length intro!: exI [of _ k])
  qed
  have "used_count de_is_used ((directory s)[j := ?e]) = Suc (used_count de_is_used (directory s))"
    and "used_count inode_used ((inode_table s)[i := ?nd]) = Suc (used_count inode_used (inode_table s))"
    by (rule dirs.take_slot_count [OF j], rule inodes.take_slot_count [OF i])
  with wf' dist live named inv show ?thesis
    by (simp add: dir_inv_def created_def)
qed

lemma fs_create_inv:
  assumes "dir_inv s"
  shows "dir_inv (snd (fs_create name s))"
proof (cases "can_create name s")
  case True
  with assms obtain i j where "find_slot (\<lambda>nd. \<not> inode_used nd) (inode_table s) = Some i"
    "find_slot (\<lambda>e. \<not> de_is_used e) (directory s) = Some j" "fs_create name s = (0, created name i j s)"
    by (rule fs_create_ok)
  then show ?thesis using created_inv [OF assms] True by (simp add: can_create_def)
next
  case False
  then show ?thesis using fs_create_fail assms by simp
qed

text \<open>The release loop of \<open>fs_delete\<close> touches the bitmap and one counter only.\<close>

lemma release_step_frame [simp]:
  "open_disk_fd (release_step adj ino s i) = open_disk_fd s"
  "inode_table (release_step adj ino s i) = inode_table s"
  "open_file_descriptors (release_step adj ino s i) = open_file_descriptors s"
  "directory (release_step adj ino s i) = directory s"
  "inode_bitmap (release_step adj ino s i) = inode_bitmap s"
  "disk (release_step adj ino s i) = disk s"
  "length (used_block_bitmap (release_step adj ino s i)) = length (used_block_bitmap s)"
  by (simp_all add: release_step_def)

lemma release_loop_frame [simp]:
  "open_disk_fd (foldl (release_step adj ino) s is) = open_disk_fd s"
  "inode_table (foldl (release_step adj ino) s is) = inode_table s"
  "open_file_descriptors (foldl (release_step adj ino) s is) = open_file_descriptors s"
  "directory (foldl (release_step adj ino) s is) = directory s"
  "inode_bitmap (foldl (release_step adj ino) s is) = inode_bitmap s"
  "disk (foldl (release_step adj ino) s is) = disk s"
  "length (used_block_bitmap (foldl (release_step adj ino) s is)) = length (used_block_bitmap s)"
  by (induction "is" arbitrary: s) simp_all

definition open_ino :: "int \<Rightarrow> fs_state \<Rightarrow> bool" where
  "open_ino ino s \<longleftrightarrow> list_ex (\<lambda>f. fd_is_used f \<and> fd_inode_number f = ino) (open_file_descriptors s)"

lemma fs_delete_cases:
  obtains (fail) "fs_delete adj name s = (-1, s)"
      "open_disk_fd s = -1 \<or> dir_lookup (directory s) name = None \<or>
       open_ino (the (dir_lookup (directory s) name)) s"
  | (ok) k bm sb where "find_slot (name_matches name) (directory s) = Some k" "open_disk_fd s \<noteq> -1"
      "\<not> open_ino (de_inode_number (directory s ! k)) s"
      "length bm = length (used_block_bitmap s)"
      "fs_delete adj name s = (0, s\<lparr>directory := (directory s)[k := zero_dir_entry],
         used_block_bitmap := bm, superblock := sb\<rparr>)"
proof (cases "open_disk_fd s = -1 \<or> dir_lookup (directory s) name = None \<or>
    open_ino (the (dir_lookup (directory s) name)) s")
  case True
  then have "fs_delete adj name s = (-1, s)"
    by (cases "find_slot (name_matches name) (directory s)")
      (auto simp: fs_delete_def dir_lookup_def open_ino_def Let_def)
  then show ?thesis using fail True by blast
next
  case False
  then obtain k where k: "find_slot (name_matches name) (directory s) = Some k"
    by (auto simp: dir_lookup_def)
  let ?s = "foldl (release_step adj (de_inode_number (directory s ! k))) s [0..<TOTAL_BLOCKS]"
  have "fs_delete adj name s = (0, ?s\<lparr>directory := (directory s)[k := zero_dir_entry]\<rparr>)"
    using False k by (simp add: fs_delete_def dir_lookup_def open_ino_def zero_dir_entry_def Let_def)
  moreover have "?s\<lparr>directory := (directory s)[k := zero_dir_entry]\<rparr> = s\<lparr>directory := (directory s)[k := zero_dir_entry],
      used_block_bitmap := used_block_bitmap ?s, superblock := superblock ?s\<rparr>"
    by (rule fs_state.equality) simp_all
  ultimately show ?thesis
    using ok [of k "used_block_bitmap ?s" "superblock ?s"] k False by (simp add: dir_lookup_def)
qed

lemma entries_distinct_clear:
  assumes "entries_distinct es" "\<not> de_is_used e"
  shows "entries_distinct (es[k := e])"
  unfolding entries_distinct_def
proof (intro allI impI)
  fix i j
  assume ij: "i < length (es[k := e])" "j < length (es[k := e])"
    "i \<noteq> j \<and> de_is_used (es[k := e] ! i) \<and> de_is_used (es[k := e] ! j)"
  then have "i \<noteq> k" "j \<noteq> k" using assms(2) by auto
  with ij assms(1) show "de_inode_number (es[k := e] ! i) \<noteq> de_inode_number (es[k := e] ! j) \<and>
      \<not> strncmp_eq MAX_FILE_NAME (de_name (es[k := e] ! i)) (de_name (es[k := e] ! j))"
    by (auto simp: entries_distinct_def)
qed

lemma fs_delete_inv:
  assumes "dir_inv s"
  shows "dir_inv (snd (fs_delete adj name s))"
proof (cases adj name s rule: fs_delete_cases)
  case fail
  then show ?thesis using assms by simp
next
  case (ok k bm sb)
  have wf: "wf_tables s" using assms by (simp add: dir_inv_def)
  have k: "k < length (directory s)" using find_slot_lt [OF ok(1)] .
  have named: "fds_named ((directory s)[k := zero_dir_entry]) (open_file_descriptors s)"
    unfolding fds_named_def list_all_iff
  proof (intro ballI impI)
    fix f assume f: "f \<in> set (open_file_descriptors s)" "fd_is_used f"
    then obtain m where m: "m < length (directory s)" "de_is_used (directory s ! m)"
      "de_inode_number (directory s ! m) = fd_inode_number f"
      using assms by (auto simp: dir_inv_def fds_named_def list_all_iff list_ex_length)
    then have "m \<noteq> k" using ok(3) f by (auto simp: open_ino_def list_ex_iff)
    with m show "list_ex (\<lambda>e. de_is_used e \<and> de_inode_number e = fd_inode_number f)
        ((directory s)[k := zero_dir_entry])"
      by (auto simp: list_ex_length intro!: exI [of _ m])
  qed
  have "used_count de_is_used ((directory s)[k := zero_dir_entry]) \<le> used_count de_is_used (directory s)"
    using used_count_update [OF k, of de_is_used zero_dir_entry] by (simp add: zero_dir_entry_def split: if_splits)
  moreover have "wf_dir_entry zero_dir_entry"
    by (simp add: wf_dir_entry_def zero_dir_entry_def MAX_NUM_OF_FILES_def)
  moreover have "\<not> de_is_used zero_dir_entry" by (simp add: zero_dir_entry_def)
  ultimately show ?thesis
    using ok(4,5) assms wf named
    by (simp add: dir_inv_def wf_tables_def entries_live_def list_all_update entries_distinct_clear)
qed

lemma set_fd_offset_inv:
  assumes "dir_inv s" "0 \<le> off" "off \<le> int MAX_FILESIZE"
  shows "dir_inv (set_fd_offset fildes off s)"
proof (cases "nat fildes < length (open_file_descriptors s)")
  case True
  let ?f = "open_file_descriptors s ! nat fildes"
  have "wf_fd ?f" "fd_is_used ?f \<longrightarrow> list_ex (\<lambda>e. de_is_used e \<and> de_inode_number e = fd_inode_number ?f) (directory s)"
    using assms(1) True by (auto simp: dir_inv_def wf_tables_def fds_named_def list_all_length)
  then show ?thesis
    using assms by (simp add: set_fd_offset_def dir_inv_def wf_tables_def fds_named_def wf_fd_def list_all_update)
next
  case False
  then show ?thesis using assms(1) by (simp add: set_fd_offset_def list_update_beyond)
qed

lemma set_file_size_inv:
  assumes "dir_inv s" "unat sz \<le> MAX_FILESIZE"
  shows "dir_inv (set_file_size ino sz s)"
proof (cases "nat ino < length (inode_table s)")
  case True
  let ?n = "nat ino" and ?nd = "(inode_table s ! nat ino)\<lparr>file_size := sz\<rparr>"
  have "wf_inode ?nd"
    using assms True by (auto simp: dir_inv_def wf_tables_def wf_inode_def list_all_length)
  moreover have same: "inode_used ((inode_table s)[?n := ?nd] ! m) = inode_used (inode_table s ! m)" for m
    using True by (cases "m = ?n") (auto simp: inode_used_def)
  moreover have "used_count inode_used ((inode_table s)[?n := ?nd]) = used_count inode_used (inode_table s)"
    using used_count_update [OF True, of inode_used ?nd] by (simp add: inode_used_def split: if_splits)
  ultimately show ?thesis
    using assms(1) by (simp add: set_file_size_def dir_inv_def wf_tables_def entries_live_def list_all_update)
next
  case False
  then show ?thesis using assms(1) by (simp add: set_file_size_def list_update_beyond)
qed

text \<open>A length that passed the unsigned comparison is a small non-negative number.\<close>

lemma MAX_FILESIZE_lt: "MAX_FILESIZE < 2 ^ 31"
  by (simp add: MAX_FILESIZE_def)

lemma truncated_length:
  assumes "\<not> ulong_of_int len > file_size nd" "wf_inode nd"
  shows "unat (ulong_of_int len) \<le> MAX_FILESIZE" "0 \<le> int_of_ulong (ulong_of_int len)"
    "int_of_ulong (ulong_of_int len) \<le> int MAX_FILESIZE"
proof -
  show le: "unat (ulong_of_int len) \<le> MAX_FILESIZE"
    using assms by (simp add: not_less word_le_nat_alt wf_inode_def)
  then have "int_of_ulong (ulong_of_int len) = int (unat (ulong_of_int len))"
    using MAX_FILESIZE_lt by (intro int_of_ulong_small) simp
  with le show "0 \<le> int_of_ulong (ulong_of_int len)" "int_of_ulong (ulong_of_int len) \<le> int MAX_FILESIZE"
    by linarith+
qed

lemma fs_lseek_inv:
  assumes "dir_inv s"
  shows "dir_inv (snd (fs_lseek fildes off s))"
proof -
  let ?ino = "fd_inode_number (open_file_descriptors s ! nat fildes)"
  have "wf_inode (inode_table s ! nat ?ino)" if "\<not> bad_index ?ino s"
    using assms that by (auto simp: dir_inv_def bad_index_def intro!: wf_tables_nth)
  then show ?thesis
    using assms truncated_length [of "inode_table s ! nat ?ino" off]
    by (auto simp: fs_lseek_def Let_def intro!: set_fd_offset_inv)
qed

lemma fs_truncate_inv:
  assumes "dir_inv s"
  shows "dir_inv (snd (fs_truncate fildes len s))"
proof -
  let ?ino = "fd_inode_number (open_file_descriptors s ! nat fildes)"
  have "wf_inode (inode_table s ! nat ?ino)" if "\<not> bad_index ?ino s"
    using assms that by (auto simp: dir_inv_def bad_index_def intro!: wf_tables_nth)
  then show ?thesis
    using assms truncated_length [of "inode_table s ! nat ?ino" len]
    by (auto simp: fs_truncate_def Let_def intro!: set_fd_offset_inv set_file_size_inv)
qed

end
