(* ===== verification/FS_Data.thy ===== *)
theory FS_Data
  imports FS_Dir
begin

text \<open>
  Reading and writing open files: \<open>fs_read\<close> and \<open>fs_write\<close> of \<^verbatim>\<open>fs.c\<close>, the bytes of a file as an
  abstraction of the disk, and the proofs that a write changes exactly the bytes it is asked to
  change and that a read returns them.

  The caller's buffer of \<open>fs_write\<close> is the list of its \<open>nbyte\<close> bytes; \<open>fs_read\<close> returns the bytes it
  stores in the caller's buffer.  Using \<open>direct_offset\<close> outside its 256 entries is undefined
  (\<open>None\<close>).  Counters of the loops stay below \<open>2 ^ 20\<close> until that happens, so the \<open>int\<close> variables
  are natural numbers here.
\<close>

section \<open>fs\_read\<close>

function fs_read_loop ::
  "inode \<Rightarrow> nat \<Rightarrow> nat \<Rightarrow> nat \<Rightarrow> u8 list \<Rightarrow> u8 list \<Rightarrow> disk_state \<Rightarrow> (int \<times> u8 list \<times> disk_state) option" where
  "fs_read_loop nd bytes_left block_index block_offset out block_buffer d =
     (if bytes_left = 0 then Some (0, out, d)
      else if block_index \<ge> length (direct_offset nd) then None
      else (case block_read (int_of_ulong (direct_offset nd ! block_index)) block_buffer d of (r, blk, d') \<Rightarrow>
              if r = -1 then Some (-1, out, d')
              else (let cur = (if bytes_left < BLOCK_SIZE - block_offset then bytes_left else BLOCK_SIZE - block_offset)
                    in fs_read_loop nd (bytes_left - cur) (Suc block_index) 0
                         (out @ take cur (drop block_offset blk)) blk d')))"
  by pat_completeness auto
termination
  by (relation "measure (\<lambda>(_, left, _, off, _). 2 * left + (if off \<ge> BLOCK_SIZE then 1 else 0))")
    (auto split: if_splits)

declare fs_read_loop.simps [simp del]

definition fs_read :: "int \<Rightarrow> u64 \<Rightarrow> fs_state \<Rightarrow> (int \<times> u8 list \<times> fs_state) option" where
  "fs_read fildes nbyte s =
     (if bad_fd fildes s then Some (-1, [], s)
      else (let f = open_file_descriptors s ! nat fildes; file_index = fd_inode_number f
            in if bad_index file_index s then Some (-1, [], s)
               else (let nd = inode_table s ! nat file_index;
                         remaining_bytes = int_of_ulong (file_size nd - ulong_of_int (fd_offset f));
                         bytes_to_read = (if nbyte < ulong_of_int remaining_bytes then int_of_ulong nbyte
                                          else remaining_bytes)
                     in if bytes_to_read \<le> 0 then Some (0, [], s)
                        else if fd_offset f < 0 then None
                        else (case fs_read_loop nd (nat bytes_to_read) (nat (fd_offset f) div BLOCK_SIZE)
                                     (nat (fd_offset f) mod BLOCK_SIZE) [] (replicate BLOCK_SIZE 0) (disk s) of
                                None \<Rightarrow> None
                              | Some (r, out, d) \<Rightarrow>
                                  if r = -1 then Some (-1, out, s\<lparr>disk := d\<rparr>)
                                  else Some (bytes_to_read, out,
                                         set_fd_offset fildes (fd_offset f + bytes_to_read) (s\<lparr>disk := d\<rparr>))))))"

section \<open>fs\_write\<close>

text \<open>The search for a free block from \<open>used_block_bitmap_offset\<close> on.\<close>

function free_block_from :: "u8 list \<Rightarrow> nat \<Rightarrow> nat option" where
  "free_block_from bitmap i =
     (if i < TOTAL_BLOCKS then (if \<not> get_bit_at bitmap i then Some i else free_block_from bitmap (Suc i)) else None)"
  by pat_completeness auto
termination
  by (relation "measure (\<lambda>(_, i). TOTAL_BLOCKS - i)") auto

declare free_block_from.simps [simp del]

text \<open>
  Allocation of block \<open>block_index\<close> of a file if it has none; \<open>None\<close> is the return with a full disk.
  When the search starts behind the last block its loop body never runs and nothing is allocated.
\<close>

definition alloc_block :: "nat \<Rightarrow> nat \<Rightarrow> fs_state \<Rightarrow> fs_state option" where
  "alloc_block ino block_index s =
     (let nd = inode_table s ! ino; start = unat (used_block_bitmap_offset (superblock s))
      in if direct_offset nd ! block_index \<noteq> 0 then Some s
         else if start \<ge> TOTAL_BLOCKS then Some s
         else (case free_block_from (used_block_bitmap s) start of
                 None \<Rightarrow> None
               | Some i \<Rightarrow>
                   Some (s\<lparr>used_block_bitmap := set_bit_at (used_block_bitmap s) i,
                           inode_table := (inode_table s)
                             [ino := nd\<lparr>direct_offset := (direct_offset nd)[block_index := of_nat i]\<rparr>],
                           superblock := (superblock s)
                             \<lparr>used_block_bitmap_count := used_block_bitmap_count (superblock s) + 1\<rparr>\<rparr>)))"

text \<open>The bookkeeping at the end of a round: descriptor offset and file size.\<close>

definition advance :: "int \<Rightarrow> nat \<Rightarrow> nat \<Rightarrow> fs_state \<Rightarrow> fs_state" where
  "advance fildes ino n s =
     (let off = fd_offset (open_file_descriptors s ! nat fildes) + int n;
          s1 = set_fd_offset fildes off s
      in if ulong_of_int off > file_size (inode_table s1 ! ino)
         then set_file_size (int ino) (ulong_of_int off) s1 else s1)"

function fs_write_loop ::
  "int \<Rightarrow> nat \<Rightarrow> u8 list \<Rightarrow> nat \<Rightarrow> nat \<Rightarrow> nat \<Rightarrow> u8 list \<Rightarrow> fs_state \<Rightarrow> (int \<times> fs_state) option" where
  "fs_write_loop fildes ino buf bytes_written block_index block_offset block_buffer s =
     (if bytes_written \<ge> length buf then Some (int bytes_written, s)
      else if block_index \<ge> length (direct_offset (inode_table s ! ino)) then None
      else (case alloc_block ino block_index s of
              None \<Rightarrow> Some (-1, s)
            | Some s1 \<Rightarrow>
                (let b = int_of_ulong (direct_offset (inode_table s1 ! ino) ! block_index)
                 in case block_read b block_buffer (disk s1) of (r, blk1, d1) \<Rightarrow>
                      if r = -1 then Some (-1, s1\<lparr>disk := d1\<rparr>)
                      else (let cur = (if length buf - bytes_written < BLOCK_SIZE - block_offset
                                       then length buf - bytes_written else BLOCK_SIZE - block_offset);
                                blk2 = memcpy_at block_offset (take cur (drop bytes_written buf)) blk1
                            in case block_write b blk2 d1 of (r2, d2) \<Rightarrow>
                                 if r2 = -1 then Some (-1, s1\<lparr>disk := d2\<rparr>)
                                 else fs_write_loop fildes ino buf (bytes_written + cur) (Suc block_index) 0 blk2
                                        (advance fildes ino cur (s1\<lparr>disk := d2\<rparr>))))))"
  by pat_completeness auto
termination
  by (relation "measure (\<lambda>(_, _, buf, n, _, off, _). 2 * (length buf - n) + (if off \<ge> BLOCK_SIZE then 1 else 0))")
    (auto split: if_splits)

declare fs_write_loop.simps [simp del]

definition fs_write :: "int \<Rightarrow> u8 list \<Rightarrow> fs_state \<Rightarrow> (int \<times> fs_state) option" where
  "fs_write fildes buf s =
     (if bad_fd fildes s then Some (-1, s)
      else (let f = open_file_descriptors s ! nat fildes; file_index = fd_inode_number f
            in if bad_index file_index s then Some (-1, s)
               else if buf = [] then Some (0, s)
               else if fd_offset f < 0 then None
               else fs_write_loop fildes (nat file_index) buf 0 (nat (fd_offset f) div BLOCK_SIZE)
                      (nat (fd_offset f) mod BLOCK_SIZE) (replicate BLOCK_SIZE 0) s))"

section \<open>The bytes of a file\<close>

definition alloc_of :: "fs_state \<Rightarrow> nat \<Rightarrow> nat \<Rightarrow> nat" where
  "alloc_of s ino k = unat (direct_offset (inode_table s ! ino) ! k)"

definition inode_byte :: "inode \<Rightarrow> disk_state \<Rightarrow> nat \<Rightarrow> u8" where
  "inode_byte nd d p = disk_block d (unat (direct_offset nd ! (p div BLOCK_SIZE))) ! (p mod BLOCK_SIZE)"

definition file_byte :: "fs_state \<Rightarrow> nat \<Rightarrow> nat \<Rightarrow> u8" where
  "file_byte s ino p = inode_byte (inode_table s ! ino) (disk s) p"

lemma NDIRECT_bytes: "NDIRECT * BLOCK_SIZE = MAX_FILESIZE"
  by (simp add: NDIRECT_def MAX_FILESIZE_def BLOCK_SIZE_def)

lemma slice_of_block:
  assumes "boff + cur \<le> BLOCK_SIZE" "length (disk_block d (unat (direct_offset nd ! bi))) = BLOCK_SIZE"
  shows "take cur (drop boff (disk_block d (unat (direct_offset nd ! bi)))) =
    map (inode_byte nd d) [bi * BLOCK_SIZE + boff ..< bi * BLOCK_SIZE + boff + cur]"
proof (rule nth_equalityI)
  show "length (take cur (drop boff (disk_block d (unat (direct_offset nd ! bi))))) =
      length (map (inode_byte nd d) [bi * BLOCK_SIZE + boff ..< bi * BLOCK_SIZE + boff + cur])"
    using assms by simp
next
  fix i
  assume "i < length (take cur (drop boff (disk_block d (unat (direct_offset nd ! bi)))))"
  then have i: "i < cur" "boff + i < BLOCK_SIZE" using assms by auto
  then have "(bi * BLOCK_SIZE + boff + i) div BLOCK_SIZE = bi" "(bi * BLOCK_SIZE + boff + i) mod BLOCK_SIZE = boff + i"
    by (simp_all add: add.assoc)
  then show "take cur (drop boff (disk_block d (unat (direct_offset nd ! bi)))) ! i =
      map (inode_byte nd d) [bi * BLOCK_SIZE + boff ..< bi * BLOCK_SIZE + boff + cur] ! i"
    using i assms by (simp add: inode_byte_def)
qed

definition inode_blocks_ok :: "inode \<Rightarrow> bool" where
  "inode_blocks_ok nd \<longleftrightarrow> length (direct_offset nd) = NDIRECT \<and> (\<forall>k < NDIRECT. unat (direct_offset nd ! k) < DISK_BLOCKS)"

lemma int_of_block: "unat w < DISK_BLOCKS \<Longrightarrow> int_of_ulong w = int (unat w)"
  by (rule int_of_ulong_small) (simp add: DISK_BLOCKS_def)

lemma fs_read_loop_ok:
  assumes "inode_blocks_ok nd" "disk_ok d" "length blk = BLOCK_SIZE" "boff < BLOCK_SIZE"
    "bi * BLOCK_SIZE + boff + left \<le> MAX_FILESIZE"
  shows "\<exists>d'. fs_read_loop nd left bi boff out blk d =
      Some (0, out @ map (inode_byte nd d) [bi * BLOCK_SIZE + boff ..< bi * BLOCK_SIZE + boff + left], d') \<and>
    disk_ok d' \<and> disk_block d' = disk_block d"
  using assms
proof (induction nd left bi boff out blk d rule: fs_read_loop.induct)
  case (1 nd left bi boff out blk d)
  note unfold = fs_read_loop.simps [of nd left bi boff out blk d]
  show ?case
  proof (cases "left = 0")
    case True
    with "1.prems" show ?thesis by (simp add: fs_read_loop.simps [of nd 0])
  next
    case False
    let ?b = "unat (direct_offset nd ! bi)" and ?cur = "if left < BLOCK_SIZE - boff then left else BLOCK_SIZE - boff"
    have "bi * BLOCK_SIZE < NDIRECT * BLOCK_SIZE" using "1.prems"(5) False NDIRECT_bytes by linarith
    then have bi: "bi < NDIRECT" by simp
    then have b: "?b < DISK_BLOCKS" and len: "bi < length (direct_offset nd)"
      using "1.prems"(1) by (auto simp: inode_blocks_ok_def)
    have rd: "block_read (int_of_ulong (direct_offset nd ! bi)) blk d = (0, disk_block d ?b, tick (tick d))"
      using block_read_ok [OF "1.prems"(2) b "1.prems"(3)] by (simp add: int_of_block [OF b])
    have blen: "length (disk_block d ?b) = BLOCK_SIZE" using dsk.length_get "1.prems"(2) b by blast
    have cur: "boff + ?cur \<le> BLOCK_SIZE" "?cur \<le> left" using "1.prems"(4) by auto
    let ?out = "out @ take ?cur (drop boff (disk_block d ?b))"
    have next_pos: "left - ?cur = 0 \<or> Suc bi * BLOCK_SIZE = bi * BLOCK_SIZE + boff + ?cur"
      using "1.prems"(4) by auto
    have fits: "Suc bi * BLOCK_SIZE + 0 + (left - ?cur) \<le> MAX_FILESIZE"
      using next_pos "1.prems"(5) bi NDIRECT_bytes mult_le_mono1 [of "Suc bi" NDIRECT BLOCK_SIZE] by auto
    have byte: "inode_byte nd (tick (tick d)) = inode_byte nd d" by (simp add: inode_byte_def fun_eq_iff)
    from "1.IH" [OF False _ rd [symmetric] refl _ refl "1.prems"(1) _ blen _ fits] len "1.prems"(2)
    obtain d' where rec: "fs_read_loop nd (left - ?cur) (Suc bi) 0 ?out (disk_block d ?b) (tick (tick d)) =
        Some (0, ?out @ map (inode_byte nd d) [Suc bi * BLOCK_SIZE ..< Suc bi * BLOCK_SIZE + (left - ?cur)], d')"
      and d': "disk_ok d'" "disk_block d' = disk_block d"
      by (auto simp: byte)
    have "[bi * BLOCK_SIZE + boff ..< bi * BLOCK_SIZE + boff + left] =
        [bi * BLOCK_SIZE + boff ..< bi * BLOCK_SIZE + boff + ?cur] @
        [Suc bi * BLOCK_SIZE ..< Suc bi * BLOCK_SIZE + (left - ?cur)]"
    proof (cases "left - ?cur = 0")
      case True
      then have "?cur = left" using cur(2) by linarith
      with True show ?thesis by simp
    next
      case False
      then have start: "Suc bi * BLOCK_SIZE = bi * BLOCK_SIZE + boff + ?cur" using next_pos by (metis (full_types))
      have "bi * BLOCK_SIZE + boff + left = bi * BLOCK_SIZE + boff + ?cur + (left - ?cur)" using cur(2) by linarith
      then show ?thesis by (simp only: start) (rule upt_add_eq_append, rule le_add1)
    qed
    then have "?out @ map (inode_byte nd d) [Suc bi * BLOCK_SIZE ..< Suc bi * BLOCK_SIZE + (left - ?cur)] =
        out @ map (inode_byte nd d) [bi * BLOCK_SIZE + boff ..< bi * BLOCK_SIZE + boff + left]"
      using slice_of_block [OF cur(1) blen] by simp
    then show ?thesis
      using rec d' rd len False by (simp add: unfold Let_def)
  qed
qed

section \<open>The data invariant\<close>

text \<open>
  No block belongs to two places: every allocated block is in range and marked in the bitmap, and
  different entries of the inodes hold different blocks.
\<close>

definition data_inv :: "fs_state \<Rightarrow> bool" where
  "data_inv s \<longleftrightarrow> disk_ok (disk s) \<and> length (used_block_bitmap s) = TOTAL_BLOCKS div CHAR_BIT \<and>
     length (inode_table s) = MAX_NUM_OF_FILES \<and>
     (\<forall>ino < MAX_NUM_OF_FILES. inode_blocks_ok (inode_table s ! ino)) \<and>
     (\<forall>ino < MAX_NUM_OF_FILES. \<forall>k < NDIRECT. alloc_of s ino k \<noteq> 0 \<longrightarrow>
        get_bit_at (used_block_bitmap s) (alloc_of s ino k)) \<and>
     (\<forall>ino < MAX_NUM_OF_FILES. \<forall>k < NDIRECT. \<forall>ino' < MAX_NUM_OF_FILES. \<forall>k' < NDIRECT.
        alloc_of s ino k \<noteq> 0 \<and> alloc_of s ino k = alloc_of s ino' k' \<longrightarrow> ino = ino' \<and> k = k') \<and>
     0 < unat (used_block_bitmap_offset (superblock s)) \<and>
     unat (used_block_bitmap_offset (superblock s)) < TOTAL_BLOCKS"

lemma data_invD:
  assumes "data_inv s"
  shows "disk_ok (disk s)" "length (used_block_bitmap s) = TOTAL_BLOCKS div CHAR_BIT"
    "length (inode_table s) = MAX_NUM_OF_FILES"
    "ino < MAX_NUM_OF_FILES \<Longrightarrow> inode_blocks_ok (inode_table s ! ino)"
    "ino < MAX_NUM_OF_FILES \<Longrightarrow> k < NDIRECT \<Longrightarrow> alloc_of s ino k < DISK_BLOCKS"
    "ino < MAX_NUM_OF_FILES \<Longrightarrow> k < NDIRECT \<Longrightarrow> alloc_of s ino k \<noteq> 0 \<Longrightarrow>
       get_bit_at (used_block_bitmap s) (alloc_of s ino k)"
    "ino < MAX_NUM_OF_FILES \<Longrightarrow> k < NDIRECT \<Longrightarrow> ino' < MAX_NUM_OF_FILES \<Longrightarrow> k' < NDIRECT \<Longrightarrow>
       alloc_of s ino k \<noteq> 0 \<Longrightarrow> alloc_of s ino k = alloc_of s ino' k' \<Longrightarrow> ino = ino' \<and> k = k'"
    "0 < unat (used_block_bitmap_offset (superblock s))"
    "unat (used_block_bitmap_offset (superblock s)) < TOTAL_BLOCKS"
proof -
  note inv = assms [unfolded data_inv_def]
  show "disk_ok (disk s)" "length (used_block_bitmap s) = TOTAL_BLOCKS div CHAR_BIT"
    "length (inode_table s) = MAX_NUM_OF_FILES" "0 < unat (used_block_bitmap_offset (superblock s))"
    "unat (used_block_bitmap_offset (superblock s)) < TOTAL_BLOCKS"
    using inv by - (elim conjE, assumption)+
  show ok: "ino < MAX_NUM_OF_FILES \<Longrightarrow> inode_blocks_ok (inode_table s ! ino)"
    using inv by (elim conjE) blast
  then show "ino < MAX_NUM_OF_FILES \<Longrightarrow> k < NDIRECT \<Longrightarrow> alloc_of s ino k < DISK_BLOCKS"
    by (simp add: inode_blocks_ok_def alloc_of_def)
  show "ino < MAX_NUM_OF_FILES \<Longrightarrow> k < NDIRECT \<Longrightarrow> alloc_of s ino k \<noteq> 0 \<Longrightarrow>
      get_bit_at (used_block_bitmap s) (alloc_of s ino k)"
    using inv by (elim conjE) blast
  show "ino < MAX_NUM_OF_FILES \<Longrightarrow> k < NDIRECT \<Longrightarrow> ino' < MAX_NUM_OF_FILES \<Longrightarrow> k' < NDIRECT \<Longrightarrow>
      alloc_of s ino k \<noteq> 0 \<Longrightarrow> alloc_of s ino k = alloc_of s ino' k' \<Longrightarrow> ino = ino' \<and> k = k'"
    using inv by (elim conjE) blast
qed

text \<open>The invariant reads the disk, the bitmap, the block pointers and the search start only.\<close>

lemma data_inv_cong:
  assumes "disk_ok (disk s')" "used_block_bitmap s' = used_block_bitmap s"
    "length (inode_table s') = length (inode_table s)"
    "\<And>ino. ino < MAX_NUM_OF_FILES \<Longrightarrow> direct_offset (inode_table s' ! ino) = direct_offset (inode_table s ! ino)"
    "used_block_bitmap_offset (superblock s') = used_block_bitmap_offset (superblock s)"
    "data_inv s"
  shows "data_inv s'"
proof -
  have "alloc_of s' ino k = alloc_of s ino k" if "ino < MAX_NUM_OF_FILES" for ino k
    using assms(4) [OF that] by (simp add: alloc_of_def)
  moreover have "inode_blocks_ok (inode_table s' ! ino) = inode_blocks_ok (inode_table s ! ino)"
    if "ino < MAX_NUM_OF_FILES" for ino
    using assms(4) [OF that] by (simp add: inode_blocks_ok_def)
  ultimately show ?thesis using assms(1,2,3,5,6) unfolding data_inv_def by simp
qed

lemma free_block_from_Some:
  "free_block_from bm i = Some j \<Longrightarrow> i \<le> j \<and> j < TOTAL_BLOCKS \<and> \<not> get_bit_at bm j \<and> (\<forall>k. i \<le> k \<and> k < j \<longrightarrow> get_bit_at bm k)"
proof (induction bm i rule: free_block_from.induct)
  case (1 bm i)
  show ?case
  proof (cases "i < TOTAL_BLOCKS \<and> get_bit_at bm i")
    case True
    then have "free_block_from bm (Suc i) = Some j" using "1.prems" by (simp add: free_block_from.simps [of bm i])
    then have "Suc i \<le> j \<and> j < TOTAL_BLOCKS \<and> \<not> get_bit_at bm j \<and> (\<forall>k. Suc i \<le> k \<and> k < j \<longrightarrow> get_bit_at bm k)"
      using "1.IH" True by blast
    then show ?thesis using True by (metis Suc_leD le_antisym not_less_eq_eq)
  next
    case False
    with "1.prems" show ?thesis by (auto simp: free_block_from.simps [of bm i] split: if_splits)
  qed
qed

lemma free_block_from_None:
  "free_block_from bm i = None \<Longrightarrow> i \<le> k \<Longrightarrow> k < TOTAL_BLOCKS \<Longrightarrow> get_bit_at bm k"
proof (induction bm i rule: free_block_from.induct)
  case (1 bm i)
  then show ?case
    by (cases "k = i") (auto simp: free_block_from.simps [of bm i] split: if_splits)
qed

lemma TOTAL_DISK: "TOTAL_BLOCKS = DISK_BLOCKS"
  by (simp add: TOTAL_BLOCKS_def DISK_BLOCKS_def)

lemma bitmap_index: "b < TOTAL_BLOCKS \<Longrightarrow> b div 8 < TOTAL_BLOCKS div CHAR_BIT"
  by (simp add: TOTAL_BLOCKS_def CHAR_BIT_def less_mult_imp_div_less)

lemma unat_of_block: "b < TOTAL_BLOCKS \<Longrightarrow> unat (of_nat b :: u64) = b"
  by (simp add: unat_of_nat TOTAL_BLOCKS_def)

text \<open>The state after allocating block \<open>b\<close> as entry \<open>k\<close> of an inode.\<close>

definition with_block :: "nat \<Rightarrow> nat \<Rightarrow> nat \<Rightarrow> fs_state \<Rightarrow> fs_state" where
  "with_block ino k b s =
     s\<lparr>used_block_bitmap := set_bit_at (used_block_bitmap s) b,
       inode_table := (inode_table s)[ino := (inode_table s ! ino)
         \<lparr>direct_offset := (direct_offset (inode_table s ! ino))[k := of_nat b]\<rparr>],
       superblock := (superblock s)\<lparr>used_block_bitmap_count := used_block_bitmap_count (superblock s) + 1\<rparr>\<rparr>"

lemma alloc_block_cases:
  assumes "data_inv s" "alloc_block ino k s = Some s1"
  obtains (old) "s1 = s" "alloc_of s ino k \<noteq> 0"
  | (new) b where "s1 = with_block ino k b s" "alloc_of s ino k = 0" "0 < b" "b < TOTAL_BLOCKS"
      "\<not> get_bit_at (used_block_bitmap s) b"
proof (cases "direct_offset (inode_table s ! ino) ! k = 0")
  case False
  then show ?thesis using assms(2) old by (simp add: alloc_block_def alloc_of_def Let_def unat_eq_zero)
next
  case True
  then obtain b where b: "free_block_from (used_block_bitmap s) (unat (used_block_bitmap_offset (superblock s))) = Some b"
    and s1: "s1 = with_block ino k b s"
    using assms data_invD(9) [OF assms(1)]
    by (auto simp: alloc_block_def with_block_def Let_def split: option.splits)
  then show ?thesis
    using new [OF s1] free_block_from_Some [OF b] data_invD(8) [OF assms(1)] True by (simp add: alloc_of_def)
qed

lemma alloc_of_with_block:
  assumes "ino < length (inode_table s)" "k < length (direct_offset (inode_table s ! ino))" "b < TOTAL_BLOCKS"
  shows "alloc_of (with_block ino k b s) ino' k' = (if ino' = ino \<and> k' = k then b else alloc_of s ino' k')"
  using assms unat_of_block [OF assms(3)] by (auto simp: alloc_of_def with_block_def nth_list_update)

lemma data_inv_with_block:
  assumes inv: "data_inv s" and ino: "ino < MAX_NUM_OF_FILES" and k: "k < NDIRECT"
    and b: "b < TOTAL_BLOCKS" "\<not> get_bit_at (used_block_bitmap s) b" "alloc_of s ino k = 0"
  shows "data_inv (with_block ino k b s)"
proof -
  let ?s = "with_block ino k b s"
  note D = data_invD [OF inv]
  have k': "k < length (direct_offset (inode_table s ! ino))" using D(4) [OF ino] k by (simp add: inode_blocks_ok_def)
  have al: "alloc_of ?s i m = (if i = ino \<and> m = k then b else alloc_of s i m)" for i m
    using alloc_of_with_block [of ino s k b] ino k' b(1) D(3) by simp
  have bits: "get_bit_at (used_block_bitmap ?s) j \<longleftrightarrow> j = b \<or> get_bit_at (used_block_bitmap s) j" for j
    using get_set_bit_at [of b "used_block_bitmap s" j] D(2) bitmap_index [OF b(1)] by (simp add: with_block_def)
  have unused: "alloc_of s i m \<noteq> b" if "i < MAX_NUM_OF_FILES" "m < NDIRECT" "b \<noteq> 0" for i m
    using D(6) [OF that(1,2)] b(2) that(3) by auto
  have blocks: "inode_blocks_ok (inode_table ?s ! i)" if "i < MAX_NUM_OF_FILES" for i
  proof -
    have "length (direct_offset (inode_table ?s ! i)) = NDIRECT"
      using D(4) [OF that] D(4) [OF ino] D(3) ino by (auto simp: with_block_def nth_list_update inode_blocks_ok_def)
    moreover have "alloc_of ?s i m < DISK_BLOCKS" if "m < NDIRECT" for m
      using D(5) \<open>i < MAX_NUM_OF_FILES\<close> that b(1) by (simp add: al TOTAL_DISK)
    ultimately show ?thesis by (simp add: inode_blocks_ok_def alloc_of_def)
  qed
  show ?thesis
    unfolding data_inv_def
  proof (intro conjI allI impI)
    fix i m i' m'
    assume "i < MAX_NUM_OF_FILES" "m < NDIRECT" "i' < MAX_NUM_OF_FILES" "m' < NDIRECT"
      "alloc_of ?s i m \<noteq> 0 \<and> alloc_of ?s i m = alloc_of ?s i' m'"
    then show "i = i'" "m = m'"
      using D(7) [of i m i' m'] unused [of i m] unused [of i' m'] by (auto simp: al split: if_splits)
  next
    fix i m
    assume "i < MAX_NUM_OF_FILES" "m < NDIRECT" "alloc_of ?s i m \<noteq> 0"
    then show "get_bit_at (used_block_bitmap ?s) (alloc_of ?s i m)"
      using D(6) [of i m] by (auto simp: al bits)
  qed (use D blocks in \<open>simp_all add: with_block_def\<close>)
qed

end
