(* ===== verification/FS_Mount.thy ===== *)
theory FS_Mount
  imports FS_Layout FS_Data
begin

text \<open>
  Making, mounting and unmounting a file system: \<open>make_fs\<close>, \<open>mount_fs\<close> and \<open>umount_fs\<close> of
  \<^verbatim>\<open>fs.c\<close>, and what survives an unmount followed by a mount.

  \<open>make_fs\<close> hands \<open>block_write\<close> the 8-byte superblock and the 1024-byte bitmap although a block has
  4096 bytes; what the transfer reads behind them is a parameter of the model.  A \<open>memcpy\<close> of
  \<open>mount_fs\<close> or \<open>umount_fs\<close> that leaves its array is undefined (\<open>None\<close>).
\<close>

section \<open>make\_fs\<close>

definition make_superblock :: super_block where
  "make_superblock =
     (let cnt = of_nat ((TOTAL_BLOCKS div CHAR_BIT + BLOCK_SIZE - 1) div BLOCK_SIZE); off = 1
      in \<lparr>used_block_bitmap_count = cnt, used_block_bitmap_offset = off,
          inode_metadata_blocks = of_nat ((SIZEOF_INODE * MAX_NUM_OF_FILES + BLOCK_SIZE - 1) div BLOCK_SIZE),
          inode_metadata_offset = off + cnt\<rparr>)"

text \<open>The loop over the bitmap, whose result the following \<open>memset\<close> erases.\<close>

definition init_bitmap :: "super_block \<Rightarrow> u8 list \<Rightarrow> u8 list" where
  "init_bitmap sb bm =
     map (\<lambda>_. 0) (foldl (\<lambda>b i. b[i := if i < unat (used_block_bitmap_offset sb) then 1 else 0]) bm
                    [0..<unat (inode_metadata_offset sb)])"

definition make_fs :: "(nat \<Rightarrow> u8) \<Rightarrow> (nat \<Rightarrow> u8) \<Rightarrow> string option \<Rightarrow> fs_state \<Rightarrow> int \<times> fs_state" where
  "make_fs adj_sb adj_bm name s =
     (case make_disk name (disk s) of (r, d1) \<Rightarrow>
        if r \<noteq> 0 then (-1, s\<lparr>disk := d1\<rparr>)
        else (case open_disk name d1 of (r, d2) \<Rightarrow>
          if r \<noteq> 0 then (-1, s\<lparr>disk := d2\<rparr>)
          else (let sb = make_superblock;
                    bm = init_bitmap sb (used_block_bitmap s);
                    s1 = s\<lparr>superblock := sb, used_block_bitmap := bm, inode_bitmap := map (\<lambda>_. 0) (inode_bitmap s)\<rparr>
                in case block_write 0 (enc_super_block sb @ map adj_sb [SIZEOF_SUPER_BLOCK..<BLOCK_SIZE]) d2 of (r, d3) \<Rightarrow>
                     if r \<noteq> 0 then (-1, s1\<lparr>disk := d3\<rparr>)
                     else (case block_write (uint (used_block_bitmap_offset sb)) (bm @ map adj_bm [length bm..<BLOCK_SIZE]) d3
                             of (r, d4) \<Rightarrow>
                               if r \<noteq> 0 then (-1, s1\<lparr>disk := d4\<rparr>)
                               else (case close_disk d4 of (r, d5) \<Rightarrow>
                                       if r \<noteq> 0 then (-1, s1\<lparr>disk := d5\<rparr>) else (0, s1\<lparr>disk := d5\<rparr>))))))"

section \<open>The inode table as memory\<close>

text \<open>
  The loops that move the inode table between memory and disk work on its bytes.  Block \<open>i\<close> goes to
  \<open>inode_table + i * (BLOCK_SIZE / sizeof(struct inode))\<close>, that is to inode \<open>i\<close>, and the 4096 bytes
  of one block overlap those of the next.
\<close>

definition inode_stride :: nat where
  "inode_stride = (BLOCK_SIZE div SIZEOF_INODE) * SIZEOF_INODE"

definition enc_inodes :: "inode list \<Rightarrow> u8 list" where
  "enc_inodes nds = cino.enc_array nds"

definition dec_inodes :: "u8 list \<Rightarrow> inode list" where
  "dec_inodes bs = cino.dec_array MAX_NUM_OF_FILES bs"

definition enc_directory :: "dir_entry list \<Rightarrow> u8 list" where
  "enc_directory es = cde.enc_array es"

definition dec_directory :: "u8 list \<Rightarrow> dir_entry list" where
  "dec_directory bs = cde.dec_array MAX_NUM_OF_FILES bs"

text \<open>\<open>load_inodes n i\<close> reads the blocks \<open>i, ..., i + n - 1\<close> of the table.\<close>

fun load_inodes :: "nat \<Rightarrow> nat \<Rightarrow> int \<Rightarrow> u8 list \<Rightarrow> u8 list \<Rightarrow> disk_state \<Rightarrow> (int \<times> u8 list \<times> u8 list \<times> disk_state) option" where
  "load_inodes 0 i off bh tbl d = Some (0, bh, tbl, d)"
| "load_inodes (Suc n) i off bh tbl d =
     (case block_read (off + int i) bh d of (r, bh', d') \<Rightarrow>
        if r = -1 then Some (-1, bh', tbl, d')
        else if i * inode_stride + BLOCK_SIZE > length tbl then None
        else load_inodes n (Suc i) off bh' (memcpy_at (i * inode_stride) bh' tbl) d')"

fun save_inodes :: "nat \<Rightarrow> nat \<Rightarrow> int \<Rightarrow> u8 list \<Rightarrow> disk_state \<Rightarrow> (int \<times> disk_state) option" where
  "save_inodes 0 i off tbl d = Some (0, d)"
| "save_inodes (Suc n) i off tbl d =
     (if i * inode_stride + BLOCK_SIZE > length tbl then None
      else (case block_write (off + int i) (take BLOCK_SIZE (drop (i * inode_stride) tbl)) d of (r, d') \<Rightarrow>
              if r = -1 then Some (-1, d') else save_inodes n (Suc i) off tbl d'))"

section \<open>mount\_fs and umount\_fs\<close>

definition mount_fs :: "string option \<Rightarrow> fs_state \<Rightarrow> (int \<times> fs_state) option" where
  "mount_fs name s =
     (if name = None then Some (-1, s)
      else (case open_disk name (disk s) of (r, d1) \<Rightarrow>
        if r = -1 then Some (-1, s\<lparr>disk := d1\<rparr>)
        else (case block_read 0 (replicate BLOCK_SIZE 0) d1 of (r, bh1, d2) \<Rightarrow>
          if r = -1 then Some (-1, s\<lparr>disk := snd (close_disk d2)\<rparr>)
          else (let sb = dec_super_block (take SIZEOF_SUPER_BLOCK bh1);
                    off = uint (inode_metadata_offset sb); s1 = s\<lparr>superblock := sb\<rparr>
                in case block_read (off + uint (inode_metadata_blocks sb)) bh1 d2 of (r, bh2, d3) \<Rightarrow>
                     if r = -1 then Some (-1, s1\<lparr>disk := snd (close_disk d3)\<rparr>)
                     else (let s2 = s1\<lparr>directory := dec_directory bh2\<rparr>
                           in case load_inodes (unat (inode_metadata_blocks sb)) 0 off bh2 (enc_inodes (inode_table s2)) d3 of
                                None \<Rightarrow> None
                              | Some (r, bh3, tbl, d4) \<Rightarrow>
                                  (let s3 = s2\<lparr>inode_table := dec_inodes tbl\<rparr>
                                   in if r = -1 then Some (-1, s3\<lparr>disk := snd (close_disk d4)\<rparr>)
                                      else (case block_read (uint (used_block_bitmap_offset sb)) bh3 d4 of (r, bh4, d5) \<Rightarrow>
                                              if r = -1 then Some (-1, s3\<lparr>disk := snd (close_disk d5)\<rparr>)
                                              else (let n = unat (used_block_bitmap_count sb)
                                                    in if n > length (used_block_bitmap s3) then None
                                                       else Some (0, s3\<lparr>
                                                         used_block_bitmap := memcpy_at 0 (take n bh4) (used_block_bitmap s3),
                                                         open_file_descriptors := map (\<lambda>_. \<lparr>fd_is_used = False,
                                                           fd_inode_number = -1, fd_offset = 0\<rparr>) (open_file_descriptors s3),
                                                         open_disk_fd := 0, disk := d5\<rparr>))))))))) "

definition umount_fs :: "string option \<Rightarrow> fs_state \<Rightarrow> (int \<times> fs_state) option" where
  "umount_fs name s =
     (if name = None then Some (-1, s)
      else (let bh = memcpy_at 0 (enc_super_block (superblock s)) (replicate BLOCK_SIZE 0);
                off = uint (inode_metadata_offset (superblock s)); blocks = inode_metadata_blocks (superblock s)
            in case block_write 0 bh (disk s) of (r, d1) \<Rightarrow>
                 if r = -1 then Some (-1, s\<lparr>disk := snd (close_disk d1)\<rparr>)
                 else (case block_write (off + uint blocks) (memcpy_at 0 (enc_directory (directory s)) bh) d1 of (r, d2) \<Rightarrow>
                   if r = -1 then Some (-1, s\<lparr>disk := snd (close_disk d2)\<rparr>)
                   else (case save_inodes (unat blocks) 0 off (enc_inodes (inode_table s)) d2 of
                           None \<Rightarrow> None
                         | Some (r, d3) \<Rightarrow>
                             if r = -1 then Some (-1, s\<lparr>disk := snd (close_disk d3)\<rparr>)
                             else (let s1 = s\<lparr>open_file_descriptors := map (\<lambda>f. if fd_is_used f
                                          then \<lparr>fd_is_used = False, fd_inode_number = -1, fd_offset = 0\<rparr> else f)
                                          (open_file_descriptors s)\<rparr>
                                   in case close_disk d3 of (r, d4) \<Rightarrow>
                                        if r = -1 then Some (-1, s1\<lparr>disk := d4\<rparr>)
                                        else Some (0, s1\<lparr>open_disk_fd := -1, disk := d4\<rparr>))))))"

section \<open>The loops over the inode table\<close>

lemma inode_stride_eq: "inode_stride = SIZEOF_INODE"
  by (simp add: inode_stride_def BLOCK_SIZE_def SIZEOF_INODE_def)

definition table_slice :: "u8 list \<Rightarrow> nat \<Rightarrow> u8 list" where
  "table_slice tbl i = take BLOCK_SIZE (drop (i * inode_stride) tbl)"

lemma length_table_slice: "i * inode_stride + BLOCK_SIZE \<le> length tbl \<Longrightarrow> length (table_slice tbl i) = BLOCK_SIZE"
  by (simp add: table_slice_def)

lemma nth_table_slice:
  "i * inode_stride + BLOCK_SIZE \<le> length tbl \<Longrightarrow> q < BLOCK_SIZE \<Longrightarrow> table_slice tbl i ! q = tbl ! (i * inode_stride + q)"
  by (simp add: table_slice_def)

definition table_blocks :: "nat \<Rightarrow> u8 list \<Rightarrow> nat \<Rightarrow> nat \<Rightarrow> (nat \<times> u8 list) list" where
  "table_blocks off tbl i n = map (\<lambda>j. (off + j, table_slice tbl j)) [i..<i + n]"

lemma slice_fits:
  assumes "j < i + n" "i + n = 0 \<or> (i + n - 1) * inode_stride + BLOCK_SIZE \<le> length tbl"
  shows "j * inode_stride + BLOCK_SIZE \<le> length tbl"
proof -
  have "j * inode_stride \<le> (i + n - 1) * inode_stride" using assms(1) by (intro mult_le_mono1) simp
  then show ?thesis using assms by linarith
qed

lemma writable_table_blocks:
  assumes "off + i + n \<le> DISK_BLOCKS" "i + n = 0 \<or> (i + n - 1) * inode_stride + BLOCK_SIZE \<le> length tbl"
  shows "dsk.writable (table_blocks off tbl i n)"
  using assms slice_fits [OF _ assms(2)] by (auto simp: dsk.writable_def table_blocks_def list_all_iff length_table_slice)

lemma save_inodes_ok:
  assumes "disk_ok d" "off + i + n \<le> DISK_BLOCKS" "i + n = 0 \<or> (i + n - 1) * inode_stride + BLOCK_SIZE \<le> length tbl"
  shows "save_inodes n i (int off) tbl d = Some (0, dsk.put_all (table_blocks off tbl i n) d)"
  using assms
proof (induction n arbitrary: i d)
  case 0
  then show ?case by (simp add: table_blocks_def)
next
  case (Suc n)
  let ?buf = "table_slice tbl i"
  have fits: "i * inode_stride + BLOCK_SIZE \<le> length tbl" using slice_fits [OF _ Suc.prems(3)] by simp
  then have len: "length ?buf = BLOCK_SIZE" by (rule length_table_slice)
  have b: "off + i < DISK_BLOCKS" using Suc.prems(2) by simp
  have "block_write (int off + int i) ?buf d = (0, put_block (off + i) ?buf d)"
    using block_write_ok(1) [OF Suc.prems(1) b len] by simp
  moreover have "save_inodes n (Suc i) (int off) tbl (put_block (off + i) ?buf d) =
      Some (0, dsk.put_all (table_blocks off tbl (Suc i) n) (put_block (off + i) ?buf d))"
    using Suc.prems dsk.ok_put [OF Suc.prems(1) b len] by (intro Suc.IH) simp_all
  moreover have "table_blocks off tbl i (Suc n) = (off + i, ?buf) # table_blocks off tbl (Suc i) n"
    by (simp add: table_blocks_def upt_conv_Cons del: upt_Suc)
  ultimately show ?case using fits by (simp add: table_slice_def)
qed

text \<open>How much of the table the first blocks cover.\<close>

definition covered :: "nat \<Rightarrow> nat" where
  "covered n = (if n = 0 then 0 else (n - 1) * inode_stride + BLOCK_SIZE)"

lemma load_inodes_ok:
  assumes "disk_ok d" "off + i + n \<le> DISK_BLOCKS" "covered (i + n) \<le> length T" "length tbl = length T"
    "length bh = BLOCK_SIZE" "\<And>j. i \<le> j \<Longrightarrow> j < i + n \<Longrightarrow> disk_block d (off + j) = table_slice T j"
    "\<And>q. q < covered i \<or> A q \<Longrightarrow> q < length T \<Longrightarrow> tbl ! q = T ! q"
  shows "\<exists>bh' tbl' d'. load_inodes n i (int off) bh tbl d = Some (0, bh', tbl', d') \<and> length bh' = BLOCK_SIZE \<and>
    length tbl' = length T \<and> (\<forall>q < length T. q < covered (i + n) \<or> A q \<longrightarrow> tbl' ! q = T ! q) \<and> disk_ok d' \<and>
    disk_block d' = disk_block d \<and> files d' = files d \<and> handle d' = handle d"
  using assms
proof (induction n arbitrary: i bh tbl d)
  case 0
  then show ?case by simp
next
  case (Suc n)
  let ?blk = "table_slice T i" and ?tbl = "memcpy_at (i * inode_stride) (table_slice T i) tbl"
  have fits: "i * inode_stride + BLOCK_SIZE \<le> length T"
    using Suc.prems(3) slice_fits [of i i "Suc n" T] by (simp add: covered_def)
  have len: "length ?blk = BLOCK_SIZE" using fits by (rule length_table_slice)
  have b: "off + i < DISK_BLOCKS" using Suc.prems(2) by simp
  have rd: "block_read (int off + int i) bh d = (0, ?blk, tick (tick d))"
    using block_read_ok [OF Suc.prems(1) b Suc.prems(5)] Suc.prems(6) [of i] by simp
  have agree: "?tbl ! q = T ! q" if "q < covered (Suc i) \<or> A q" "q < length T" for q
  proof (cases "i * inode_stride \<le> q \<and> q < i * inode_stride + BLOCK_SIZE")
    case True
    then have "q - i * inode_stride < BLOCK_SIZE" by linarith
    then show ?thesis
      using True that(2) fits len Suc.prems(4) nth_table_slice [OF fits] by (simp add: nth_memcpy_at)
  next
    case False
    then have "q < covered i \<or> A q"
      using that(1) by (cases i) (auto simp: covered_def inode_stride_eq SIZEOF_INODE_def BLOCK_SIZE_def)
    then have "tbl ! q = T ! q" using Suc.prems(7) that(2) by blast
    then show ?thesis using False that(2) fits len Suc.prems(4) by (auto simp: nth_memcpy_at)
  qed
  have "\<exists>bh' tbl' d'. load_inodes n (Suc i) (int off) ?blk ?tbl (tick (tick d)) = Some (0, bh', tbl', d') \<and>
      length bh' = BLOCK_SIZE \<and> length tbl' = length T \<and> (\<forall>q < length T. q < covered (Suc i + n) \<or> A q \<longrightarrow> tbl' ! q = T ! q) \<and> disk_ok d' \<and>
      disk_block d' = disk_block (tick (tick d)) \<and> files d' = files (tick (tick d)) \<and> handle d' = handle (tick (tick d))"
    using Suc.prems fits len agree by (intro Suc.IH) simp_all
  then show ?case using rd fits Suc.prems(4) by simp
qed


section \<open>What an unmount stores\<close>

text \<open>
  Superblocks whose metadata fits the disk and the memory of the tables.  These fields are set by
  \<open>make_fs\<close> and never change; \<open>used_block_bitmap_count\<close> does, and is not restricted here.
\<close>

definition sb_fits :: "super_block \<Rightarrow> bool" where
  "sb_fits sb \<longleftrightarrow> 0 < unat (inode_metadata_offset sb) \<and>
     unat (inode_metadata_offset sb) + unat (inode_metadata_blocks sb) < DISK_BLOCKS \<and>
     covered (unat (inode_metadata_blocks sb)) \<le> MAX_NUM_OF_FILES * SIZEOF_INODE \<and>
     0 < unat (used_block_bitmap_offset sb) \<and> unat (used_block_bitmap_offset sb) < unat (inode_metadata_offset sb)"

lemma unat_u16: "n < 65536 \<Longrightarrow> unat (of_nat n :: u16) = n"
  by (simp add: unat_of_nat)

lemma make_superblock_fields:
  "unat (used_block_bitmap_count make_superblock) = 1" "unat (used_block_bitmap_offset make_superblock) = 1"
  "unat (inode_metadata_blocks make_superblock) = 33" "unat (inode_metadata_offset make_superblock) = 2"
  by (simp_all add: make_superblock_def Let_def TOTAL_BLOCKS_def CHAR_BIT_def BLOCK_SIZE_def SIZEOF_INODE_def
      MAX_NUM_OF_FILES_def)

lemma make_superblock_fits: "sb_fits make_superblock"
  unfolding sb_fits_def make_superblock_fields
  by (simp add: covered_def inode_stride_eq DISK_BLOCKS_def SIZEOF_INODE_def BLOCK_SIZE_def MAX_NUM_OF_FILES_def
      TOTAL_BLOCKS_def CHAR_BIT_def)

lemma wf_inode_valid: "wf_inode nd \<Longrightarrow> valid_inode nd"
  by (simp add: wf_inode_def valid_inode_def)

lemma wf_dir_entry_valid: "wf_dir_entry e \<Longrightarrow> valid_dir_entry e"
  by (simp add: wf_dir_entry_def valid_dir_entry_def is_c_int_def INT_MIN_def INT_MAX_def MAX_NUM_OF_FILES_def)

lemma list_all_imp: "list_all P xs \<Longrightarrow> (\<And>x. P x \<Longrightarrow> Q x) \<Longrightarrow> list_all Q xs"
  by (auto simp: list_all_iff)

lemma enc_tables:
  assumes "wf_tables s"
  shows "length (enc_inodes (inode_table s)) = MAX_NUM_OF_FILES * SIZEOF_INODE"
    "length (enc_directory (directory s)) = MAX_NUM_OF_FILES * SIZEOF_DIR_ENTRY"
    "dec_directory (enc_directory (directory s) @ ys) = directory s"
proof -
  have v: "list_all valid_inode (inode_table s)" "list_all valid_dir_entry (directory s)"
    and l: "length (inode_table s) = MAX_NUM_OF_FILES" "length (directory s) = MAX_NUM_OF_FILES"
    using assms list_all_imp [OF _ wf_inode_valid] list_all_imp [OF _ wf_dir_entry_valid] by (auto simp: wf_tables_def)
  show "length (enc_inodes (inode_table s)) = MAX_NUM_OF_FILES * SIZEOF_INODE"
    "length (enc_directory (directory s)) = MAX_NUM_OF_FILES * SIZEOF_DIR_ENTRY"
    using v l by (simp_all add: enc_inodes_def enc_directory_def cino.length_enc_array cde.length_enc_array)
  show "dec_directory (enc_directory (directory s) @ ys) = directory s"
    using cde.dec_enc_array [OF v(2)] l(2) by (simp add: dec_directory_def enc_directory_def)
qed

text \<open>The blocks that \<open>umount_fs\<close> writes, in order.\<close>

definition super_image :: "fs_state \<Rightarrow> u8 list" where
  "super_image s = memcpy_at 0 (enc_super_block (superblock s)) (replicate BLOCK_SIZE 0)"

definition dir_image :: "fs_state \<Rightarrow> u8 list" where
  "dir_image s = memcpy_at 0 (enc_directory (directory s)) (super_image s)"

definition umount_blocks :: "fs_state \<Rightarrow> (nat \<times> u8 list) list" where
  "umount_blocks s =
     (let off = unat (inode_metadata_offset (superblock s)); n = unat (inode_metadata_blocks (superblock s))
      in (0, super_image s) # (off + n, dir_image s) # table_blocks off (enc_inodes (inode_table s)) 0 n)"

lemma images:
  assumes "wf_tables s"
  shows "length (super_image s) = BLOCK_SIZE" "length (dir_image s) = BLOCK_SIZE"
    "dec_super_block (take SIZEOF_SUPER_BLOCK (super_image s)) = superblock s"
    "dec_directory (dir_image s) = directory s"
proof -
  have l: "length (enc_super_block (superblock s)) = SIZEOF_SUPER_BLOCK" by (simp add: csb.length_enc)
  then show si: "length (super_image s) = BLOCK_SIZE"
    by (simp add: super_image_def SIZEOF_SUPER_BLOCK_def BLOCK_SIZE_def)
  show "dec_super_block (take SIZEOF_SUPER_BLOCK (super_image s)) = superblock s"
    using l by (simp add: super_image_def memcpy_at_def csb.dec_enc)
  show "length (dir_image s) = BLOCK_SIZE"
    using si enc_tables(2) [OF assms]
    by (simp add: dir_image_def MAX_NUM_OF_FILES_def SIZEOF_DIR_ENTRY_def BLOCK_SIZE_def)
  show "dec_directory (dir_image s) = directory s"
    using enc_tables(3) [OF assms] by (simp add: dir_image_def memcpy_at_def)
qed

lemma uint_unat: "uint (w :: 'a::len word) = int (unat w)"
  by simp

lemma umount_blocks_ok:
  assumes "wf_tables s" "sb_fits (superblock s)"
  shows "dsk.writable (umount_blocks s)" "distinct (map fst (umount_blocks s))"
proof -
  let ?off = "unat (inode_metadata_offset (superblock s))" and ?n = "unat (inode_metadata_blocks (superblock s))"
  let ?T = "enc_inodes (inode_table s)"
  have "0 + ?n = 0 \<or> (0 + ?n - 1) * inode_stride + BLOCK_SIZE \<le> length ?T"
    using assms(2) enc_tables(1) [OF assms(1)] by (auto simp: sb_fits_def covered_def split: if_splits)
  then have "dsk.writable (table_blocks ?off ?T 0 ?n)"
    using assms(2) by (intro writable_table_blocks) (auto simp: sb_fits_def)
  then show "dsk.writable (umount_blocks s)"
    using assms images [OF assms(1)] by (simp add: umount_blocks_def Let_def dsk.writable_def sb_fits_def)
  have "map fst (table_blocks ?off ?T 0 ?n) = map (\<lambda>j. ?off + j) [0..<?n]" by (simp add: table_blocks_def)
  then show "distinct (map fst (umount_blocks s))"
    using assms(2) by (auto simp: umount_blocks_def Let_def sb_fits_def distinct_map inj_on_def)
qed

lemma umount_fs_ok:
  assumes "wf_tables s" "sb_fits (superblock s)" "disk_ok (disk s)"
  shows "umount_fs (Some nm) s = Some (0, s\<lparr>open_file_descriptors := map (\<lambda>f. if fd_is_used f
      then \<lparr>fd_is_used = False, fd_inode_number = -1, fd_offset = 0\<rparr> else f) (open_file_descriptors s),
      open_disk_fd := -1, disk := (dsk.put_all (umount_blocks s) (disk s))\<lparr>handle := None, active := False\<rparr>\<rparr>)"
proof -
  let ?off = "unat (inode_metadata_offset (superblock s))" and ?n = "unat (inode_metadata_blocks (superblock s))"
  let ?T = "enc_inodes (inode_table s)"
  let ?d1 = "put_block 0 (super_image s) (disk s)" let ?d2 = "put_block (?off + ?n) (dir_image s) ?d1"
  let ?d3 = "dsk.put_all (table_blocks ?off ?T 0 ?n) ?d2"
  note I = images [OF assms(1)]
  have lt: "0 < DISK_BLOCKS" "?off + ?n < DISK_BLOCKS" using assms(2) by (auto simp: sb_fits_def)
  have ok1: "disk_ok ?d1" using dsk.ok_put [OF assms(3) lt(1) I(1)] .
  have ok2: "disk_ok ?d2" using dsk.ok_put [OF ok1 lt(2) I(2)] .
  have w1: "block_write 0 (super_image s) (disk s) = (0, ?d1)"
    using block_write_ok(1) [OF assms(3) lt(1) I(1)] by simp
  have w2: "block_write (int ?off + int ?n) (dir_image s) ?d1 = (0, ?d2)"
    using block_write_ok(1) [OF ok1 lt(2) I(2)] by simp
  have fits: "0 + ?n = 0 \<or> (0 + ?n - 1) * inode_stride + BLOCK_SIZE \<le> length ?T"
    using assms(2) enc_tables(1) [OF assms(1)] by (auto simp: sb_fits_def covered_def split: if_splits)
  have w3: "save_inodes ?n 0 (int ?off) ?T ?d2 = Some (0, ?d3)"
    using lt(2) fits by (intro save_inodes_ok [OF ok2]) simp_all
  have all: "dsk.put_all (umount_blocks s) (disk s) = ?d3" by (simp add: umount_blocks_def Let_def)
  have "disk_ok ?d3" using dsk.ok_put_all [OF assms(3) umount_blocks_ok(1) [OF assms(1,2)]] by (simp add: all)
  then have c: "close_disk ?d3 = (0, ?d3\<lparr>handle := None, active := False\<rparr>)"
    by (simp add: close_disk_def disk_ok_def)
  show ?thesis
    unfolding umount_fs_def Let_def super_image_def [symmetric] dir_image_def [symmetric]
    by (simp add: w1 w2 [folded uint_unat] w3 [folded uint_unat] c all)
qed


section \<open>Mounting what was unmounted\<close>

lemma put_all_frame:
  "disk_ok d \<Longrightarrow> dsk.writable ps \<Longrightarrow> handle (dsk.put_all ps d) = handle d"
  by (induction ps arbitrary: d) (auto simp: dsk.writable_def dsk.ok_put block_write_ok)

lemma disk_block_cong: "disk_contents d' = disk_contents d \<Longrightarrow> disk_block d' = disk_block d"
  by (simp add: fun_eq_iff disk_block_def)

lemma reopen_disk:
  assumes "disk_ok d" "handle d = Some nm" "d0 = d\<lparr>handle := None, active := False\<rparr>"
  obtains d' where "open_disk (Some nm) d0 = (0, d')" "disk_ok d'" "disk_block d' = disk_block d" "files d' = files d"
proof -
  have "files d nm = Some (disk_contents d)" using disk_ok_handle [OF assms(1)] assms(2) by force
  then have "files d0 nm = Some (disk_contents d)" "fault_free d0" "\<not> active d0" "files d0 = files d"
    using assms by (simp_all add: disk_ok_def)
  then show ?thesis
    using open_disk_ok [of d0 nm "disk_contents d"] that assms(1) disk_block_cong by (metis disk_ok_def)
qed

text \<open>Inode \<open>j\<close> decoded from a table that agrees with an encoded one on its bytes.\<close>

lemma dec_inodes_agree:
  assumes "wf_tables s" "length tbl = length (enc_inodes (inode_table s))"
    "\<And>q. q < covered n \<Longrightarrow> tbl ! q = enc_inodes (inode_table s) ! q" "j < n" "covered n \<le> length tbl"
    "j < MAX_NUM_OF_FILES"
  shows "dec_inodes tbl ! j = inode_table s ! j"
proof -
  let ?T = "enc_inodes (inode_table s)"
  have len: "length ?T = MAX_NUM_OF_FILES * SIZEOF_INODE" by (rule enc_tables(1) [OF assms(1)])
  have "(j + 1) * SIZEOF_INODE \<le> MAX_NUM_OF_FILES * SIZEOF_INODE" using assms(6) by (intro mult_le_mono1) simp
  then have in_tbl: "j * SIZEOF_INODE + SIZEOF_INODE \<le> length ?T" using len by simp
  have "j * SIZEOF_INODE \<le> (n - 1) * SIZEOF_INODE" using assms(4) by (intro mult_le_mono1) simp
  then have cov: "j * SIZEOF_INODE + SIZEOF_INODE \<le> covered n"
    using assms(4) by (simp add: covered_def inode_stride_eq SIZEOF_INODE_def BLOCK_SIZE_def)
  have "take SIZEOF_INODE (drop (j * SIZEOF_INODE) tbl) = take SIZEOF_INODE (drop (j * SIZEOF_INODE) ?T)"
    using assms(2,3) in_tbl cov by (intro nth_equalityI) auto
  moreover have "list_all valid_inode (inode_table s)" "j < length (inode_table s)"
    using assms(1,6) list_all_imp [OF _ wf_inode_valid] by (auto simp: wf_tables_def)
  moreover from this have "valid_inode (inode_table s ! j)" by (simp add: list_all_length)
  ultimately show ?thesis
    using cino.enc_array_slice [of "inode_table s" j "[]"] assms(6) cino.dec_enc
    by (simp add: dec_inodes_def cino.dec_array_def enc_inodes_def)
qed

definition remounted :: "fs_state \<Rightarrow> fs_state \<Rightarrow> fs_state \<Rightarrow> bool" where
  "remounted s s0 s2 \<longleftrightarrow> superblock s2 = superblock s \<and> directory s2 = directory s \<and>
     (\<forall>j < unat (inode_metadata_blocks (superblock s)). inode_table s2 ! j = inode_table s ! j) \<and>
     open_disk_fd s2 = 0 \<and> (\<forall>f \<in> set (open_file_descriptors s2). \<not> fd_is_used f) \<and>
     used_block_bitmap s2 = memcpy_at 0 (take (unat (used_block_bitmap_count (superblock s)))
       (disk_block (disk s) (unat (used_block_bitmap_offset (superblock s))))) (used_block_bitmap s0) \<and>
     disk_ok (disk s2) \<and>
     (\<forall>b < DISK_BLOCKS. b \<notin> fst ` set (umount_blocks s) \<longrightarrow> disk_block (disk s2) b = disk_block (disk s) b)"

lemma mount_umounted:
  assumes wf: "wf_tables s" and sb: "sb_fits (superblock s)" and ok: "disk_ok (disk s)" and h: "handle (disk s) = Some nm"
    and wf0: "wf_tables s0"
    and d0: "disk s0 = (dsk.put_all (umount_blocks s) (disk s))\<lparr>handle := None, active := False\<rparr>"
  shows "if unat (used_block_bitmap_count (superblock s)) \<le> TOTAL_BLOCKS div CHAR_BIT
    then \<exists>s2. mount_fs (Some nm) s0 = Some (0, s2) \<and> remounted s s0 s2
    else mount_fs (Some nm) s0 = None"
proof -
  let ?off = "unat (inode_metadata_offset (superblock s))" and ?n = "unat (inode_metadata_blocks (superblock s))"
  let ?bo = "unat (used_block_bitmap_offset (superblock s))" and ?T = "enc_inodes (inode_table s)"
  let ?D = "dsk.put_all (umount_blocks s) (disk s)"
  note W = umount_blocks_ok [OF wf sb] and I = images [OF wf]
  note get = dsk.get_put_all [OF ok W]
  have okD: "disk_ok ?D" using dsk.ok_put_all [OF ok W(1)] .
  have lt: "?off + ?n < DISK_BLOCKS" "0 < ?off" "0 < ?bo" "?bo < ?off" using sb by (auto simp: sb_fits_def)
  obtain d1 where d1: "open_disk (Some nm) (disk s0) = (0, d1)" "disk_ok d1" "disk_block d1 = disk_block ?D"
    using reopen_disk [OF okD _ d0] put_all_frame [OF ok W(1)] h by auto
  have b0: "disk_block d1 0 = super_image s" and bd: "disk_block d1 (?off + ?n) = dir_image s"
    using get by (simp_all add: d1(3) umount_blocks_def Let_def)
  have bi: "disk_block d1 (?off + j) = table_slice ?T j" if "j < ?n" for j
    using get [of "?off + j" "table_slice ?T j"] that by (auto simp: d1(3) umount_blocks_def table_blocks_def Let_def)
  have r1: "block_read 0 (replicate BLOCK_SIZE 0) d1 = (0, super_image s, tick (tick d1))"
    using block_read_ok [OF d1(2), of 0 "replicate BLOCK_SIZE 0"] b0 by simp
  let ?d2 = "tick (tick d1)" and ?d3 = "tick (tick (tick (tick d1)))"
  have r2: "block_read (uint (inode_metadata_offset (superblock s)) + uint (inode_metadata_blocks (superblock s)))
      (super_image s) ?d2 = (0, dir_image s, ?d3)"
    using block_read_ok [of ?d2 "?off + ?n" "super_image s"] d1(2) lt(1) I(1) bd by simp
  have cov: "covered (0 + ?n) \<le> length ?T" using sb enc_tables(1) [OF wf] by (simp add: sb_fits_def)
  have "\<exists>bh' tbl' d'. load_inodes ?n 0 (int ?off) (dir_image s) (enc_inodes (inode_table s0)) ?d3 = Some (0, bh', tbl', d') \<and>
      length bh' = BLOCK_SIZE \<and> length tbl' = length ?T \<and> (\<forall>q < length ?T. q < covered (0 + ?n) \<or> False \<longrightarrow> tbl' ! q = ?T ! q) \<and> disk_ok d' \<and>
      disk_block d' = disk_block ?d3 \<and> files d' = files ?d3 \<and> handle d' = handle ?d3"
    using d1(2) lt(1) cov enc_tables(1) [OF wf] enc_tables(1) [OF wf0] I(2) bi
    by (intro load_inodes_ok [where A = "\<lambda>_. False"]) (simp_all add: covered_def)
  then obtain bh tbl d4 where r3: "load_inodes ?n 0 (uint (inode_metadata_offset (superblock s))) (dir_image s)
      (enc_inodes (inode_table s0)) ?d3 = Some (0, bh, tbl, d4)" "length bh = BLOCK_SIZE" "length tbl = length ?T"
    "\<forall>q < length ?T. q < covered ?n \<longrightarrow> tbl ! q = ?T ! q" "disk_ok d4" "disk_block d4 = disk_block d1"
    by auto
  have bo: "?bo \<notin> fst ` set (umount_blocks s)"
    using lt by (auto simp: umount_blocks_def table_blocks_def Let_def)
  have r4: "block_read (uint (used_block_bitmap_offset (superblock s))) bh d4 =
      (0, disk_block (disk s) ?bo, tick (tick d4))"
    using block_read_ok [OF r3(5), of ?bo bh] r3(2,6) lt d1(3) dsk.get_put_all_other [OF ok W(1) _ bo] by simp
  have cnt: "length (used_block_bitmap s0) = TOTAL_BLOCKS div CHAR_BIT" using wf0 by (simp add: wf_tables_def)
  have other: "disk_block d4 b = disk_block (disk s) b" if "b < DISK_BLOCKS" "b \<notin> fst ` set (umount_blocks s)" for b
    using dsk.get_put_all_other [OF ok W(1) that] r3(6) d1(3) by simp
  have "covered ?n \<le> MAX_NUM_OF_FILES * SIZEOF_INODE" using sb by (simp add: sb_fits_def)
  then have n: "?n \<le> MAX_NUM_OF_FILES"
    by (cases ?n) (auto simp: covered_def inode_stride_eq SIZEOF_INODE_def BLOCK_SIZE_def)
  have nodes: "dec_inodes tbl ! j = inode_table s ! j" if "j < ?n" for j
    using dec_inodes_agree [OF wf r3(3), of ?n j] r3(3,4) that n cov by simp
  show ?thesis
    using d1(1) r1 r2 r3(1,5) r4 cnt I(3,4) nodes other
    by (auto simp: mount_fs_def Let_def remounted_def)
qed

end
