(* ===== verification/FS_Write.thy ===== *)
theory FS_Write
  imports FS_Data
begin

text \<open>
  What \<open>fs_write\<close> does to the bytes of the files, on a disk without faults.  A file is seen as a
  partial function from positions to bytes, defined where a block is allocated; \<open>wrote\<close> says that
  a write changed one range of one file and nothing else, and \<open>write_post\<close> adds what happens to the
  descriptor and the size.
\<close>

section \<open>Files as partial functions\<close>

definition file_at :: "fs_state \<Rightarrow> nat \<Rightarrow> nat \<Rightarrow> u8 option" where
  "file_at s ino p = (if alloc_of s ino (p div BLOCK_SIZE) = 0 then None else Some (file_byte s ino p))"

definition wrote :: "nat \<Rightarrow> nat \<Rightarrow> u8 list \<Rightarrow> fs_state \<Rightarrow> fs_state \<Rightarrow> bool" where
  "wrote ino P data s s' \<longleftrightarrow>
     (\<forall>i < length data. file_at s' ino (P + i) = Some (data ! i)) \<and>
     (\<forall>ino' < MAX_NUM_OF_FILES. \<forall>p < MAX_FILESIZE.
        (ino' \<noteq> ino \<or> p < P \<or> P + length data \<le> p) \<and> file_at s ino' p \<noteq> None \<longrightarrow>
        file_at s' ino' p = file_at s ino' p)"

lemma wrote_Nil: "wrote ino P [] s s"
  by (simp add: wrote_def)

lemma wrote_append:
  assumes "wrote ino P xs s s1" "wrote ino (P + length xs) ys s1 s2"
    "ino < MAX_NUM_OF_FILES" "P + length xs \<le> MAX_FILESIZE"
  shows "wrote ino P (xs @ ys) s s2"
  unfolding wrote_def
proof (intro conjI allI impI)
  fix i assume i: "i < length (xs @ ys)"
  show "file_at s2 ino (P + i) = Some ((xs @ ys) ! i)"
  proof (cases "i < length xs")
    case True
    then have "file_at s1 ino (P + i) = Some (xs ! i)" using assms(1) by (simp add: wrote_def)
    moreover have "P + i < MAX_FILESIZE" using True assms(4) by simp
    ultimately show ?thesis using True assms(2,3) by (simp add: wrote_def nth_append)
  next
    case False
    then obtain j where "i = length xs + j" using le_Suc_ex not_less by blast
    then show ?thesis using i assms(2) by (auto simp: wrote_def add.assoc)
  qed
next
  fix ino' p
  assume *: "ino' < MAX_NUM_OF_FILES" "p < MAX_FILESIZE"
    "(ino' \<noteq> ino \<or> p < P \<or> P + length (xs @ ys) \<le> p) \<and> file_at s ino' p \<noteq> None"
  then have "file_at s1 ino' p = file_at s ino' p" using assms(1) by (auto simp: wrote_def)
  with * show "file_at s2 ino' p = file_at s ino' p" using assms(2) by (auto simp: wrote_def)
qed

text \<open>The bytes of the files depend on the block pointers and the disk only.\<close>

lemma file_at_cong:
  assumes "direct_offset (inode_table s' ! ino) = direct_offset (inode_table s ! ino)"
    "disk_block (disk s') = disk_block (disk s)"
  shows "file_at s' ino p = file_at s ino p"
  using assms by (simp add: file_at_def alloc_of_def file_byte_def inode_byte_def)

lemma wrote_cong:
  assumes "\<And>i. i < MAX_NUM_OF_FILES \<Longrightarrow> direct_offset (inode_table s2 ! i) = direct_offset (inode_table s1 ! i)"
    "disk_block (disk s2) = disk_block (disk s1)" "ino < MAX_NUM_OF_FILES" "wrote ino P xs s s1"
  shows "wrote ino P xs s s2"
proof -
  have "file_at s2 i p = file_at s1 i p" if "i < MAX_NUM_OF_FILES" for i p
    using file_at_cong assms(1) [OF that] assms(2) by blast
  then show ?thesis using assms(3,4) unfolding wrote_def by simp
qed

section \<open>One round of the loop\<close>

lemma block_pos: "i < BLOCK_SIZE \<Longrightarrow> (k * BLOCK_SIZE + i) div BLOCK_SIZE = k \<and> (k * BLOCK_SIZE + i) mod BLOCK_SIZE = i"
  by simp

lemma pos_in_block: "p div BLOCK_SIZE = k \<Longrightarrow> p = k * BLOCK_SIZE + p mod BLOCK_SIZE"
  by (metis div_mult_mod_eq)

lemma pos_index: "p < MAX_FILESIZE \<Longrightarrow> p div BLOCK_SIZE < NDIRECT"
  by (simp add: less_mult_imp_div_less NDIRECT_bytes)

text \<open>Overwriting a slice of the block that holds entry \<open>k\<close> of a file.\<close>

lemma wrote_block:
  assumes inv: "data_inv s" and ino: "ino < MAX_NUM_OF_FILES" and k: "k < NDIRECT"
    and b: "alloc_of s ino k = b" "b \<noteq> 0" and fits: "boff + length chunk \<le> BLOCK_SIZE"
    and d: "disk_ok d" "disk_block d = disk_block (disk s)"
    and blk: "blk = memcpy_at boff chunk (disk_block (disk s) b)"
  shows "wrote ino (k * BLOCK_SIZE + boff) chunk s (s\<lparr>disk := put_block b blk d\<rparr>)"
    and "data_inv (s\<lparr>disk := put_block b blk d\<rparr>)"
proof -
  note D = data_invD [OF inv]
  let ?s = "s\<lparr>disk := put_block b blk d\<rparr>"
  have blt: "b < DISK_BLOCKS" using D(5) [OF ino k] b by simp
  have oldlen: "length (disk_block (disk s) b) = BLOCK_SIZE" using dsk.length_get D(1) blt by blast
  then have len: "length blk = BLOCK_SIZE" using fits blk by simp
  have get: "disk_block (put_block b blk d) c = (if c = b then blk else disk_block (disk s) c)" if "c < DISK_BLOCKS" for c
    using dsk.get_put [OF d(1) blt that len] d(2) by simp
  show "data_inv ?s" using inv dsk.ok_put [OF d(1) blt len] by (intro data_inv_cong [of ?s s]) simp_all
  have alloc: "alloc_of ?s i m = alloc_of s i m" for i m by (simp add: alloc_of_def)
  have byte: "file_byte ?s i p = disk_block (put_block b blk d) (alloc_of s i (p div BLOCK_SIZE)) ! (p mod BLOCK_SIZE)" for i p
    by (simp add: file_byte_def inode_byte_def alloc_of_def)
  have byte0: "file_byte s i p = disk_block (disk s) (alloc_of s i (p div BLOCK_SIZE)) ! (p mod BLOCK_SIZE)" for i p
    by (simp add: file_byte_def inode_byte_def alloc_of_def)
  show "wrote ino (k * BLOCK_SIZE + boff) chunk s ?s"
    unfolding wrote_def
  proof (intro conjI allI impI)
    fix i assume i: "i < length chunk"
    then have "boff + i < BLOCK_SIZE" using fits by simp
    then have pos: "(k * BLOCK_SIZE + boff + i) div BLOCK_SIZE = k" "(k * BLOCK_SIZE + boff + i) mod BLOCK_SIZE = boff + i"
      using block_pos [of "boff + i" k] by (simp_all add: add.assoc)
    have "blk ! (boff + i) = chunk ! i" using i fits oldlen by (simp add: blk nth_memcpy_at)
    then show "file_at ?s ino (k * BLOCK_SIZE + boff + i) = Some (chunk ! i)"
      using pos b get [OF blt] by (simp add: file_at_def alloc byte)
  next
    fix ino' p
    assume ino': "ino' < MAX_NUM_OF_FILES" and p: "p < MAX_FILESIZE" and
      out: "(ino' \<noteq> ino \<or> p < k * BLOCK_SIZE + boff \<or> k * BLOCK_SIZE + boff + length chunk \<le> p) \<and> file_at s ino' p \<noteq> None"
    let ?c = "alloc_of s ino' (p div BLOCK_SIZE)"
    have c: "?c \<noteq> 0" "?c < DISK_BLOCKS"
      using out D(5) [OF ino' pos_index [OF p]] by (auto simp: file_at_def split: if_splits)
    have "disk_block (put_block b blk d) ?c ! (p mod BLOCK_SIZE) = disk_block (disk s) ?c ! (p mod BLOCK_SIZE)"
    proof (cases "?c = b")
      case True
      then have "ino' = ino \<and> p div BLOCK_SIZE = k" using D(7) [OF ino' pos_index [OF p] ino k] b by simp
      then have "\<not> (boff \<le> p mod BLOCK_SIZE \<and> p mod BLOCK_SIZE < boff + length chunk)"
        using out pos_in_block [of p k] by linarith
      then show ?thesis using True get [OF c(2)] fits oldlen by (auto simp: blk nth_memcpy_at)
    qed (use get [OF c(2)] in simp)
    then show "file_at ?s ino' p = file_at s ino' p" by (simp add: file_at_def alloc byte byte0)
  qed
qed

text \<open>Allocating a block leaves the bytes of every file alone.\<close>

lemma wrote_with_block:
  assumes "data_inv s" "ino < MAX_NUM_OF_FILES" "k < NDIRECT" "b < TOTAL_BLOCKS" "alloc_of s ino k = 0"
  shows "wrote ino P [] s (with_block ino k b s)"
proof -
  have "k < length (direct_offset (inode_table s ! ino))"
    using data_invD(4) [OF assms(1,2)] assms(3) by (simp add: inode_blocks_ok_def)
  then have al: "alloc_of (with_block ino k b s) i m = (if i = ino \<and> m = k then b else alloc_of s i m)" for i m
    using alloc_of_with_block [of ino s k b] assms(2,4) data_invD(3) [OF assms(1)] by simp
  have disk: "disk (with_block ino k b s) = disk s" by (simp add: with_block_def)
  have "file_at (with_block ino k b s) i p = file_at s i p" if "file_at s i p \<noteq> None" for i p
  proof -
    have "alloc_of s i (p div BLOCK_SIZE) \<noteq> 0" using that by (auto simp: file_at_def split: if_splits)
    then have "alloc_of (with_block ino k b s) i (p div BLOCK_SIZE) = alloc_of s i (p div BLOCK_SIZE)"
      using assms(5) by (auto simp: al)
    then show ?thesis by (simp add: file_at_def file_byte_def inode_byte_def alloc_of_def disk)
  qed
  then show ?thesis by (simp add: wrote_def)
qed


lemma dir_inv_with_block:
  assumes "dir_inv s" "ino < MAX_NUM_OF_FILES"
  shows "dir_inv (with_block ino k b s)"
proof -
  let ?nd = "(inode_table s ! ino)\<lparr>direct_offset := (direct_offset (inode_table s ! ino))[k := of_nat b]\<rparr>"
  have wf: "wf_tables s" using assms(1) by (simp add: dir_inv_def)
  then have lt: "ino < length (inode_table s)" using assms(2) by (simp add: wf_tables_def)
  have "wf_inode ?nd" using wf_tables_nth(1) [OF wf assms(2)] by (simp add: wf_inode_def)
  moreover have same: "inode_used ((inode_table s)[ino := ?nd] ! m) = inode_used (inode_table s ! m)" for m
    using lt by (cases "m = ino") (auto simp: inode_used_def)
  moreover have "used_count inode_used ((inode_table s)[ino := ?nd]) = used_count inode_used (inode_table s)"
    using used_count_update [OF lt, of inode_used ?nd] by (simp add: inode_used_def split: if_splits)
  ultimately show ?thesis
    using assms(1) by (simp add: with_block_def dir_inv_def wf_tables_def entries_live_def list_all_update)
qed

lemma dir_inv_disk [simp]: "dir_inv (s\<lparr>disk := d\<rparr>) = dir_inv s"
  by (simp add: dir_inv_def wf_tables_def)

text \<open>What allocation, transfer and bookkeeping do together.\<close>

definition same_but :: "nat \<Rightarrow> nat \<Rightarrow> fs_state \<Rightarrow> fs_state \<Rightarrow> bool" where
  "same_but fd ino s s' \<longleftrightarrow> open_disk_fd s' = open_disk_fd s \<and> directory s' = directory s \<and>
     inode_bitmap s' = inode_bitmap s \<and>
     used_block_bitmap_offset (superblock s') = used_block_bitmap_offset (superblock s) \<and>
     length (open_file_descriptors s') = length (open_file_descriptors s) \<and>
     (\<forall>j. j \<noteq> fd \<longrightarrow> open_file_descriptors s' ! j = open_file_descriptors s ! j) \<and>
     fd_is_used (open_file_descriptors s' ! fd) = fd_is_used (open_file_descriptors s ! fd) \<and>
     fd_inode_number (open_file_descriptors s' ! fd) = fd_inode_number (open_file_descriptors s ! fd) \<and>
     (\<forall>i. i \<noteq> ino \<longrightarrow> inode_table s' ! i = inode_table s ! i)"

lemma same_but_refl: "same_but fd ino s s"
  by (simp add: same_but_def)

lemma same_but_trans: "same_but fd ino s s1 \<Longrightarrow> same_but fd ino s1 s2 \<Longrightarrow> same_but fd ino s s2"
  unfolding same_but_def by simp

definition write_post :: "nat \<Rightarrow> nat \<Rightarrow> nat \<Rightarrow> u8 list \<Rightarrow> fs_state \<Rightarrow> fs_state \<Rightarrow> bool" where
  "write_post fd ino P data s s' \<longleftrightarrow> dir_inv s' \<and> data_inv s' \<and> wrote ino P data s s' \<and> same_but fd ino s s' \<and>
     fd_offset (open_file_descriptors s' ! fd) = int (P + length data) \<and>
     unat (file_size (inode_table s' ! ino)) =
       (if data = [] then unat (file_size (inode_table s ! ino))
        else max (unat (file_size (inode_table s ! ino))) (P + length data))"

lemma write_post_append:
  assumes "write_post fd ino P xs s s1" "write_post fd ino (P + length xs) ys s1 s2"
    "ino < MAX_NUM_OF_FILES" "P + length xs \<le> MAX_FILESIZE"
  shows "write_post fd ino P (xs @ ys) s s2"
  using assms wrote_append [of ino P xs s s1 ys s2] same_but_trans [of fd ino s s1 s2]
  unfolding write_post_def by (auto simp: add.assoc)

lemma ulong_of_pos: "n \<le> MAX_FILESIZE \<Longrightarrow> unat (ulong_of_int (int n)) = n"
  using unat_ulong_of_int [of "int n"] by (simp add: MAX_FILESIZE_def)

lemma advance_frame:
  "disk (advance fildes ino n s) = disk s" "used_block_bitmap (advance fildes ino n s) = used_block_bitmap s"
  "superblock (advance fildes ino n s) = superblock s" "open_disk_fd (advance fildes ino n s) = open_disk_fd s"
  "directory (advance fildes ino n s) = directory s" "inode_bitmap (advance fildes ino n s) = inode_bitmap s"
  "length (inode_table (advance fildes ino n s)) = length (inode_table s)"
  "direct_offset (inode_table (advance fildes ino n s) ! i) = direct_offset (inode_table s ! i)"
  "i \<noteq> ino \<Longrightarrow> inode_table (advance fildes ino n s) ! i = inode_table s ! i"
  "open_file_descriptors (advance fildes ino n s) = (open_file_descriptors s)[nat fildes :=
     (open_file_descriptors s ! nat fildes)\<lparr>fd_offset := fd_offset (open_file_descriptors s ! nat fildes) + int n\<rparr>]"
  by (auto simp: advance_def set_fd_offset_def set_file_size_def Let_def attr_list_update [where g = direct_offset])

lemma advance_size:
  assumes "fd_offset (open_file_descriptors s ! nat fildes) + int n = int m" "m \<le> MAX_FILESIZE" "ino < length (inode_table s)"
  shows "unat (file_size (inode_table (advance fildes ino n s) ! ino)) = max (unat (file_size (inode_table s ! ino))) m"
  using assms ulong_of_pos [OF assms(2)]
  by (simp add: advance_def set_fd_offset_def set_file_size_def Let_def word_less_nat_alt max_def not_less)

lemma advance_inv:
  assumes "dir_inv s" "fd_offset (open_file_descriptors s ! nat fildes) + int n = int m" "m \<le> MAX_FILESIZE"
  shows "dir_inv (advance fildes ino n s)"
  using assms ulong_of_pos [OF assms(3)]
  by (auto simp: advance_def Let_def intro!: set_fd_offset_inv set_file_size_inv)


lemma alloc_block_ok:
  assumes "data_inv s" "dir_inv s" "ino < MAX_NUM_OF_FILES" "k < NDIRECT" "alloc_block ino k s = Some s1"
  shows "data_inv s1" "dir_inv s1" "wrote ino P [] s s1" "same_but fd ino s s1" "0 < alloc_of s1 ino k"
    "alloc_of s1 ino k < DISK_BLOCKS" "open_file_descriptors s1 = open_file_descriptors s"
    "file_size (inode_table s1 ! i) = file_size (inode_table s ! i)"
proof -
  have "data_inv s1 \<and> dir_inv s1 \<and> wrote ino P [] s s1 \<and> same_but fd ino s s1 \<and> 0 < alloc_of s1 ino k \<and>
      open_file_descriptors s1 = open_file_descriptors s \<and>
      file_size (inode_table s1 ! i) = file_size (inode_table s ! i)"
    using assms(1,5)
  proof (cases rule: alloc_block_cases)
    case old
    then show ?thesis using assms by (simp add: wrote_Nil same_but_refl)
  next
    case (new b)
    have "k < length (direct_offset (inode_table s ! ino))"
      using data_invD(4) [OF assms(1,3)] assms(4) by (simp add: inode_blocks_ok_def)
    then have "alloc_of s1 ino k = b"
      using new alloc_of_with_block [of ino s k b ino k] assms(3) data_invD(3) [OF assms(1)] by simp
    moreover have "same_but fd ino s s1" by (simp add: new(1) same_but_def with_block_def)
    moreover have "file_size (inode_table s1 ! i) = file_size (inode_table s ! i)"
      by (simp add: new(1) with_block_def attr_list_update [where g = file_size])
    moreover have "open_file_descriptors s1 = open_file_descriptors s" by (simp add: new(1) with_block_def)
    ultimately show ?thesis
      using new data_inv_with_block [OF assms(1,3,4)] dir_inv_with_block [OF assms(2,3)]
        wrote_with_block [OF assms(1,3,4)] by simp
  qed
  then show "data_inv s1" "dir_inv s1" "wrote ino P [] s s1" "same_but fd ino s s1" "0 < alloc_of s1 ino k"
    "open_file_descriptors s1 = open_file_descriptors s" "file_size (inode_table s1 ! i) = file_size (inode_table s ! i)"
    by auto
  then show "alloc_of s1 ino k < DISK_BLOCKS" using data_invD(5) assms(3,4) by blast
qed

lemma write_round:
  assumes inv: "data_inv s" "dir_inv s" and ino: "ino < MAX_NUM_OF_FILES" and k: "k < NDIRECT"
    and fd: "nat fildes < MAX_FILE_DESCRIPTORS"
    and pos: "fd_offset (open_file_descriptors s ! nat fildes) = int (k * BLOCK_SIZE + boff)"
    and chunk: "chunk \<noteq> []" "boff + length chunk \<le> BLOCK_SIZE" "k * BLOCK_SIZE + boff + length chunk \<le> MAX_FILESIZE"
    and s1: "alloc_block ino k s = Some s1" and b: "b = alloc_of s1 ino k"
    and blk: "blk = memcpy_at boff chunk (disk_block (disk s1) b)"
  shows "write_post (nat fildes) ino (k * BLOCK_SIZE + boff) chunk s
    (advance fildes ino (length chunk) (s1\<lparr>disk := put_block b blk (tick (tick (disk s1)))\<rparr>))"
proof -
  let ?P = "k * BLOCK_SIZE + boff" and ?s2 = "s1\<lparr>disk := put_block b blk (tick (tick (disk s1)))\<rparr>"
  let ?s3 = "advance fildes ino (length chunk) ?s2"
  note A = alloc_block_ok [OF inv ino k s1]
  have d: "disk_ok (tick (tick (disk s1)))" using data_invD(1) [OF A(1)] by simp
  have w: "wrote ino ?P chunk s1 ?s2" and inv2: "data_inv ?s2"
    using wrote_block [OF A(1) ino k b [symmetric] _ chunk(2) d _ blk] A(5) b by simp_all
  have pos2: "fd_offset (open_file_descriptors ?s2 ! nat fildes) + int (length chunk) = int (?P + length chunk)"
    using pos A(7) by simp
  have len: "nat fildes < length (open_file_descriptors s)" "ino < length (inode_table s1)"
    using inv(2) fd ino A(2) by (simp_all add: dir_inv_def wf_tables_def)
  have "wrote ino ?P chunk s ?s2"
    using wrote_append [OF A(3), of ?P chunk ?s2] w ino chunk(3) by simp
  then have "wrote ino ?P chunk s ?s3" by (intro wrote_cong [of ?s3 ?s2]) (simp_all add: advance_frame ino)
  moreover have "data_inv ?s3"
    using inv2 data_invD(1) [OF inv2] by (intro data_inv_cong [of ?s3 ?s2]) (simp_all add: advance_frame)
  moreover have "dir_inv ?s3" using advance_inv [OF _ pos2 chunk(3)] A(2) by simp
  moreover have "same_but (nat fildes) ino s ?s3"
    using A(4) [of "nat fildes"] A(7) len(1) by (simp add: same_but_def advance_frame)
  moreover have "fd_offset (open_file_descriptors ?s3 ! nat fildes) = int (?P + length chunk)"
    using pos A(7) len(1) by (simp add: advance_frame)
  moreover have "unat (file_size (inode_table ?s3 ! ino)) = max (unat (file_size (inode_table s ! ino))) (?P + length chunk)"
    using advance_size [OF pos2 chunk(3)] len(2) A(8) by simp
  ultimately show ?thesis using chunk(1) by (simp add: write_post_def)
qed

section \<open>The whole loop\<close>

definition disk_full :: "fs_state \<Rightarrow> bool" where
  "disk_full s \<longleftrightarrow> (\<forall>i < TOTAL_BLOCKS. unat (used_block_bitmap_offset (superblock s)) \<le> i \<longrightarrow>
     get_bit_at (used_block_bitmap s) i)"

lemma alloc_block_None:
  assumes "alloc_block ino k s = None"
  shows "disk_full s"
  using assms free_block_from_None
  by (auto simp: alloc_block_def disk_full_def Let_def split: if_splits option.splits)

text \<open>
  On a disk without faults, a write that stays within the largest file size either stores all its
  data, or stores a proper prefix and returns -1 because no block is free.
\<close>

definition write_result :: "nat \<Rightarrow> nat \<Rightarrow> nat \<Rightarrow> u8 list \<Rightarrow> nat \<Rightarrow> fs_state \<Rightarrow> (int \<times> fs_state) option \<Rightarrow> bool" where
  "write_result fd ino P data done s r \<longleftrightarrow>
     (\<exists>s'. r = Some (int (done + length data), s') \<and> write_post fd ino P data s s') \<or>
     (\<exists>n s'. n < length data \<and> r = Some (-1, s') \<and> write_post fd ino P (take n data) s s' \<and> disk_full s')"

lemma write_result_append:
  assumes "write_post fd ino P xs s s1" "write_result fd ino (P + length xs) ys (done + length xs) s1 r"
    "ino < MAX_NUM_OF_FILES" "P + length xs \<le> MAX_FILESIZE"
  shows "write_result fd ino P (xs @ ys) done s r"
  using assms(2) unfolding write_result_def [of _ _ "P + length xs"]
proof (elim disjE exE conjE)
  fix s' assume "r = Some (int (done + length xs + length ys), s')" "write_post fd ino (P + length xs) ys s1 s'"
  then show ?thesis
    using write_post_append [OF assms(1) _ assms(3,4)] by (auto simp: write_result_def add.assoc)
next
  fix n s'
  assume "n < length ys" "r = Some (-1, s')" "write_post fd ino (P + length xs) (take n ys) s1 s'" "disk_full s'"
  then have "length xs + n < length (xs @ ys)" "write_post fd ino P (take (length xs + n) (xs @ ys)) s s'"
    using write_post_append [OF assms(1) _ assms(3,4)] by auto
  then show ?thesis
    using \<open>r = _\<close> \<open>disk_full s'\<close> unfolding write_result_def by blast
qed


lemma block_transfer:
  assumes "data_inv s" "ino < MAX_NUM_OF_FILES" "k < NDIRECT" "b = alloc_of s ino k" "length blk = BLOCK_SIZE"
    "boff + length chunk \<le> BLOCK_SIZE"
  shows "block_read (int_of_ulong (direct_offset (inode_table s ! ino) ! k)) blk (disk s) =
      (0, disk_block (disk s) b, tick (tick (disk s)))"
    and "block_write (int_of_ulong (direct_offset (inode_table s ! ino) ! k))
      (memcpy_at boff chunk (disk_block (disk s) b)) (tick (tick (disk s))) =
      (0, put_block b (memcpy_at boff chunk (disk_block (disk s) b)) (tick (tick (disk s))))"
    and "length (disk_block (disk s) b) = BLOCK_SIZE"
proof -
  have b: "b < DISK_BLOCKS" using data_invD(5) [OF assms(1-3)] assms(4) by simp
  have ok: "disk_ok (disk s)" using data_invD(1) [OF assms(1)] .
  have i: "int_of_ulong (direct_offset (inode_table s ! ino) ! k) = int b"
    using int_of_block b assms(4) by (simp add: alloc_of_def)
  show len: "length (disk_block (disk s) b) = BLOCK_SIZE" using dsk.length_get ok b by blast
  show "block_read (int_of_ulong (direct_offset (inode_table s ! ino) ! k)) blk (disk s) =
      (0, disk_block (disk s) b, tick (tick (disk s)))"
    using block_read_ok [OF ok b assms(5)] i by simp
  show "block_write (int_of_ulong (direct_offset (inode_table s ! ino) ! k))
      (memcpy_at boff chunk (disk_block (disk s) b)) (tick (tick (disk s))) =
      (0, put_block b (memcpy_at boff chunk (disk_block (disk s) b)) (tick (tick (disk s))))"
    using block_write_ok(1) [of "tick (tick (disk s))" b] ok b len assms(6) i by simp
qed

definition round_bytes :: "u8 list \<Rightarrow> nat \<Rightarrow> nat \<Rightarrow> nat" where
  "round_bytes buf n boff = (if length buf - n < BLOCK_SIZE - boff then length buf - n else BLOCK_SIZE - boff)"

lemma round_bytes:
  assumes "n < length buf" "boff < BLOCK_SIZE"
  shows "0 < round_bytes buf n boff" "round_bytes buf n boff \<le> length buf - n" "boff + round_bytes buf n boff \<le> BLOCK_SIZE"
    "n + round_bytes buf n boff = length buf \<or> Suc k * BLOCK_SIZE = k * BLOCK_SIZE + boff + round_bytes buf n boff"
  using assms by (auto simp: round_bytes_def)

text \<open>
  A round that finds its block runs the rest of the loop from the state it reaches, in which the
  blocks are allocated as the search has left them.
\<close>

definition same_blocks :: "fs_state \<Rightarrow> fs_state \<Rightarrow> bool" where
  "same_blocks s s' \<longleftrightarrow> used_block_bitmap s' = used_block_bitmap s \<and> superblock s' = superblock s \<and>
     (\<forall>i k. alloc_of s' i k = alloc_of s i k) \<and> handle (disk s') = handle (disk s)"

lemma fs_write_loop_step:
  assumes inv: "data_inv s" "dir_inv s" and ino: "ino < MAX_NUM_OF_FILES" and fd: "nat fildes < MAX_FILE_DESCRIPTORS"
    and pos: "fd_offset (open_file_descriptors s ! nat fildes) = int (k * BLOCK_SIZE + boff)"
    and boff: "boff < BLOCK_SIZE" and blk: "length blk = BLOCK_SIZE" and n: "n < length buf" and k: "k < NDIRECT"
    and some: "alloc_block ino k s = Some s1"
  obtains blk2 s2 where
    "fs_write_loop fildes ino buf n k boff blk s = fs_write_loop fildes ino buf (n + round_bytes buf n boff) (Suc k) 0 blk2 s2"
    "write_post (nat fildes) ino (k * BLOCK_SIZE + boff) (take (round_bytes buf n boff) (drop n buf)) s s2"
    "length blk2 = BLOCK_SIZE" "same_blocks s1 s2"
proof -
  define cur where "cur = round_bytes buf n boff"
  define chunk where "chunk = take cur (drop n buf)"
  define b where "b = alloc_of s1 ino k"
  define blk2 where "blk2 = memcpy_at boff chunk (disk_block (disk s1) b)"
  define s2 where "s2 = advance fildes ino cur (s1\<lparr>disk := put_block b blk2 (tick (tick (disk s1)))\<rparr>)"
  have cur: "0 < cur" "cur \<le> length buf - n" "boff + cur \<le> BLOCK_SIZE"
    using round_bytes [OF n boff] by (simp_all add: cur_def)
  then have chunk: "chunk \<noteq> []" "length chunk = cur" using n by (auto simp: chunk_def)
  have "Suc k * BLOCK_SIZE \<le> NDIRECT * BLOCK_SIZE" using k by (intro mult_le_mono1) simp
  then have fits: "k * BLOCK_SIZE + boff + cur \<le> MAX_FILESIZE" using cur(3) NDIRECT_bytes by simp
  note A = alloc_block_ok [OF inv ino k some]
  note T = block_transfer [OF A(1) ino k b_def blk, of boff chunk]
  have len: "\<not> length (direct_offset (inode_table s ! ino)) \<le> k"
    using data_invD(4) [OF inv(1) ino] k by (simp add: inode_blocks_ok_def)
  have post: "write_post (nat fildes) ino (k * BLOCK_SIZE + boff) chunk s s2"
    using write_round [OF inv ino k fd pos chunk(1) _ _ some b_def blk2_def] chunk(2) cur fits by (simp add: s2_def)
  have "fs_write_loop fildes ino buf n k boff blk s = fs_write_loop fildes ino buf (n + cur) (Suc k) 0 blk2 s2"
    using n len some T(1,2) cur(3) chunk(2)
    by (simp add: fs_write_loop.simps [of fildes ino buf n k boff blk s] Let_def cur_def [unfolded round_bytes_def, symmetric]
        chunk_def [symmetric] b_def [symmetric] blk2_def [symmetric] s2_def)
  moreover have "length blk2 = BLOCK_SIZE" using T(3) cur(3) chunk(2) by (simp add: blk2_def)
  moreover have "same_blocks s1 s2" by (simp add: same_blocks_def s2_def alloc_of_def advance_frame)
  ultimately show ?thesis using that post by (simp add: chunk_def cur_def)
qed

lemma fs_write_loop_ok:
  assumes "data_inv s" "dir_inv s" "ino < MAX_NUM_OF_FILES" "nat fildes < MAX_FILE_DESCRIPTORS"
    "fd_offset (open_file_descriptors s ! nat fildes) = int (k * BLOCK_SIZE + boff) \<or> n = length buf"
    "boff < BLOCK_SIZE" "length blk = BLOCK_SIZE" "n \<le> length buf"
    "k * BLOCK_SIZE + boff + (length buf - n) \<le> MAX_FILESIZE \<or> n = length buf"
    "fd_offset (open_file_descriptors s ! nat fildes) = int P"
  shows "write_result (nat fildes) ino P (drop n buf) n s (fs_write_loop fildes ino buf n k boff blk s)"
  using assms
proof (induction "length buf - n" arbitrary: n k boff blk s P rule: less_induct)
  case less
  note P = less.prems
  note unfold = fs_write_loop.simps [of fildes ino buf n k boff blk s]
  have nil: "write_post (nat fildes) ino P [] s s" using P by (simp add: write_post_def wrote_Nil same_but_refl)
  show ?case
  proof (cases "n < length buf")
    case False
    then have "fs_write_loop fildes ino buf n k boff blk s = Some (int n, s)" by (simp add: unfold)
    then show ?thesis using False P(8) nil unfolding write_result_def by auto
  next
    case True
    have "int P = int (k * BLOCK_SIZE + boff)" using P(5,10) True by linarith
    then have Pk: "P = k * BLOCK_SIZE + boff" by (rule iffD1 [OF of_nat_eq_iff])
    have fits: "k * BLOCK_SIZE + boff + (length buf - n) \<le> MAX_FILESIZE" using P(9) True by simp
    have "k * BLOCK_SIZE < NDIRECT * BLOCK_SIZE" using fits True NDIRECT_bytes by linarith
    then have k: "k < NDIRECT" by simp
    then have len: "\<not> length (direct_offset (inode_table s ! ino)) \<le> k"
      using data_invD(4) [OF P(1,3)] by (simp add: inode_blocks_ok_def)
    show ?thesis
    proof (cases "alloc_block ino k s")
      case None
      with True len have "fs_write_loop fildes ino buf n k boff blk s = Some (-1, s)" by (simp add: unfold)
      then show ?thesis
        using True alloc_block_None [OF None] nil unfolding write_result_def
        by (intro disjI2 exI [of _ 0] exI [of _ s] conjI) simp_all
    next
      case (Some s1)
      let ?cur = "round_bytes buf n boff" let ?chunk = "take ?cur (drop n buf)"
      note R = round_bytes [OF True P(6)]
      have pos: "fd_offset (open_file_descriptors s ! nat fildes) = int (k * BLOCK_SIZE + boff)" using P(5) True by simp
      obtain blk2 s2 where loop: "fs_write_loop fildes ino buf n k boff blk s = fs_write_loop fildes ino buf (n + ?cur) (Suc k) 0 blk2 s2"
        and post: "write_post (nat fildes) ino P ?chunk s s2" and blk2: "length blk2 = BLOCK_SIZE"
        using fs_write_loop_step [OF P(1-4) pos P(6,7) True k Some] Pk by metis
      have lchunk: "length ?chunk = ?cur" using R(2) by simp
      have "write_result (nat fildes) ino (P + length ?chunk) (drop (n + ?cur) buf) (n + ?cur) s2
          (fs_write_loop fildes ino buf (n + ?cur) (Suc k) 0 blk2 s2)"
      proof (rule less.hyps)
        show "length buf - (n + ?cur) < length buf - n" using R True by simp
        show "data_inv s2" "dir_inv s2" using post by (simp_all add: write_post_def)
        show "fd_offset (open_file_descriptors s2 ! nat fildes) = int (P + length ?chunk)"
          using post by (simp add: write_post_def)
        then show "fd_offset (open_file_descriptors s2 ! nat fildes) = int (Suc k * BLOCK_SIZE + 0) \<or> n + ?cur = length buf"
          using R(4) [of k] lchunk Pk by (metis add.right_neutral)
        show "Suc k * BLOCK_SIZE + 0 + (length buf - (n + ?cur)) \<le> MAX_FILESIZE \<or> n + ?cur = length buf"
          using R(4) [of k] fits R(2) by auto
      qed (use P(3,4) R blk2 in auto)
      then have "write_result (nat fildes) ino P (?chunk @ drop (n + ?cur) buf) n s
          (fs_write_loop fildes ino buf n k boff blk s)"
        using write_result_append [OF post] P(3) lchunk R fits Pk by (simp add: loop)
      moreover have "?chunk @ drop (n + ?cur) buf = drop n buf"
        by (simp add: add.commute [of n] drop_drop [symmetric] del: drop_drop)
      ultimately show ?thesis by simp
    qed
  qed
qed

section \<open>fs\_write and fs\_read on an open file\<close>

text \<open>
  A descriptor that the operations accept: in range, in use, and with an inode number that is the
  index of a used directory entry.
\<close>

definition usable_fd :: "int \<Rightarrow> fs_state \<Rightarrow> bool" where
  "usable_fd fildes s \<longleftrightarrow> \<not> bad_fd fildes s \<and> \<not> bad_index (fd_inode_number (open_file_descriptors s ! nat fildes)) s"

definition ino_of :: "int \<Rightarrow> fs_state \<Rightarrow> nat" where
  "ino_of fildes s = nat (fd_inode_number (open_file_descriptors s ! nat fildes))"

definition pos_of :: "int \<Rightarrow> fs_state \<Rightarrow> nat" where
  "pos_of fildes s = nat (fd_offset (open_file_descriptors s ! nat fildes))"

definition size_of_ino :: "nat \<Rightarrow> fs_state \<Rightarrow> nat" where
  "size_of_ino ino s = unat (file_size (inode_table s ! ino))"

lemma usable_fdD:
  assumes "usable_fd fildes s" "dir_inv s"
  shows "nat fildes < MAX_FILE_DESCRIPTORS" "ino_of fildes s < MAX_NUM_OF_FILES"
    "fd_offset (open_file_descriptors s ! nat fildes) = int (pos_of fildes s)" "pos_of fildes s \<le> MAX_FILESIZE"
    "fd_inode_number (open_file_descriptors s ! nat fildes) = int (ino_of fildes s)"
proof -
  show fd: "nat fildes < MAX_FILE_DESCRIPTORS" "ino_of fildes s < MAX_NUM_OF_FILES"
    using assms(1) by (auto simp: usable_fd_def bad_fd_def bad_index_def ino_of_def)
  then have "wf_fd (open_file_descriptors s ! nat fildes)" using assms(2) wf_tables_nth(3) by (simp add: dir_inv_def)
  moreover have "fd_is_used (open_file_descriptors s ! nat fildes)" using assms(1) by (simp add: usable_fd_def bad_fd_def)
  ultimately show "fd_offset (open_file_descriptors s ! nat fildes) = int (pos_of fildes s)" "pos_of fildes s \<le> MAX_FILESIZE"
    "fd_inode_number (open_file_descriptors s ! nat fildes) = int (ino_of fildes s)"
    by (auto simp: wf_fd_def pos_of_def ino_of_def)
qed

lemma fs_write_correct:
  assumes inv: "data_inv s" "dir_inv s" and fd: "usable_fd fildes s"
    and fits: "pos_of fildes s + length buf \<le> MAX_FILESIZE"
  shows "write_result (nat fildes) (ino_of fildes s) (pos_of fildes s) buf 0 s (fs_write fildes buf s)"
proof -
  note F = usable_fdD [OF fd inv(2)]
  let ?P = "pos_of fildes s"
  have "write_result (nat fildes) (ino_of fildes s) ?P (drop 0 buf) 0 s
      (fs_write_loop fildes (ino_of fildes s) buf 0 (?P div BLOCK_SIZE) (?P mod BLOCK_SIZE) (replicate BLOCK_SIZE 0) s)"
    using F fits by (intro fs_write_loop_ok [OF inv]) simp_all
  moreover have "fs_write fildes buf s = fs_write_loop fildes (ino_of fildes s) buf 0 (?P div BLOCK_SIZE)
      (?P mod BLOCK_SIZE) (replicate BLOCK_SIZE 0) s"
    using fd F(3) fs_write_loop.simps [of fildes "ino_of fildes s" "[]" 0]
    by (auto simp: fs_write_def usable_fd_def ino_of_def pos_of_def Let_def)
  ultimately show ?thesis by simp
qed

lemma set_fd_offset_same: "set_fd_offset fildes (fd_offset (open_file_descriptors s ! nat fildes)) s = s"
proof -
  have "f\<lparr>fd_offset := fd_offset f\<rparr> = f" for f :: file_descriptor by simp
  then show ?thesis by (simp add: set_fd_offset_def)
qed

text \<open>A read returns the bytes of the file from the offset on, at most up to its size.\<close>

lemma fs_read_correct:
  assumes inv: "data_inv s" "dir_inv s" and fd: "usable_fd fildes s" and n: "unat nbyte < 2 ^ 31"
    and pos: "pos_of fildes s \<le> size_of_ino (ino_of fildes s) s"
  defines "m \<equiv> min (unat nbyte) (size_of_ino (ino_of fildes s) s - pos_of fildes s)"
  obtains d where "fs_read fildes nbyte s =
      Some (int m, map (file_byte s (ino_of fildes s)) [pos_of fildes s ..< pos_of fildes s + m],
        set_fd_offset fildes (int (pos_of fildes s + m)) (s\<lparr>disk := d\<rparr>))"
    "disk_ok d" "disk_block d = disk_block (disk s)"
proof -
  note F = usable_fdD [OF fd inv(2)]
  let ?ino = "ino_of fildes s" and ?P = "pos_of fildes s"
  let ?nd = "inode_table s ! ?ino" and ?f = "open_file_descriptors s ! nat fildes"
  have size: "unat (file_size ?nd) \<le> MAX_FILESIZE"
    using inv(2) wf_tables_nth(1) F(2) by (simp add: dir_inv_def wf_inode_def)
  have uP: "unat (ulong_of_int (int ?P)) = ?P" using ulong_of_pos F(4) by blast
  have "unat (file_size ?nd - ulong_of_int (int ?P)) = unat (file_size ?nd) - ?P"
    using pos uP by (simp add: size_of_ino_def unat_sub word_le_nat_alt)
  then have rem: "int_of_ulong (file_size ?nd - ulong_of_int (int ?P)) = int (unat (file_size ?nd) - ?P)"
    using int_of_ulong_small [of "file_size ?nd - ulong_of_int (int ?P)"] size MAX_FILESIZE_lt by simp
  have urem: "unat (ulong_of_int (int (unat (file_size ?nd) - ?P))) = unat (file_size ?nd) - ?P"
    using ulong_of_pos [of "unat (file_size ?nd) - ?P"] size by simp
  have m: "(if nbyte < ulong_of_int (int (unat (file_size ?nd) - ?P)) then int_of_ulong nbyte
      else int (unat (file_size ?nd) - ?P)) = int m"
    using urem int_of_ulong_small [OF n] by (auto simp: m_def word_less_nat_alt size_of_ino_def)
  have fits: "?P + m \<le> MAX_FILESIZE" using size pos by (simp add: m_def size_of_ino_def)
  have blocks: "inode_blocks_ok ?nd" "disk_ok (disk s)" using data_invD [OF inv(1)] F(2) by blast+
  have good: "\<not> bad_fd fildes s" "\<not> bad_index (int ?ino) s" "fd_inode_number ?f = int ?ino"
    using fd F(5) by (auto simp: usable_fd_def)
  have read: "fs_read fildes nbyte s =
      (if int m \<le> 0 then Some (0, [], s)
       else case fs_read_loop ?nd m (?P div BLOCK_SIZE) (?P mod BLOCK_SIZE) [] (replicate BLOCK_SIZE 0) (disk s) of
              None \<Rightarrow> None
            | Some (r, out, d) \<Rightarrow> if r = -1 then Some (-1, out, s\<lparr>disk := d\<rparr>)
                else Some (int m, out, set_fd_offset fildes (int ?P + int m) (s\<lparr>disk := d\<rparr>)))"
    unfolding fs_read_def Let_def
    by (simp only: good F(3) rem m if_False nat_int of_nat_less_0_iff)
  show ?thesis
  proof (cases "m = 0")
    case True
    then have "fs_read fildes nbyte s = Some (0, [], s)" by (simp add: read)
    moreover have "set_fd_offset fildes (int (?P + m)) (s\<lparr>disk := disk s\<rparr>) = s"
      using True set_fd_offset_same [of fildes s] by (simp add: F(3))
    ultimately show ?thesis using that [of "disk s"] True blocks(2) by simp
  next
    case False
    obtain d where d: "fs_read_loop ?nd m (?P div BLOCK_SIZE) (?P mod BLOCK_SIZE) [] (replicate BLOCK_SIZE 0) (disk s) =
        Some (0, map (inode_byte ?nd (disk s)) [?P ..< ?P + m], d)" "disk_ok d" "disk_block d = disk_block (disk s)"
      using fs_read_loop_ok [OF blocks, of "replicate BLOCK_SIZE 0" "?P mod BLOCK_SIZE" "?P div BLOCK_SIZE" m "[]"] fits
      by auto
    have "fs_read fildes nbyte s = Some (int m, map (inode_byte ?nd (disk s)) [?P ..< ?P + m],
        set_fd_offset fildes (int (?P + m)) (s\<lparr>disk := d\<rparr>))"
      using False d(1) by (simp add: read)
    moreover have "inode_byte ?nd (disk s) = file_byte s ?ino" by (simp add: file_byte_def fun_eq_iff)
    ultimately show ?thesis using that [of d] d by simp
  qed
qed

end
