(* ===== verification/FS_Fresh.thy ===== *)
theory FS_Fresh
  imports FS_Mount FS_Write
begin

text \<open>
  A new file system: \<open>make_fs\<close> followed by \<open>mount_fs\<close> gives a state with no files in which both
  invariants hold, so everything proved from the invariants applies from the first call on.
\<close>

lemma le_word_zeros: "le_word (replicate n 0) = 0"
  by (induction n) simp_all

lemma take_drop_zeros: "take m (drop k (replicate n x)) = replicate (min (n - k) m) x"
  by (simp add: min.commute)

lemma dec_dir_entry_zeros: "dec_dir_entry (replicate SIZEOF_DIR_ENTRY 0) = zero_dir_entry"
proof -
  have "byte_char 0 = CHR 0x00" by (simp add: byte_char_def char_of_def)
  moreover have "bytes_int (replicate 4 0) = 0" by (simp add: bytes_int_def le_word_zeros)
  ultimately show ?thesis
    by (simp add: dec_dir_entry_def zero_dir_entry_def SIZEOF_DIR_ENTRY_def MAX_FILE_NAME_def take_drop_zeros
        min_def map_replicate_const)
qed

lemma dec_inode_zeros: "dec_inode (replicate SIZEOF_INODE 0) = zero_inode"
proof -
  have "dec_words NDIRECT (replicate 2072 0) = replicate NDIRECT 0"
  proof (rule nth_equalityI)
    fix i assume "i < length (dec_words NDIRECT (replicate 2072 0))"
    then have i: "i < 256" by (simp add: dec_words_def NDIRECT_eq)
    then have "min (2072 - i * 8) 8 = (8::nat)" by simp
    then show "dec_words NDIRECT (replicate 2072 0) ! i = replicate NDIRECT 0 ! i"
      using i by (simp add: dec_words_def c64.dec_array_def NDIRECT_eq take_drop_zeros le_word_zeros del: take_replicate drop_replicate)
  qed (simp add: dec_words_def)
  then show ?thesis
    by (simp add: dec_inode_def zero_inode_def SIZEOF_INODE_def le_word_zeros)
qed

lemma dec_directory_zeros: "dec_directory (replicate BLOCK_SIZE 0) = replicate MAX_NUM_OF_FILES zero_dir_entry"
proof (rule nth_equalityI)
  fix i assume "i < length (dec_directory (replicate BLOCK_SIZE 0))"
  then have i: "i < 64" by (simp add: dec_directory_def MAX_NUM_OF_FILES_def)
  then have "min (BLOCK_SIZE - i * SIZEOF_DIR_ENTRY) SIZEOF_DIR_ENTRY = SIZEOF_DIR_ENTRY"
    by (simp add: BLOCK_SIZE_def SIZEOF_DIR_ENTRY_def)
  then show "dec_directory (replicate BLOCK_SIZE 0) ! i = replicate MAX_NUM_OF_FILES zero_dir_entry ! i"
    using i dec_dir_entry_zeros
    by (simp add: dec_directory_def cde.dec_array_def MAX_NUM_OF_FILES_def take_drop_zeros del: take_replicate drop_replicate)
qed (simp add: dec_directory_def)

lemma dec_inodes_zeros:
  assumes "length tbl = MAX_NUM_OF_FILES * SIZEOF_INODE" "\<forall>q < length tbl. tbl ! q = 0"
  shows "dec_inodes tbl = replicate MAX_NUM_OF_FILES zero_inode"
proof (rule nth_equalityI)
  have tbl: "tbl = replicate (MAX_NUM_OF_FILES * SIZEOF_INODE) 0" using assms by (intro nth_equalityI) auto
  fix i assume "i < length (dec_inodes tbl)"
  then have i: "i < MAX_NUM_OF_FILES" by (simp add: dec_inodes_def)
  then have "(i + 1) * SIZEOF_INODE \<le> MAX_NUM_OF_FILES * SIZEOF_INODE" by (intro mult_le_mono1) simp
  then have "min (MAX_NUM_OF_FILES * SIZEOF_INODE - i * SIZEOF_INODE) SIZEOF_INODE = SIZEOF_INODE" by simp
  then show "dec_inodes tbl ! i = replicate MAX_NUM_OF_FILES zero_inode ! i"
    using i dec_inode_zeros
    by (simp add: dec_inodes_def cino.dec_array_def tbl take_drop_zeros del: take_replicate drop_replicate)
qed (simp add: dec_inodes_def)

text \<open>The state after the first mount.\<close>

definition fresh_state :: "disk_state \<Rightarrow> fs_state" where
  "fresh_state d = (init_globals d)\<lparr>open_disk_fd := 0, superblock := make_superblock,
     open_file_descriptors := replicate MAX_FILE_DESCRIPTORS \<lparr>fd_is_used = False, fd_inode_number = -1, fd_offset = 0\<rparr>\<rparr>"

lemma fresh_dir_inv: "dir_inv (fresh_state d)"
proof -
  have "wf_tables (fresh_state d)"
    using wf_tables_init [of d] by (simp add: fresh_state_def wf_tables_def init_globals_def wf_fd_def list_all_length)
  then show ?thesis
    by (simp add: dir_inv_def fresh_state_def init_globals_def entries_distinct_def entries_live_def fds_named_def
        zero_dir_entry_def list_all_length used_count_def)
qed

lemma fresh_data_inv:
  assumes "disk_ok d"
  shows "data_inv (fresh_state d)"
proof -
  have nodes: "inode_table (fresh_state d) ! i = zero_inode" if "i < MAX_NUM_OF_FILES" for i
    using that by (simp add: fresh_state_def init_globals_def)
  have "alloc_of (fresh_state d) i k = 0" if "i < MAX_NUM_OF_FILES" "k < NDIRECT" for i k
    using that by (simp add: alloc_of_def nodes zero_inode_def)
  moreover have "inode_blocks_ok (inode_table (fresh_state d) ! i)" if "i < MAX_NUM_OF_FILES" for i
    using that by (simp add: inode_blocks_ok_def nodes zero_inode_def)
  moreover have "unat (used_block_bitmap_offset (superblock (fresh_state d))) = 1"
    by (simp add: fresh_state_def make_superblock_fields)
  ultimately show ?thesis
    using assms by (simp add: data_inv_def TOTAL_BLOCKS_def) (simp add: fresh_state_def init_globals_def TOTAL_BLOCKS_def)
qed


lemma le_bytes_zero: "le_bytes n (0 :: 'a::len word) = replicate n 0"
  by (intro nth_equalityI) (simp_all add: le_bytes_def)

lemma concat_replicate_zeros: "concat (replicate n (replicate m x)) = replicate (n * m) x"
  by (induction n) (simp_all add: replicate_add)

lemma enc_inodes_zeros:
  "enc_inodes (replicate MAX_NUM_OF_FILES zero_inode) = replicate (MAX_NUM_OF_FILES * SIZEOF_INODE) 0"
proof -
  have "enc_inode zero_inode = replicate SIZEOF_INODE 0"
    by (simp add: enc_inode_def zero_inode_def enc_words_def c64.enc_array_def le_bytes_zero concat_replicate_zeros
        NDIRECT_eq SIZEOF_INODE_def flip: replicate_add)
  then show ?thesis by (simp add: enc_inodes_def cino.enc_array_def concat_replicate_zeros)
qed

lemma length_foldl_update [simp]: "length (foldl (\<lambda>b i. b[i := f i]) bm ks) = length bm"
  by (induction ks arbitrary: bm) simp_all

lemma init_bitmap_zeros: "init_bitmap sb bm = replicate (length bm) 0"
  by (simp add: init_bitmap_def map_replicate_const)

lemma zero_blocks: "b < DISK_BLOCKS \<Longrightarrow> disk_contents d = replicate (DISK_BLOCKS * BLOCK_SIZE) 0 \<Longrightarrow>
    disk_block d b = replicate BLOCK_SIZE 0"
  using block_in_disk [of b] by (simp add: disk_block_def host_read_def)

text \<open>\<open>make_fs\<close> on a host without faults.\<close>

definition sb_block :: "(nat \<Rightarrow> u8) \<Rightarrow> u8 list" where
  "sb_block adj = enc_super_block make_superblock @ map adj [SIZEOF_SUPER_BLOCK..<BLOCK_SIZE]"

definition bitmap_block :: "(nat \<Rightarrow> u8) \<Rightarrow> u8 list" where
  "bitmap_block adj = replicate (TOTAL_BLOCKS div CHAR_BIT) 0 @ map adj [TOTAL_BLOCKS div CHAR_BIT..<BLOCK_SIZE]"

lemma boot_blocks_length: "length (sb_block adj) = BLOCK_SIZE" "length (bitmap_block adj) = BLOCK_SIZE"
  by (simp_all add: sb_block_def bitmap_block_def csb.length_enc SIZEOF_SUPER_BLOCK_def BLOCK_SIZE_def TOTAL_BLOCKS_def
      CHAR_BIT_def)

lemma make_fs_ok:
  assumes "fault_free (disk s)" "\<not> active (disk s)" "length (used_block_bitmap s) = TOTAL_BLOCKS div CHAR_BIT"
  obtains d where "make_fs adj_sb adj_bm (Some nm) s = (0, s\<lparr>superblock := make_superblock,
      used_block_bitmap := replicate (TOTAL_BLOCKS div CHAR_BIT) 0, inode_bitmap := map (\<lambda>_. 0) (inode_bitmap s),
      disk := d\<lparr>handle := None, active := False\<rparr>\<rparr>)"
    "disk_ok d" "handle d = Some nm"
    "\<forall>b < DISK_BLOCKS. disk_block d b = (if b = 0 then sb_block adj_sb else if b = 1 then bitmap_block adj_bm
       else replicate BLOCK_SIZE 0)"
proof -
  obtain d1 where d1: "make_disk (Some nm) (disk s) = (0, d1)" "files d1 = (files (disk s))(nm \<mapsto> replicate (DISK_BLOCKS * BLOCK_SIZE) 0)"
    "\<not> active d1" "fault_free d1"
    using make_disk_ok [OF assms(1), of nm] assms(2) by metis
  obtain d2 where d2: "open_disk (Some nm) d1 = (0, d2)" "disk_ok d2" "disk_contents d2 = replicate (DISK_BLOCKS * BLOCK_SIZE) 0"
    "handle d2 = Some nm"
    using open_disk_ok [of d1 nm "replicate (DISK_BLOCKS * BLOCK_SIZE) 0"] d1(2-4) assms(1) by (metis fun_upd_same length_replicate)
  note L = boot_blocks_length
  let ?d3 = "put_block 0 (sb_block adj_sb) d2" let ?d4 = "put_block 1 (bitmap_block adj_bm) ?d3"
  have one: "(1::nat) < DISK_BLOCKS" by (simp add: DISK_BLOCKS_def)
  have w1: "block_write 0 (sb_block adj_sb) d2 = (0, ?d3)"
    using block_write_ok(1) [OF d2(2) DISK_BLOCKS_pos(1) L(1)] by simp
  have ok3: "disk_ok ?d3" using dsk.ok_put [OF d2(2) DISK_BLOCKS_pos(1) L(1)] .
  have "uint (used_block_bitmap_offset make_superblock) = 1" using make_superblock_fields(2) by (metis of_nat_1 uint_unat)
  then have w2: "block_write (uint (used_block_bitmap_offset make_superblock)) (bitmap_block adj_bm) ?d3 = (0, ?d4)"
    using block_write_ok(1) [OF ok3 one L(2)] by simp
  have ok4: "disk_ok ?d4" using dsk.ok_put [OF ok3 one L(2)] .
  then have c: "close_disk ?d4 = (0, ?d4\<lparr>handle := None, active := False\<rparr>)" by (simp add: close_disk_def disk_ok_def)
  have bm: "replicate (TOTAL_BLOCKS div CHAR_BIT) 0 @ map adj_bm [TOTAL_BLOCKS div CHAR_BIT..<BLOCK_SIZE] = bitmap_block adj_bm"
    by (simp add: bitmap_block_def)
  have "make_fs adj_sb adj_bm (Some nm) s = (0, s\<lparr>superblock := make_superblock,
      used_block_bitmap := replicate (TOTAL_BLOCKS div CHAR_BIT) 0, inode_bitmap := map (\<lambda>_. 0) (inode_bitmap s),
      disk := ?d4\<lparr>handle := None, active := False\<rparr>\<rparr>)"
    using w1 w2 c d1(1) d2(1) assms(3)
    by (simp add: make_fs_def Let_def init_bitmap_zeros sb_block_def [symmetric] bm)
  moreover have "handle ?d4 = Some nm"
    using block_write_ok(4) [OF ok3 one L(2)] block_write_ok(4) [OF d2(2) DISK_BLOCKS_pos(1) L(1)] d2(4) by simp
  moreover have "disk_block ?d4 b = (if b = 0 then sb_block adj_sb else if b = 1 then bitmap_block adj_bm
      else replicate BLOCK_SIZE 0)" if "b < DISK_BLOCKS" for b
    using dsk.get_put [OF ok3 one that L(2)] dsk.get_put [OF d2(2) DISK_BLOCKS_pos(1) that L(1)] zero_blocks [OF that d2(3)]
    by auto
  ultimately show ?thesis using that ok4 by blast
qed


lemma mount_fresh_ok:
  assumes ok: "disk_ok d" "handle d = Some nm"
    and blocks: "\<forall>b < DISK_BLOCKS. disk_block d b = (if b = 0 then sb_block adj_sb else if b = 1 then bitmap_block adj_bm
       else replicate BLOCK_SIZE 0)"
    and s: "disk s = d\<lparr>handle := None, active := False\<rparr>" "inode_table s = replicate MAX_NUM_OF_FILES zero_inode"
      "used_block_bitmap s = replicate (TOTAL_BLOCKS div CHAR_BIT) 0"
  obtains d' where "mount_fs (Some nm) s = Some (0, s\<lparr>superblock := make_superblock,
      directory := replicate MAX_NUM_OF_FILES zero_dir_entry,
      open_file_descriptors := map (\<lambda>_. \<lparr>fd_is_used = False, fd_inode_number = -1, fd_offset = 0\<rparr>) (open_file_descriptors s),
      open_disk_fd := 0, disk := d'\<rparr>)" "disk_ok d'"
proof -
  let ?sb = make_superblock and ?z = "replicate BLOCK_SIZE (0::u8)" and ?T = "replicate (MAX_NUM_OF_FILES * SIZEOF_INODE) (0::u8)"
  note M = make_superblock_fields and L = boot_blocks_length
  obtain d1 where d1: "open_disk (Some nm) (disk s) = (0, d1)" "disk_ok d1" "disk_block d1 = disk_block d"
    using reopen_disk [OF ok s(1)] by blast
  have r1: "block_read 0 ?z d1 = (0, sb_block adj_sb, tick (tick d1))"
    using block_read_ok [OF d1(2) DISK_BLOCKS_pos(1), of ?z] blocks d1(3) by simp
  have sb: "dec_super_block (take SIZEOF_SUPER_BLOCK (sb_block adj_sb)) = ?sb"
    using csb.dec_enc [of ?sb] csb.length_enc [of ?sb] by (simp add: sb_block_def)
  let ?d2 = "tick (tick d1)" and ?d3 = "tick (tick (tick (tick d1)))"
  have lt: "35 < DISK_BLOCKS" "1 < DISK_BLOCKS" by (simp_all add: DISK_BLOCKS_def)
  have "uint (inode_metadata_offset ?sb) + uint (inode_metadata_blocks ?sb) = int 35"
    using M(3,4) by (simp add: uint_unat del: of_nat_unat)
  then have r2: "block_read (uint (inode_metadata_offset ?sb) + uint (inode_metadata_blocks ?sb)) (sb_block adj_sb) ?d2 = (0, ?z, ?d3)"
    using block_read_ok [of ?d2 35 "sb_block adj_sb"] d1(2,3) lt(1) L(1) blocks by simp
  have slice: "table_slice ?T j = ?z" if "j < 33" for j
    using that by (simp add: table_slice_def inode_stride_eq MAX_NUM_OF_FILES_def SIZEOF_INODE_def BLOCK_SIZE_def)
  have "\<exists>bh' tbl' d'. load_inodes 33 0 (int 2) ?z ?T ?d3 = Some (0, bh', tbl', d') \<and>
      length bh' = BLOCK_SIZE \<and> length tbl' = length ?T \<and> (\<forall>q < length ?T. q < covered (0 + 33) \<or> True \<longrightarrow> tbl' ! q = ?T ! q) \<and>
      disk_ok d' \<and> disk_block d' = disk_block ?d3 \<and> files d' = files ?d3 \<and> handle d' = handle ?d3"
    using d1(2,3) blocks slice
    by (intro load_inodes_ok [where A = "\<lambda>_. True"])
      (simp_all add: covered_def inode_stride_eq MAX_NUM_OF_FILES_def SIZEOF_INODE_def BLOCK_SIZE_def DISK_BLOCKS_def)
  moreover have "uint (inode_metadata_offset ?sb) = int 2" using M(4) by (simp add: uint_unat del: of_nat_unat)
  ultimately obtain bh tbl d4 where r3: "load_inodes (unat (inode_metadata_blocks ?sb)) 0 (uint (inode_metadata_offset ?sb)) ?z
      (enc_inodes (inode_table s)) ?d3 = Some (0, bh, tbl, d4)" "length bh = BLOCK_SIZE" "length tbl = length ?T"
    "\<forall>q < length ?T. tbl ! q = ?T ! q" "disk_ok d4" "disk_block d4 = disk_block d"
    using M(3) d1(3) by (auto simp: s(2) enc_inodes_zeros)
  have nodes: "dec_inodes tbl = inode_table s" using r3(3,4) by (simp add: s(2) dec_inodes_zeros)
  have "uint (used_block_bitmap_offset ?sb) = int 1" using M(2) by (simp add: uint_unat del: of_nat_unat)
  then have r4: "block_read (uint (used_block_bitmap_offset ?sb)) bh d4 = (0, bitmap_block adj_bm, tick (tick d4))"
    using block_read_ok [OF r3(5) lt(2) r3(2)] r3(6) blocks lt(2) by simp
  have bm: "memcpy_at 0 (take 1 (bitmap_block adj_bm)) (used_block_bitmap s) = used_block_bitmap s"
    using replicate_Suc [of 1023 "0::u8"]
    by (simp add: s(3) memcpy_at_def bitmap_block_def TOTAL_BLOCKS_def CHAR_BIT_def del: replicate_Suc)
  have "mount_fs (Some nm) s = Some (0, s\<lparr>superblock := make_superblock,
      directory := replicate MAX_NUM_OF_FILES zero_dir_entry,
      open_file_descriptors := map (\<lambda>_. \<lparr>fd_is_used = False, fd_inode_number = -1, fd_offset = 0\<rparr>) (open_file_descriptors s),
      open_disk_fd := 0, disk := tick (tick d4)\<rparr>)"
    using d1(1) r1 sb r2 r3(1) r4 bm M(1) nodes dec_directory_zeros
    by (simp add: mount_fs_def Let_def) (simp add: s(3) TOTAL_BLOCKS_def CHAR_BIT_def)
  then show ?thesis using that r3(5) by simp
qed


section \<open>Example states\<close>

text \<open>A disk file of zeros that is open, and a file system on it with one open file.\<close>

definition demo_disk :: disk_state where
  "demo_disk = \<lparr>active = True, handle = Some ''d'', files = [''d'' \<mapsto> replicate (DISK_BLOCKS * BLOCK_SIZE) 0],
     clock = 0, io_error = (\<lambda>_. False), transfer = (\<lambda>_. BLOCK_SIZE)\<rparr>"

definition demo_fs :: fs_state where
  "demo_fs = snd (fs_open ''a'' (snd (fs_create ''a'' (fresh_state demo_disk))))"

lemma demo_disk_ok: "disk_ok demo_disk"
  by (simp add: disk_ok_def disk_contents_def demo_disk_def fault_free_def)

lemma fresh_lists:
  "inode_table (fresh_state d) = zero_inode # zero_inode # zero_inode # replicate 61 zero_inode"
  "directory (fresh_state d) = zero_dir_entry # zero_dir_entry # zero_dir_entry # replicate 61 zero_dir_entry"
  by (simp_all add: fresh_state_def init_globals_def MAX_NUM_OF_FILES_def numeral_eq_Suc)

lemma fresh_other:
  "open_disk_fd (fresh_state d) = 0" "disk (fresh_state d) = d" "superblock (fresh_state d) = make_superblock"
  "used_block_bitmap (fresh_state d) = replicate (TOTAL_BLOCKS div CHAR_BIT) 0"
  by (simp_all add: fresh_state_def init_globals_def)

end
