(* ===== verification/Systems.thy ===== *)
theory Systems
  imports Prelude
begin

text \<open>
  Components as systems of calls: a step takes a call and a state and returns a result and the new
  state, or \<open>None\<close> when the behaviour of the code is undefined.  Sequences of calls, invariants of
  sequences and quantities that never decrease are treated once here and used by the file system,
  the thread-local storage and the thread library.
\<close>

fun run_calls :: "('c \<Rightarrow> 's \<Rightarrow> ('r \<times> 's) option) \<Rightarrow> 'c list \<Rightarrow> 's \<Rightarrow> ('r list \<times> 's) option" where
  "run_calls step [] s = Some ([], s)"
| "run_calls step (c # cs) s =
     (case step c s of
        None \<Rightarrow> None
      | Some (r, s1) \<Rightarrow> (case run_calls step cs s1 of None \<Rightarrow> None | Some (rs, s2) \<Rightarrow> Some (r # rs, s2)))"

lemma run_calls_ConsE:
  assumes "run_calls step (c # cs) s = Some (rs, s')"
  obtains r s1 rs1 where "step c s = Some (r, s1)" "run_calls step cs s1 = Some (rs1, s')" "rs = r # rs1"
  using assms by (auto split: option.splits)

lemma run_calls_append:
  "run_calls step (cs @ ds) s =
     (case run_calls step cs s of
        None \<Rightarrow> None
      | Some (rs, s1) \<Rightarrow> (case run_calls step ds s1 of None \<Rightarrow> None | Some (rs', s2) \<Rightarrow> Some (rs @ rs', s2)))"
  by (induction cs arbitrary: s) (auto split: option.splits prod.splits)

lemma length_run_calls: "run_calls step cs s = Some (rs, s') \<Longrightarrow> length rs = length cs"
  by (induction cs arbitrary: s rs) (auto split: option.splits)

text \<open>Restricting a system to some of its calls.\<close>

definition only :: "('c \<Rightarrow> bool) \<Rightarrow> ('c \<Rightarrow> 's \<Rightarrow> ('r \<times> 's) option) \<Rightarrow> 'c \<Rightarrow> 's \<Rightarrow> ('r \<times> 's) option" where
  "only P step c s = (if P c then step c s else None)"

lemma run_calls_only: "list_all P cs \<Longrightarrow> run_calls (only P step) cs s = run_calls step cs s"
  by (induction cs arbitrary: s) (auto simp: only_def split: option.splits)

locale invariant_system =
  fixes step :: "'c \<Rightarrow> 's \<Rightarrow> ('r \<times> 's) option"
    and inv :: "'s \<Rightarrow> bool"
  assumes step_inv: "inv s \<Longrightarrow> step c s = Some (r, s') \<Longrightarrow> inv s'"
begin

lemma run_inv: "inv s \<Longrightarrow> run_calls step cs s = Some (rs, s') \<Longrightarrow> inv s'"
proof (induction cs arbitrary: s rs)
  case (Cons c cs)
  from Cons.prems(2) obtain r s1 rs1 where "step c s = Some (r, s1)" "run_calls step cs s1 = Some (rs1, s')"
    by (rule run_calls_ConsE)
  then show ?case using Cons.IH [of s1] step_inv [OF Cons.prems(1)] by blast
qed simp

end

text \<open>A quantity that grows by at least one with every step that succeeds in a certain way.\<close>

locale resource_system = invariant_system +
  fixes amount :: "'b \<Rightarrow> nat"
    and takes :: "'a \<Rightarrow> 'c \<Rightarrow> bool"
  assumes step_amount: "inv s \<Longrightarrow> step c s = Some (r, s') \<Longrightarrow> amount s + (if takes c r then 1 else 0) \<le> amount s'"
begin

lemma run_amount:
  assumes "inv s" "run_calls step cs s = Some (rs, s')"
  shows "amount s + length (filter (\<lambda>(c, r). takes c r) (zip cs rs)) \<le> amount s'"
  using assms
proof (induction cs arbitrary: s rs)
  case (Cons c cs)
  from Cons.prems(2) obtain r s1 rs1 where
    1: "step c s = Some (r, s1)" "run_calls step cs s1 = Some (rs1, s')" "rs = r # rs1"
    by (rule run_calls_ConsE)
  then have "amount s1 + length (filter (\<lambda>(c, r). takes c r) (zip cs rs1)) \<le> amount s'"
    using Cons.IH [of s1] step_inv [OF Cons.prems(1)] by blast
  then show ?case using step_amount [OF Cons.prems(1) 1(1)] 1(3) by auto
qed simp

end

end
