(* ===== verification/FS_Calls.thy ===== *)
theory FS_Calls
  imports FS_Write Systems
begin

text \<open>
  The file system as a system of calls: every sequence of calls keeps the directory invariant, on
  every disk, with or without faults, and the number of inodes in use never decreases.
\<close>

section \<open>Reading and writing keep the directory invariant\<close>

text \<open>The number of inodes in use.\<close>

definition inodes_used :: "fs_state \<Rightarrow> nat" where
  "inodes_used s = used_count inode_used (inode_table s)"

definition keeps :: "fs_state \<Rightarrow> fs_state \<Rightarrow> bool" where
  "keeps s s' \<longleftrightarrow> dir_inv s' \<and> inodes_used s' = inodes_used s"

lemma keeps_trans: "keeps s s1 \<Longrightarrow> keeps s1 s2 \<Longrightarrow> keeps s s2"
  by (simp add: keeps_def)

lemma inodes_used_update:
  assumes "file_type nd = file_type (inode_table s ! ino)"
  shows "used_count inode_used ((inode_table s)[ino := nd]) = inodes_used s"
proof (cases "ino < length (inode_table s)")
  case True
  then show ?thesis
    using used_count_update [OF True, of inode_used nd] assms by (simp add: inodes_used_def inode_used_def split: if_splits)
qed (simp add: inodes_used_def list_update_beyond)

lemma keeps_disk: "dir_inv s \<Longrightarrow> keeps s (s\<lparr>disk := d\<rparr>)"
  by (simp add: keeps_def inodes_used_def)

lemma keeps_alloc_block:
  assumes "dir_inv s" "ino < MAX_NUM_OF_FILES" "alloc_block ino k s = Some s1"
  shows "keeps s s1" "open_file_descriptors s1 = open_file_descriptors s"
proof -
  have "s1 = s \<or> (\<exists>b. s1 = with_block ino k b s)"
    using assms(3) by (auto simp: alloc_block_def with_block_def Let_def split: if_splits option.splits)
  moreover have "keeps s (with_block ino k b s)" for b
    using dir_inv_with_block [OF assms(1,2)] inodes_used_update
    by (simp add: keeps_def) (simp add: inodes_used_def with_block_def inodes_used_update)
  ultimately show "keeps s s1" "open_file_descriptors s1 = open_file_descriptors s"
    using assms(1) by (auto simp: keeps_def with_block_def)
qed

lemma keeps_set_fd_offset:
  "dir_inv s \<Longrightarrow> 0 \<le> off \<Longrightarrow> off \<le> int MAX_FILESIZE \<Longrightarrow> keeps s (set_fd_offset fildes off s)"
  using set_fd_offset_inv by (simp add: keeps_def) (simp add: inodes_used_def set_fd_offset_def)

lemma keeps_set_file_size: "dir_inv s \<Longrightarrow> unat sz \<le> MAX_FILESIZE \<Longrightarrow> keeps s (set_file_size ino sz s)"
  using set_file_size_inv by (simp add: keeps_def) (simp add: inodes_used_def set_file_size_def inodes_used_update)

lemma keeps_advance:
  assumes "dir_inv s" "fd_offset (open_file_descriptors s ! nat fildes) + int n = int m" "m \<le> MAX_FILESIZE"
  shows "keeps s (advance fildes ino n s)"
proof -
  let ?s1 = "set_fd_offset fildes (int m) s"
  have 1: "keeps s ?s1" using assms keeps_set_fd_offset by simp
  then have "keeps ?s1 (set_file_size (int ino) (ulong_of_int (int m)) ?s1)"
    using ulong_of_pos [OF assms(3)] assms(3) by (intro keeps_set_file_size) (simp_all add: keeps_def)
  with 1 show ?thesis using assms(2) keeps_trans by (auto simp: advance_def Let_def)
qed

lemma fs_write_loop_keeps:
  assumes "dir_inv s" "ino < MAX_NUM_OF_FILES" "nat fildes < MAX_FILE_DESCRIPTORS" "boff < BLOCK_SIZE"
    "fd_offset (open_file_descriptors s ! nat fildes) = int (k * BLOCK_SIZE + boff) \<or> length buf \<le> n"
    "fs_write_loop fildes ino buf n k boff blk s = Some (r, s')"
  shows "keeps s s'"
  using assms
proof (induction "length buf - n" arbitrary: n k boff blk s rule: less_induct)
  case less
  note P = less.prems
  note unfold = fs_write_loop.simps [of fildes ino buf n k boff blk s]
  show ?case
  proof (cases "n < length buf")
    case False
    then show ?thesis using P(1,6) by (auto simp: unfold keeps_def)
  next
    case True
    have pos: "fd_offset (open_file_descriptors s ! nat fildes) = int (k * BLOCK_SIZE + boff)" using P(5) True by simp
    have "length (direct_offset (inode_table s ! ino)) = NDIRECT"
      using P(1,2) wf_tables_nth(1) by (auto simp: dir_inv_def wf_inode_def)
    then have k: "k < NDIRECT" using P(6) True by (auto simp: unfold split: if_splits)
    then have "Suc k * BLOCK_SIZE \<le> NDIRECT * BLOCK_SIZE" by (intro mult_le_mono1) simp
    then have room: "k * BLOCK_SIZE + BLOCK_SIZE \<le> MAX_FILESIZE" by (simp add: NDIRECT_bytes)
    show ?thesis
    proof (cases "alloc_block ino k s")
      case None
      then show ?thesis using P(1,6) True by (auto simp: unfold keeps_def split: if_splits)
    next
      case (Some s1)
      note A = keeps_alloc_block [OF P(1,2) Some]
      define b where "b = int_of_ulong (direct_offset (inode_table s1 ! ino) ! k)"
      obtain r1 blk1 d1 where rd: "block_read b blk (disk s1) = (r1, blk1, d1)" by (metis prod_cases3)
      define cur where "cur = (if length buf - n < BLOCK_SIZE - boff then length buf - n else BLOCK_SIZE - boff)"
      define blk2 where "blk2 = memcpy_at boff (take cur (drop n buf)) blk1"
      obtain r2 d2 where wr: "block_write b blk2 d1 = (r2, d2)" by (metis surj_pair)
      have inv1: "dir_inv s1" using A(1) by (simp add: keeps_def)
      consider "s' = s1\<lparr>disk := d1\<rparr>" | "s' = s1\<lparr>disk := d2\<rparr>"
        | "fs_write_loop fildes ino buf (n + cur) (Suc k) 0 blk2 (advance fildes ino cur (s1\<lparr>disk := d2\<rparr>)) = Some (r, s')"
        using P(6) True Some rd wr
        by (auto simp: unfold Let_def b_def [symmetric] cur_def [symmetric] blk2_def [symmetric] split: if_splits)
      then show ?thesis
      proof cases
        case 3
        let ?s2 = "s1\<lparr>disk := d2\<rparr>" and ?s3 = "advance fildes ino cur (s1\<lparr>disk := d2\<rparr>)"
        have cur: "0 < cur" "boff + cur \<le> BLOCK_SIZE" "cur \<le> length buf - n" using True P(4) by (auto simp: cur_def)
        have off: "fd_offset (open_file_descriptors ?s2 ! nat fildes) + int cur = int (k * BLOCK_SIZE + boff + cur)"
          using pos A(2) by simp
        have s3: "keeps ?s2 ?s3" using inv1 cur(2) room by (intro keeps_advance [OF _ off]) simp_all
        have "nat fildes < length (open_file_descriptors s1)" using inv1 P(3) by (simp add: dir_inv_def wf_tables_def)
        then have off3: "fd_offset (open_file_descriptors ?s3 ! nat fildes) = int (k * BLOCK_SIZE + boff + cur)"
          using off by (simp add: advance_frame)
        have "k * BLOCK_SIZE + boff + cur = Suc k * BLOCK_SIZE + 0 \<or> length buf \<le> n + cur"
          using cur True by (auto simp: cur_def)
        then have "fd_offset (open_file_descriptors ?s3 ! nat fildes) = int (Suc k * BLOCK_SIZE + 0) \<or> length buf \<le> n + cur"
          using off3 by metis
        then have "keeps ?s3 s'"
          using less.hyps [OF _ _ P(2,3) BLOCK_SIZE_pos(1) _ 3] cur True s3 by (simp add: keeps_def)
        then show ?thesis using A(1) keeps_disk [OF inv1] s3 keeps_trans by blast
      qed (use A(1) keeps_disk [OF inv1] keeps_trans in blast)+
    qed
  qed
qed

lemma fs_write_keeps:
  assumes "dir_inv s" "fs_write fildes buf s = Some (r, s')"
  shows "keeps s s'"
proof (cases "usable_fd fildes s \<and> buf \<noteq> []")
  case False
  then show ?thesis using assms by (auto simp: fs_write_def usable_fd_def keeps_def Let_def split: if_splits)
next
  case True
  then have fd: "usable_fd fildes s" by simp
  note F = usable_fdD [OF fd assms(1)]
  have "fs_write_loop fildes (ino_of fildes s) buf 0 (pos_of fildes s div BLOCK_SIZE)
      (pos_of fildes s mod BLOCK_SIZE) (replicate BLOCK_SIZE 0) s = Some (r, s')"
    using assms(2) True F(3) by (auto simp: fs_write_def usable_fd_def ino_of_def pos_of_def Let_def split: if_splits)
  then show ?thesis
    using F by (intro fs_write_loop_keeps [OF assms(1) F(2,1)]) simp_all
qed


lemma fs_read_loop_bound:
  assumes "fs_read_loop nd left bi boff out blk d = Some (r, out', d')" "r \<noteq> -1" "boff < BLOCK_SIZE"
  shows "left = 0 \<or> bi * BLOCK_SIZE + boff + left \<le> length (direct_offset nd) * BLOCK_SIZE"
  using assms
proof (induction nd left bi boff out blk d rule: fs_read_loop.induct)
  case (1 nd left bi boff out blk d)
  note unfold = fs_read_loop.simps [of nd left bi boff out blk d]
  show ?case
  proof (cases "left = 0")
    case False
    then have bi: "bi < length (direct_offset nd)" using "1.prems"(1) by (auto simp: unfold split: if_splits)
    obtain r1 blk1 d1 where rd: "block_read (int_of_ulong (direct_offset nd ! bi)) blk d = (r1, blk1, d1)"
      by (metis prod_cases3)
    define cur where "cur = (if left < BLOCK_SIZE - boff then left else BLOCK_SIZE - boff)"
    have "r1 \<noteq> -1" using "1.prems"(1,2) False bi rd by (auto simp: unfold split: if_splits)
    moreover from this have "fs_read_loop nd (left - cur) (Suc bi) 0 (out @ take cur (drop boff blk1)) blk1 d1 = Some (r, out', d')"
      using "1.prems"(1) False bi rd by (simp add: unfold Let_def cur_def [symmetric])
    ultimately have "left - cur = 0 \<or> Suc bi * BLOCK_SIZE + 0 + (left - cur) \<le> length (direct_offset nd) * BLOCK_SIZE"
      using "1.IH" [OF False _ rd [symmetric] refl _ cur_def] bi "1.prems"(2) by simp
    moreover have "Suc bi * BLOCK_SIZE \<le> length (direct_offset nd) * BLOCK_SIZE" using bi by (intro mult_le_mono1) simp
    ultimately show ?thesis using "1.prems"(3) by (auto simp: cur_def split: if_splits)
  qed simp
qed

lemma fs_read_keeps:
  assumes inv: "dir_inv s" and rd: "fs_read fildes nbyte s = Some (r, out, s')"
  shows "keeps s s'"
proof (cases "keeps s s'")
  case False
  let ?f = "open_file_descriptors s ! nat fildes"
  let ?rem = "int_of_ulong (file_size (inode_table s ! nat (fd_inode_number ?f)) - ulong_of_int (fd_offset ?f))"
  define n where "n = (if nbyte < ulong_of_int ?rem then int_of_ulong nbyte else ?rem)"
  have "s' \<noteq> s" using False inv by (auto simp: keeps_def)
  moreover have "s' \<noteq> s\<lparr>disk := d\<rparr>" for d using False keeps_disk [OF inv] by auto
  ultimately obtain d r1 where loop: "usable_fd fildes s" "0 < n"
    "fs_read_loop (inode_table s ! ino_of fildes s) (nat n) (pos_of fildes s div BLOCK_SIZE)
       (pos_of fildes s mod BLOCK_SIZE) [] (replicate BLOCK_SIZE 0) (disk s) = Some (r1, out, d)" "r1 \<noteq> -1"
    "s' = set_fd_offset fildes (fd_offset ?f + n) (s\<lparr>disk := d\<rparr>)"
    using rd unfolding fs_read_def Let_def n_def [symmetric]
    by (auto simp: usable_fd_def ino_of_def pos_of_def not_le split: if_splits option.splits) blast
  note F = usable_fdD [OF loop(1) inv]
  have "length (direct_offset (inode_table s ! ino_of fildes s)) = NDIRECT"
    using inv F(2) wf_tables_nth(1) by (auto simp: dir_inv_def wf_inode_def)
  then have "pos_of fildes s + nat n \<le> MAX_FILESIZE"
    using fs_read_loop_bound [OF loop(3,4)] loop(2) NDIRECT_bytes by simp
  then have "keeps (s\<lparr>disk := d\<rparr>) s'"
    using inv F(3) loop(2) unfolding loop(5) by (intro keeps_set_fd_offset) simp_all
  then show ?thesis using keeps_trans [OF keeps_disk [OF inv, of d]] by blast
qed

section \<open>Calls\<close>

datatype fs_call =
    Open string | Close int | Create string | Delete string | Read int u64 | Write int "u8 list"
  | Get_Filesize int | List_Files | Lseek int int | Truncate int int

fun fs_call_step :: "(nat \<Rightarrow> u8) \<Rightarrow> fs_call \<Rightarrow> fs_state \<Rightarrow> (int \<times> fs_state) option" where
  "fs_call_step adj (Open nm) s = Some (fs_open nm s)"
| "fs_call_step adj (Close fd) s = Some (fs_close fd s)"
| "fs_call_step adj (Create nm) s = Some (fs_create nm s)"
| "fs_call_step adj (Delete nm) s = Some (fs_delete adj nm s)"
| "fs_call_step adj (Read fd n) s = (case fs_read fd n s of None \<Rightarrow> None | Some (r, out, s') \<Rightarrow> Some (r, s'))"
| "fs_call_step adj (Write fd buf) s = fs_write fd buf s"
| "fs_call_step adj (Get_Filesize fd) s = (case fs_get_filesize fd s of None \<Rightarrow> None | Some r \<Rightarrow> Some (r, s))"
| "fs_call_step adj List_Files s = Some (fst (fs_listfiles s), s)"
| "fs_call_step adj (Lseek fd off) s = Some (fs_lseek fd off s)"
| "fs_call_step adj (Truncate fd len) s = Some (fs_truncate fd len s)"

definition creates :: "fs_call \<Rightarrow> int \<Rightarrow> bool" where
  "creates c r \<longleftrightarrow> (case c of Create _ \<Rightarrow> r = 0 | _ \<Rightarrow> False)"

lemma same_inode_types:
  assumes "map file_type (inode_table s') = map file_type (inode_table s)"
  shows "inodes_used s' = inodes_used s"
proof -
  have eq: "inodes_used t = length (filter (\<lambda>ft. ft \<noteq> 0) (map file_type (inode_table t)))" for t
    by (simp add: inodes_used_def used_count_def inode_used_def [abs_def] comp_def filter_map)
  show ?thesis by (simp only: eq assms)
qed

lemma fs_create_amount:
  assumes "dir_inv s"
  shows "inodes_used s + (if fst (fs_create name s) = 0 then 1 else 0) \<le> inodes_used (snd (fs_create name s))"
proof (cases "can_create name s")
  case True
  with assms obtain i j where i: "find_slot (\<lambda>nd. \<not> inode_used nd) (inode_table s) = Some i"
    "fs_create name s = (0, created name i j s)" by (rule fs_create_ok)
  then show ?thesis using inodes.take_slot_count [OF i(1), of "()"] by (simp add: inodes_used_def created_def)
next
  case False
  then show ?thesis using fs_create_fail [OF assms] by simp
qed

lemma fs_truncate_types:
  "map file_type (inode_table (snd (fs_truncate fildes len s))) = map file_type (inode_table s)"
  by (simp add: fs_truncate_def set_fd_offset_def set_file_size_def Let_def map_update)
    (metis list_update_id map_update)

lemma fs_simple_types:
  "inode_table (snd (fs_open name s)) = inode_table s" "inode_table (snd (fs_close fildes s)) = inode_table s"
  "inode_table (snd (fs_lseek fildes off s)) = inode_table s" "inode_table (snd (fs_delete adj name s)) = inode_table s"
  by (auto simp: fs_open_def fs_close_def fs_lseek_def fs_delete_def set_fd_offset_def Let_def split: option.splits)

lemma fs_call_inv:
  assumes "dir_inv s" "fs_call_step adj c s = Some (r, s')"
  shows "dir_inv s' \<and> inodes_used s + (if creates c r then 1 else 0) \<le> inodes_used s'"
  using assms
proof (cases c)
  case (Read fd n)
  then show ?thesis
    using assms fs_read_keeps [OF assms(1)] by (auto simp: creates_def keeps_def split: option.splits)
next
  case (Write fd buf)
  then show ?thesis using assms fs_write_keeps [OF assms(1)] by (auto simp: creates_def keeps_def)
next
  case (Create nm)
  then show ?thesis
    using assms fs_create_inv [OF assms(1), of nm] fs_create_amount [OF assms(1), of nm] by (auto simp: creates_def)
next
  case (Truncate fd len)
  then show ?thesis
    using assms fs_truncate_inv [OF assms(1), of fd len] same_inode_types [OF fs_truncate_types, of fd len s]
    by (auto simp: creates_def)
next
  case (Open nm)
  then show ?thesis
    using assms fs_open_inv [OF assms(1), of nm] fs_simple_types(1) [of nm s] by (auto simp: creates_def inodes_used_def)
next
  case (Close fd)
  then show ?thesis
    using assms fs_close_inv [OF assms(1), of fd] fs_simple_types(2) [of fd s] by (auto simp: creates_def inodes_used_def)
next
  case (Lseek fd off)
  then show ?thesis
    using assms fs_lseek_inv [OF assms(1), of fd off] fs_simple_types(3) [of fd off s]
    by (auto simp: creates_def inodes_used_def)
next
  case (Delete nm)
  then show ?thesis
    using assms fs_delete_inv [OF assms(1), of adj nm] fs_simple_types(4) [of adj nm s]
    by (auto simp: creates_def inodes_used_def)
qed (auto simp: creates_def split: option.splits)

interpretation fsys: resource_system "fs_call_step adj" dir_inv inodes_used creates
  by unfold_locales (use fs_call_inv in blast)+

end
