(* ===== verification/FS_Sharing.thy ===== *)
theory FS_Sharing
  imports FS_Calls
begin

text \<open>
  No two files share a block, as long as nothing is deleted: every call but \<open>fs_delete\<close> keeps the
  data invariant on a disk without faults, also a write that runs into the end of the block
  pointers or of the disk.
\<close>

section \<open>Writes of any length\<close>

lemma fs_write_loop_over:
  assumes "data_inv s" "dir_inv s" "ino < MAX_NUM_OF_FILES" "nat fildes < MAX_FILE_DESCRIPTORS"
    "fd_offset (open_file_descriptors s ! nat fildes) = int (k * BLOCK_SIZE + boff)"
    "boff < BLOCK_SIZE" "length blk = BLOCK_SIZE" "k * BLOCK_SIZE + boff \<le> MAX_FILESIZE"
    "MAX_FILESIZE < k * BLOCK_SIZE + boff + (length buf - n)"
  shows "fs_write_loop fildes ino buf n k boff blk s = None \<or>
    (\<exists>s'. fs_write_loop fildes ino buf n k boff blk s = Some (-1, s') \<and> data_inv s')"
  using assms
proof (induction "length buf - n" arbitrary: n k boff blk s rule: less_induct)
  case less
  note P = less.prems
  note unfold = fs_write_loop.simps [of fildes ino buf n k boff blk s]
  have len: "length (direct_offset (inode_table s ! ino)) = NDIRECT"
    using data_invD(4) [OF P(1,3)] by (simp add: inode_blocks_ok_def)
  have n: "n < length buf" using P(8,9) by linarith
  show ?case
  proof (cases "k < NDIRECT")
    case False
    then show ?thesis using n len by (simp add: unfold)
  next
    case k: True
    show ?thesis
    proof (cases "alloc_block ino k s")
      case None
      then show ?thesis using n len k P(1) by (simp add: unfold)
    next
      case (Some s1)
      let ?cur = "round_bytes buf n boff"
      note R = round_bytes [OF n P(6)]
      obtain blk2 s2 where loop: "fs_write_loop fildes ino buf n k boff blk s = fs_write_loop fildes ino buf (n + ?cur) (Suc k) 0 blk2 s2"
        and post: "write_post (nat fildes) ino (k * BLOCK_SIZE + boff) (take ?cur (drop n buf)) s s2"
        and blk2: "length blk2 = BLOCK_SIZE"
        using fs_write_loop_step [OF P(1-7) n k Some] by metis
      have room: "Suc k * BLOCK_SIZE \<le> MAX_FILESIZE"
        using k mult_le_mono1 [of "Suc k" NDIRECT BLOCK_SIZE] NDIRECT_bytes by simp
      then have step: "Suc k * BLOCK_SIZE = k * BLOCK_SIZE + boff + ?cur" using R(3) R(4) [of k] P(9) by auto
      have "length (take ?cur (drop n buf)) = ?cur" using R(2) by simp
      then have "fd_offset (open_file_descriptors s2 ! nat fildes) = int (Suc k * BLOCK_SIZE + 0)"
        using post step by (simp only: write_post_def)
      moreover have "MAX_FILESIZE < Suc k * BLOCK_SIZE + 0 + (length buf - (n + ?cur))"
        unfolding step using P(9) R(2) n by linarith
      moreover have "length buf - (n + ?cur) < length buf - n" using R(1) n by simp
      moreover have "data_inv s2" "dir_inv s2" using post by (simp_all add: write_post_def)
      moreover have "Suc k * BLOCK_SIZE + 0 \<le> MAX_FILESIZE" using room by simp
      ultimately show ?thesis
        unfolding loop by (intro less.hyps [OF _ _ _ P(3,4) _ BLOCK_SIZE_pos(1) blk2])
    qed
  qed
qed

lemma fs_write_beyond:
  assumes inv: "data_inv s" "dir_inv s" and fd: "usable_fd fildes s"
    and over: "MAX_FILESIZE < pos_of fildes s + length buf"
  shows "fs_write fildes buf s = None \<or> (\<exists>s'. fs_write fildes buf s = Some (-1, s') \<and> data_inv s')"
proof -
  note F = usable_fdD [OF fd inv(2)]
  let ?P = "pos_of fildes s"
  have "fs_write fildes buf s = fs_write_loop fildes (ino_of fildes s) buf 0 (?P div BLOCK_SIZE)
      (?P mod BLOCK_SIZE) (replicate BLOCK_SIZE 0) s"
    using fd F(3,4) over by (auto simp: fs_write_def usable_fd_def ino_of_def pos_of_def Let_def)
  then show ?thesis
    using fs_write_loop_over [OF inv F(2,1), of "?P div BLOCK_SIZE" "?P mod BLOCK_SIZE" "replicate BLOCK_SIZE 0" buf 0] F over
    by simp
qed

text \<open>The blocks that the search for a free block can find; a round of the loop takes at most one of them.\<close>

definition free_blocks :: "fs_state \<Rightarrow> nat set" where
  "free_blocks s = {b. unat (used_block_bitmap_offset (superblock s)) \<le> b \<and> b < TOTAL_BLOCKS \<and>
     \<not> get_bit_at (used_block_bitmap s) b}"

lemma finite_free_blocks: "finite (free_blocks s)"
  by (rule finite_subset [of _ "{..<TOTAL_BLOCKS}"]) (auto simp: free_blocks_def)

lemma free_blocks_step:
  assumes "data_inv s" "alloc_block ino k s = Some s1" "same_blocks s1 s2"
  shows "card (free_blocks s) \<le> Suc (card (free_blocks s2))"
proof -
  have s2: "free_blocks s2 = free_blocks s1" using assms(3) by (simp add: same_blocks_def free_blocks_def)
  from assms(1,2) show ?thesis
  proof (cases rule: alloc_block_cases)
    case old
    then show ?thesis using s2 by simp
  next
    case (new b)
    have "b div 8 < length (used_block_bitmap s)"
      using data_invD(2) [OF assms(1)] bitmap_index [OF new(4)] by simp
    then have "free_blocks s1 = free_blocks s - {b}"
      using get_set_bit_at [of b "used_block_bitmap s"] by (auto simp: free_blocks_def new(1) with_block_def)
    then show ?thesis using s2 finite_free_blocks by (auto simp: card_Diff_singleton_if)
  qed
qed

text \<open>With enough free blocks a write past the largest file size reaches the end of \<open>direct_offset\<close>.\<close>

lemma fs_write_loop_past:
  assumes "data_inv s" "dir_inv s" "ino < MAX_NUM_OF_FILES" "nat fildes < MAX_FILE_DESCRIPTORS"
    "fd_offset (open_file_descriptors s ! nat fildes) = int (k * BLOCK_SIZE + boff)"
    "boff < BLOCK_SIZE" "length blk = BLOCK_SIZE"
    "MAX_FILESIZE < k * BLOCK_SIZE + boff + (length buf - n)" "n < length buf" "NDIRECT - k \<le> card (free_blocks s)"
  shows "fs_write_loop fildes ino buf n k boff blk s = None"
  using assms
proof (induction "NDIRECT - k" arbitrary: n k boff blk s)
  case 0
  then have "length (direct_offset (inode_table s ! ino)) \<le> k"
    using data_invD(4) [OF 0(2,4)] by (simp add: inode_blocks_ok_def)
  then show ?case using 0(10) by (simp add: fs_write_loop.simps [of fildes ino buf n k boff blk s])
next
  case (Suc m)
  note P = Suc.prems
  have k: "k < NDIRECT" using Suc.hyps(2) by simp
  obtain s1 where s1: "alloc_block ino k s = Some s1"
  proof (cases "alloc_block ino k s")
    case None
    then have "free_blocks s = {}" using alloc_block_None by (auto simp: disk_full_def free_blocks_def)
    then show ?thesis using P(10) k by simp
  qed
  let ?cur = "round_bytes buf n boff"
  note R = round_bytes [OF P(9,6)]
  obtain blk2 s2 where loop: "fs_write_loop fildes ino buf n k boff blk s = fs_write_loop fildes ino buf (n + ?cur) (Suc k) 0 blk2 s2"
    and post: "write_post (nat fildes) ino (k * BLOCK_SIZE + boff) (take ?cur (drop n buf)) s s2"
    and blk2: "length blk2 = BLOCK_SIZE" "same_blocks s1 s2"
    using fs_write_loop_step [OF P(1-7,9) k s1] by metis
  have room: "Suc k * BLOCK_SIZE \<le> MAX_FILESIZE"
    using k mult_le_mono1 [of "Suc k" NDIRECT BLOCK_SIZE] NDIRECT_bytes by simp
  then have step: "Suc k * BLOCK_SIZE = k * BLOCK_SIZE + boff + ?cur" using R(3) R(4) [of k] P(8) by auto
  have "length (take ?cur (drop n buf)) = ?cur" using R(2) by simp
  then have "fd_offset (open_file_descriptors s2 ! nat fildes) = int (Suc k * BLOCK_SIZE + 0)"
    using post step by (simp only: write_post_def)
  moreover have over: "MAX_FILESIZE < Suc k * BLOCK_SIZE + 0 + (length buf - (n + ?cur))"
    unfolding step using P(8,9) R(2) by linarith
  moreover from this have "n + ?cur < length buf" using room by linarith
  moreover have "NDIRECT - Suc k \<le> card (free_blocks s2)"
    using free_blocks_step [OF P(1) s1 blk2(2)] P(10) by linarith
  moreover have "data_inv s2" "dir_inv s2" using post by (simp_all add: write_post_def)
  moreover have "m = NDIRECT - Suc k" using Suc.hyps(2) by simp
  ultimately show ?case
    unfolding loop by (intro Suc.hyps(1) [OF _ _ _ P(3,4) _ BLOCK_SIZE_pos(1) blk2(1)])
qed

lemma fs_write_past:
  assumes inv: "data_inv s" "dir_inv s" and fd: "usable_fd fildes s"
    and over: "MAX_FILESIZE < pos_of fildes s + length buf"
    and room: "NDIRECT - pos_of fildes s div BLOCK_SIZE \<le> card (free_blocks s)"
  shows "fs_write fildes buf s = None"
proof -
  note F = usable_fdD [OF fd inv(2)]
  let ?P = "pos_of fildes s"
  have buf: "buf \<noteq> []" using over F(4) by auto
  then have "fs_write fildes buf s = fs_write_loop fildes (ino_of fildes s) buf 0 (?P div BLOCK_SIZE)
      (?P mod BLOCK_SIZE) (replicate BLOCK_SIZE 0) s"
    using fd F(3) by (auto simp: fs_write_def usable_fd_def ino_of_def pos_of_def Let_def)
  then show ?thesis
    using fs_write_loop_past [OF inv F(2,1), of "?P div BLOCK_SIZE" "?P mod BLOCK_SIZE" "replicate BLOCK_SIZE 0" buf 0] F over room buf
    by simp
qed

lemma fs_write_data_inv:
  assumes "data_inv s" "dir_inv s" "fs_write fildes buf s = Some (r, s')"
  shows "data_inv s'"
proof (cases "usable_fd fildes s")
  case False
  then show ?thesis using assms by (auto simp: fs_write_def usable_fd_def Let_def split: if_splits)
next
  case fd: True
  show ?thesis
  proof (cases "pos_of fildes s + length buf \<le> MAX_FILESIZE")
    case True
    then show ?thesis
      using fs_write_correct [OF assms(1,2) fd True] assms(3) by (auto simp: write_result_def write_post_def)
  next
    case False
    then show ?thesis using fs_write_beyond [OF assms(1,2) fd, of buf] assms(3) by auto
  qed
qed

section \<open>The other calls\<close>

text \<open>Dropping blocks from inodes keeps the invariant.\<close>

lemma data_inv_fewer:
  assumes inv: "data_inv s" and disk: "disk_ok (disk s')" "used_block_bitmap s' = used_block_bitmap s"
    "length (inode_table s') = length (inode_table s)"
    "used_block_bitmap_offset (superblock s') = used_block_bitmap_offset (superblock s)"
    and nodes: "\<And>i. i < MAX_NUM_OF_FILES \<Longrightarrow> direct_offset (inode_table s' ! i) = direct_offset (inode_table s ! i) \<or>
      direct_offset (inode_table s' ! i) = replicate NDIRECT 0"
  shows "data_inv s'"
proof -
  note D = data_invD [OF inv]
  have al: "alloc_of s' i k = alloc_of s i k \<or> alloc_of s' i k = 0" if "i < MAX_NUM_OF_FILES" "k < NDIRECT" for i k
    using nodes [OF that(1)] that(2) by (auto simp: alloc_of_def)
  have ok: "inode_blocks_ok (inode_table s' ! i)" if "i < MAX_NUM_OF_FILES" for i
    using nodes [OF that] D(4) [OF that] by (auto simp: inode_blocks_ok_def)
  show ?thesis
    unfolding data_inv_def
  proof (intro conjI allI impI)
    fix i k i' k'
    assume *: "i < MAX_NUM_OF_FILES" "k < NDIRECT" "i' < MAX_NUM_OF_FILES" "k' < NDIRECT"
      "alloc_of s' i k \<noteq> 0 \<and> alloc_of s' i k = alloc_of s' i' k'"
    then have "alloc_of s i k \<noteq> 0" "alloc_of s i k = alloc_of s i' k'"
      using al [of i k] al [of i' k'] by auto
    then show "i = i'" "k = k'" using D(7) [OF *(1-4)] by simp_all
  next
    fix i k
    assume "i < MAX_NUM_OF_FILES" "k < NDIRECT" "alloc_of s' i k \<noteq> 0"
    then show "get_bit_at (used_block_bitmap s') (alloc_of s' i k)"
      using al [of i k] D(6) [of i k] disk(2) by auto
  qed (use D disk ok in simp_all)
qed

text \<open>Reading blocks changes nothing but the call counter.\<close>

lemma block_read_frame:
  assumes "block_read b buf d = (r, blk, d')" "disk_ok d"
  shows "disk_ok d'"
proof -
  have "d' = d \<or> d' = tick d \<or> d' = tick (tick d)"
    using assms(1) by (auto simp: block_read_def sys_lseek_def sys_read_def split: if_splits option.splits)
  then show ?thesis using assms(2) by auto
qed

lemma fs_read_loop_frame:
  assumes "fs_read_loop nd left bi boff out blk d = Some (r, out', d')" "disk_ok d"
  shows "disk_ok d'"
  using assms
proof (induction nd left bi boff out blk d rule: fs_read_loop.induct)
  case (1 nd left bi boff out blk d)
  note unfold = fs_read_loop.simps [of nd left bi boff out blk d]
  obtain r1 blk1 d1 where rd: "block_read (int_of_ulong (direct_offset nd ! bi)) blk d = (r1, blk1, d1)"
    by (metis prod_cases3)
  have d1: "disk_ok d1" using block_read_frame [OF rd "1.prems"(2)] .
  consider "left = 0" | "left \<noteq> 0" "bi < length (direct_offset nd)" "r1 = -1" | "left \<noteq> 0" "bi < length (direct_offset nd)" "r1 \<noteq> -1"
    using "1.prems"(1) by (auto simp: unfold split: if_splits)
  then show ?case
  proof cases
    case 3
    then show ?thesis
      using "1.IH" [OF 3(1) _ rd [symmetric] refl 3(3) refl _ d1] "1.prems"(1) rd by (simp add: unfold Let_def)
  next
    case 1
    then show ?thesis using "1.prems" by (simp add: fs_read_loop.simps [of nd 0])
  qed (use "1.prems" rd d1 in \<open>auto simp: unfold\<close>)
qed

lemma data_inv_frame:
  assumes "data_inv s" "disk_ok (disk s')" "used_block_bitmap s' = used_block_bitmap s"
    "inode_table s' = inode_table s" "superblock s' = superblock s"
  shows "data_inv s'"
  using assms by (intro data_inv_cong [of s' s]) simp_all

lemma fs_read_data_inv:
  assumes inv: "data_inv s" and rd: "fs_read fildes nbyte s = Some (r, out, s')"
  shows "data_inv s'"
proof -
  have "s' = s \<or> (\<exists>d. disk_ok d \<and> (s' = s\<lparr>disk := d\<rparr> \<or> (\<exists>off. s' = set_fd_offset fildes off (s\<lparr>disk := d\<rparr>))))"
    using rd unfolding fs_read_def Let_def
    by (auto split: if_splits option.splits dest!: fs_read_loop_frame [OF _ data_invD(1) [OF inv]]) blast+
  then show ?thesis
    using inv by (auto intro!: data_inv_frame [OF inv] simp: set_fd_offset_def)
qed

lemma fs_create_data_inv:
  assumes "dir_inv s" "data_inv s"
  shows "data_inv (snd (fs_create name s))"
proof (cases "can_create name s")
  case True
  with assms(1) obtain i j where created: "fs_create name s = (0, created name i j s)" by (rule fs_create_ok)
  have "direct_offset ((inode_table s)[i := fill_inode () (inode_table s ! i)] ! m) = direct_offset (inode_table s ! m) \<or>
      direct_offset ((inode_table s)[i := fill_inode () (inode_table s ! i)] ! m) = replicate NDIRECT 0"
    if "m < MAX_NUM_OF_FILES" for m
    using that data_invD(3) [OF assms(2)] by (cases "m = i") (simp_all add: fill_inode_def)
  then have "data_inv (created name i j s)"
    using data_invD(1) [OF assms(2)] by (intro data_inv_fewer [OF assms(2)]) (simp_all add: created_def)
  with created show ?thesis by simp
next
  case False
  then show ?thesis using fs_create_fail [OF assms(1)] assms(2) by simp
qed

lemma fs_truncate_data_inv:
  assumes "data_inv s"
  shows "data_inv (snd (fs_truncate fildes len s))"
  using assms data_invD(1) [OF assms]
  by (auto simp: fs_truncate_def set_fd_offset_def set_file_size_def Let_def attr_list_update [where g = direct_offset]
      intro!: data_inv_cong [OF _ _ _ _ _ assms])

definition not_delete :: "fs_call \<Rightarrow> bool" where
  "not_delete c \<longleftrightarrow> (case c of Delete _ \<Rightarrow> False | _ \<Rightarrow> True)"

definition fs_inv :: "fs_state \<Rightarrow> bool" where
  "fs_inv s \<longleftrightarrow> dir_inv s \<and> data_inv s"

lemma fs_simple_data_inv:
  assumes "data_inv s"
  shows "data_inv (snd (fs_open name s))" "data_inv (snd (fs_close fildes s))" "data_inv (snd (fs_lseek fildes off s))"
  using data_invD(1) [OF assms]
  by (auto simp: fs_open_def fs_close_def fs_lseek_def set_fd_offset_def Let_def assms split: option.splits
      intro!: data_inv_frame [OF assms])

lemma fs_call_data_inv:
  assumes "dir_inv s" "data_inv s" "not_delete c" "fs_call_step adj c s = Some (r, s')"
  shows "data_inv s'"
proof (cases c)
  case (Read fd n)
  then show ?thesis using assms fs_read_data_inv by (auto split: option.splits)
next
  case (Write fd buf)
  then show ?thesis using assms fs_write_data_inv by auto
next
  case (Create nm)
  then show ?thesis using assms fs_create_data_inv [OF assms(1,2), of nm] by auto
next
  case (Truncate fd len)
  then show ?thesis using assms fs_truncate_data_inv [OF assms(2), of fd len] by auto
next
  case (Open nm)
  then show ?thesis using assms fs_simple_data_inv(1) [OF assms(2), of nm] by auto
next
  case (Close fd)
  then show ?thesis using assms fs_simple_data_inv(2) [OF assms(2), of fd] by auto
next
  case (Lseek fd off)
  then show ?thesis using assms fs_simple_data_inv(3) [OF assms(2), of fd off] by auto
qed (use assms in \<open>auto simp: not_delete_def split: option.splits\<close>)

interpretation fsd: invariant_system "only not_delete (fs_call_step adj)" fs_inv
  by unfold_locales
    (auto simp: only_def fs_inv_def split: if_splits dest: fs_call_inv fs_call_data_inv)

end
