(* ===== verification/FS_Props.thy ===== *)
theory FS_Props
  imports FS_Fresh FS_Sharing
begin

text \<open>
  The properties of the file system and of the disk below it, each with an application to a
  concrete state: a new file system with the file \<open>a\<close> open as descriptor 0.
\<close>

section \<open>The example state\<close>

lemma demo_created:
  "fs_create ''a'' (fresh_state d) = (0, created ''a'' 0 0 (fresh_state d))"
proof -
  have "find_slot (name_matches ''a'') (directory (fresh_state d)) = None"
    by (simp add: find_slot_None_iff fresh_lists name_matches_def zero_dir_entry_def)
  then show ?thesis
    by (simp add: fs_create_def created_def Let_def fresh_lists fresh_other zero_inode_def zero_dir_entry_def
        inode_used_def MAX_FILE_NAME_def c_str_def)
qed

lemma demo_fs_eq:
  "demo_fs = (created ''a'' 0 0 (fresh_state demo_disk))\<lparr>open_file_descriptors :=
     \<lparr>fd_is_used = True, fd_inode_number = 0, fd_offset = 0\<rparr> #
     replicate 31 \<lparr>fd_is_used = False, fd_inode_number = -1, fd_offset = 0\<rparr>\<rparr>"
proof -
  let ?s = "created ''a'' 0 0 (fresh_state demo_disk)"
  have "name_matches ''a'' (fill_dir_entry (0, ''a'') zero_dir_entry)"
    by (simp add: name_matches_def fill_dir_entry_def strncmp_eq_strncpy)
  then have "find_slot (name_matches ''a'') (directory ?s) = Some 0"
    by (simp add: created_def fresh_lists)
  moreover have "open_file_descriptors ?s = \<lparr>fd_is_used = False, fd_inode_number = -1, fd_offset = 0\<rparr> #
      replicate 31 \<lparr>fd_is_used = False, fd_inode_number = -1, fd_offset = 0\<rparr>"
    by (simp add: created_def fresh_state_def init_globals_def MAX_FILE_DESCRIPTORS_def numeral_eq_Suc)
  moreover have "de_inode_number (directory ?s ! 0) = 0" "open_disk_fd ?s = 0"
    by (simp_all add: created_def fresh_lists fresh_other fill_dir_entry_def)
  ultimately show ?thesis
    by (simp add: demo_fs_def demo_created fs_open_def fill_fd_def)
qed

lemma demo_dir_inv: "dir_inv demo_fs"
  unfolding demo_fs_def by (intro fs_open_inv fs_create_inv fresh_dir_inv)

lemma demo_data_inv: "data_inv demo_fs"
  unfolding demo_fs_def
  by (intro fs_simple_data_inv fs_create_data_inv fresh_dir_inv fresh_data_inv demo_disk_ok)

lemma demo_fields:
  "usable_fd 0 demo_fs" "ino_of 0 demo_fs = 0" "pos_of 0 demo_fs = 0" "size_of_ino 0 demo_fs = 0"
  by (simp_all add: demo_fs_eq usable_fd_def bad_fd_def bad_index_def ino_of_def pos_of_def size_of_ino_def created_def
      fresh_lists fill_dir_entry_def fill_inode_def MAX_FILE_DESCRIPTORS_def MAX_NUM_OF_FILES_def)

section \<open>Writing and reading\<close>

text \<open>
  C3: \<open>fs_write\<close> on a usable descriptor, up to the largest file size and on a disk without faults,
  has one of two outcomes.  Either it returns the number of bytes asked for and the file holds
  exactly these bytes from the old offset on, every other byte of every file is unchanged, the
  offset has moved behind the data and the size has grown if necessary; or no block is free, it
  returns -1 and has done all this for a proper prefix of the data.  Both invariants hold after it.
\<close>

theorem fs_write_effect:
  assumes "data_inv s" "dir_inv s" "usable_fd fildes s" "pos_of fildes s + length buf \<le> MAX_FILESIZE"
  shows "(\<exists>s'. fs_write fildes buf s = Some (int (length buf), s') \<and>
            write_post (nat fildes) (ino_of fildes s) (pos_of fildes s) buf s s') \<or>
    (\<exists>n s'. n < length buf \<and> fs_write fildes buf s = Some (-1, s') \<and> disk_full s' \<and>
       write_post (nat fildes) (ino_of fildes s) (pos_of fildes s) (take n buf) s s')"
  using fs_write_correct [OF assms] unfolding write_result_def by auto

theorem fs_write_effect_witness:
  "(\<exists>s'. fs_write 0 [1, 2, 3] demo_fs = Some (3, s') \<and> write_post 0 0 0 [1, 2, 3] demo_fs s') \<or>
    (\<exists>n s'. n < 3 \<and> fs_write 0 [1, 2, 3] demo_fs = Some (-1, s') \<and> disk_full s' \<and>
       write_post 0 0 0 (take n [1, 2, 3]) demo_fs s')"
  using fs_write_effect [OF demo_data_inv demo_dir_inv demo_fields(1), of "[1, 2, 3]"] demo_fields
  by (simp add: MAX_FILESIZE_def numeral_3_eq_3)

text \<open>
  C4: on a disk without faults \<open>fs_read\<close> returns the bytes of the file from the offset on, as many
  as asked for or as the file still has, and moves the offset behind them; it changes nothing else.
\<close>

theorem fs_read_effect:
  assumes "data_inv s" "dir_inv s" "usable_fd fildes s" "unat nbyte < 2 ^ 31"
    "pos_of fildes s \<le> size_of_ino (ino_of fildes s) s"
    "m = min (unat nbyte) (size_of_ino (ino_of fildes s) s - pos_of fildes s)"
  shows "\<exists>d. fs_read fildes nbyte s =
      Some (int m, map (file_byte s (ino_of fildes s)) [pos_of fildes s ..< pos_of fildes s + m],
        set_fd_offset fildes (int (pos_of fildes s + m)) (s\<lparr>disk := d\<rparr>)) \<and>
    disk_ok d \<and> disk_block d = disk_block (disk s)"
  using fs_read_correct [OF assms(1-5)] assms(6) by metis

theorem fs_read_effect_witness: "\<exists>d. fs_read 0 7 demo_fs = Some (0, [], set_fd_offset 0 0 (demo_fs\<lparr>disk := d\<rparr>))"
  using fs_read_effect [OF demo_data_inv demo_dir_inv demo_fields(1), of 7 0] demo_fields by auto

lemma write_post_read:
  assumes post: "write_post fd ino P data s s'" and i: "i < length data"
  shows "file_byte s' ino (P + i) = data ! i"
proof -
  have "file_at s' ino (P + i) = Some (data ! i)" using post i by (simp add: write_post_def wrote_def)
  then show ?thesis by (auto simp: file_at_def split: if_splits)
qed

text \<open>
  C8: data written with \<open>fs_write\<close> is read back: after a write that returned the length of its data,
  moving the offset back with \<open>fs_lseek\<close> succeeds and \<open>fs_read\<close> returns the same bytes.
\<close>

theorem write_read_roundtrip:
  assumes inv: "data_inv s" "dir_inv s" and fd: "usable_fd fildes s"
    and fits: "pos_of fildes s + length buf \<le> MAX_FILESIZE" "pos_of fildes s \<le> size_of_ino (ino_of fildes s) s"
    and wr: "fs_write fildes buf s = Some (int (length buf), s1)"
  shows "\<exists>s2 s3. fs_lseek fildes (int (pos_of fildes s)) s1 = (0, s2) \<and>
    fs_read fildes (of_nat (length buf)) s2 = Some (int (length buf), buf, s3)"
proof -
  let ?P = "pos_of fildes s" and ?ino = "ino_of fildes s" and ?n = "length buf"
  have post: "write_post (nat fildes) ?ino ?P buf s s1"
    using fs_write_correct [OF inv fd fits(1)] wr unfolding write_result_def by auto
  then have inv1: "data_inv s1" "dir_inv s1" and same: "same_but (nat fildes) ?ino s s1"
    and size: "?P + ?n \<le> size_of_ino ?ino s1"
    using fits(2) by (auto simp: write_post_def size_of_ino_def)
  have fd1: "usable_fd fildes s1" "ino_of fildes s1 = ?ino"
    using fd same by (auto simp: usable_fd_def bad_fd_def bad_index_def ino_of_def same_but_def)
  note F = usable_fdD [OF fd1(1) inv1(2)]
  have small: "?P \<le> MAX_FILESIZE" "?n \<le> MAX_FILESIZE" using fits(1) by simp_all
  have uP: "unat (ulong_of_int (int ?P)) = ?P" using ulong_of_pos small(1) by blast
  then have "\<not> ulong_of_int (int ?P) > file_size (inode_table s1 ! ?ino)"
    using size by (simp add: word_less_nat_alt size_of_ino_def not_less)
  moreover have "int_of_ulong (ulong_of_int (int ?P)) = int ?P"
    using int_of_ulong_small [of "ulong_of_int (int ?P)"] uP small(1) MAX_FILESIZE_lt by simp
  ultimately have seek: "fs_lseek fildes (int ?P) s1 = (0, set_fd_offset fildes (int ?P) s1)"
    using fd1 F(5) by (simp add: fs_lseek_def usable_fd_def Let_def)
  let ?s2 = "set_fd_offset fildes (int ?P) s1"
  have len: "nat fildes < length (open_file_descriptors s1)" using inv1(2) F(1) by (simp add: dir_inv_def wf_tables_def)
  then have f2: "usable_fd fildes ?s2" "ino_of fildes ?s2 = ?ino" "pos_of fildes ?s2 = ?P" "size_of_ino ?ino ?s2 = size_of_ino ?ino s1"
    using fd1 by (simp_all add: set_fd_offset_def usable_fd_def bad_fd_def bad_index_def ino_of_def pos_of_def size_of_ino_def)
  have inv2: "data_inv ?s2" "dir_inv ?s2"
    using data_inv_frame [OF inv1(1), of ?s2] data_invD(1) [OF inv1(1)] set_fd_offset_inv [OF inv1(2)] small
    by (simp_all add: set_fd_offset_def)
  have un: "unat (of_nat ?n :: u64) = ?n" using small(2) by (simp add: unat_of_nat MAX_FILESIZE_def)
  have n31: "unat (of_nat ?n :: u64) < 2 ^ 31" using un small(2) MAX_FILESIZE_lt by simp
  have m: "min (unat (of_nat ?n :: u64)) (size_of_ino ?ino s1 - ?P) = ?n" using un size by simp
  have "\<exists>d. fs_read fildes (of_nat ?n) ?s2 = Some (int ?n, map (file_byte ?s2 ?ino) [?P ..< ?P + ?n],
      set_fd_offset fildes (int (?P + ?n)) (?s2\<lparr>disk := d\<rparr>))"
    using fs_read_correct [OF inv2 f2(1) n31, unfolded f2 m] size by (metis add_leD1)
  then obtain d where d: "fs_read fildes (of_nat ?n) ?s2 = Some (int ?n, map (file_byte ?s2 ?ino) [?P ..< ?P + ?n],
      set_fd_offset fildes (int (?P + ?n)) (?s2\<lparr>disk := d\<rparr>))" ..
  have "file_byte ?s2 ?ino = file_byte s1 ?ino"
    by (simp add: fun_eq_iff file_byte_def set_fd_offset_def)
  then have "map (file_byte ?s2 ?ino) [?P ..< ?P + ?n] = buf"
    using write_post_read [OF post] by (intro nth_equalityI) simp_all
  with seek d show ?thesis by auto
qed


lemma fresh_bit: "i < TOTAL_BLOCKS \<Longrightarrow> \<not> get_bit_at (replicate (TOTAL_BLOCKS div CHAR_BIT) 0) i"
  using bitmap_index [of i] by (simp add: get_bit_at_def)

lemma demo_tables:
  "used_block_bitmap demo_fs = replicate (TOTAL_BLOCKS div CHAR_BIT) 0" "superblock demo_fs = make_superblock"
  "direct_offset (inode_table demo_fs ! 0) = replicate NDIRECT 0" "open_disk_fd demo_fs = 0"
  by (simp_all add: demo_fs_eq created_def fresh_other fresh_lists fill_inode_def)

lemma free_from_one:
  assumes "\<And>i. i < TOTAL_BLOCKS \<Longrightarrow> get_bit_at bm i \<longleftrightarrow> i \<in> {1..n}" "Suc n < TOTAL_BLOCKS"
  shows "free_block_from bm 1 = Some (Suc n)"
proof (cases "free_block_from bm 1")
  case None
  then show ?thesis using free_block_from_None [OF None, of "Suc n"] assms by auto
next
  case (Some j)
  note F = free_block_from_Some [OF Some]
  have "\<not> j \<le> n" using F assms(1) [of j] by auto
  moreover have "\<not> Suc n < j" using F assms(1) [of "Suc n"] assms(2) by auto
  ultimately show ?thesis using Some by simp
qed

lemma first_block: "alloc_block 0 0 demo_fs = Some (with_block 0 0 1 demo_fs)"
proof -
  have "free_block_from (used_block_bitmap demo_fs) 1 = Some (Suc 0)"
    using fresh_bit by (intro free_from_one) (auto simp: demo_tables TOTAL_BLOCKS_def)
  then show ?thesis
    by (simp add: alloc_block_def demo_tables make_superblock_fields Let_def TOTAL_BLOCKS_def NDIRECT_def
        MAX_FILESIZE_def BLOCK_SIZE_def with_block_def)
qed

lemma demo_write_start:
  assumes "buf \<noteq> []"
  shows "\<exists>blk s2. fs_write 0 buf demo_fs = fs_write_loop 0 0 buf (round_bytes buf 0 0) 1 0 blk s2 \<and>
    write_post 0 0 0 (take (round_bytes buf 0 0) buf) demo_fs s2 \<and> length blk = BLOCK_SIZE \<and>
    same_blocks (with_block 0 0 1 demo_fs) s2"
proof -
  have pos: "fd_offset (open_file_descriptors demo_fs ! nat 0) = int (0 * BLOCK_SIZE + 0)" by (simp add: demo_fs_eq)
  have pre: "0 < MAX_NUM_OF_FILES" "nat 0 < MAX_FILE_DESCRIPTORS" "0 < length buf" "0 < NDIRECT"
    "length (replicate BLOCK_SIZE (0::u8)) = BLOCK_SIZE"
    using assms by (simp_all add: MAX_NUM_OF_FILES_def MAX_FILE_DESCRIPTORS_def NDIRECT_def MAX_FILESIZE_def BLOCK_SIZE_def)
  have "fs_write 0 buf demo_fs = fs_write_loop 0 0 buf 0 0 0 (replicate BLOCK_SIZE 0) demo_fs"
    using assms demo_fields(1) by (simp add: fs_write_def usable_fd_def Let_def) (simp add: demo_fs_eq)
  then show ?thesis
    using fs_write_loop_step [OF demo_data_inv demo_dir_inv pre(1,2) pos BLOCK_SIZE_pos(1) pre(5,3,4) first_block]
    by (metis add_0 drop0 mult_0 nat_0 One_nat_def)
qed

lemma demo_write: "\<exists>s1. fs_write 0 [1, 2, 3] demo_fs = Some (3, s1)"
proof -
  have "round_bytes [1, 2, 3] 0 0 = 3" by (simp add: round_bytes_def BLOCK_SIZE_def)
  then obtain blk s2 where "fs_write 0 [1, 2, 3] demo_fs = fs_write_loop 0 0 [1, 2, 3] 3 1 0 blk s2"
    using demo_write_start [of "[1, 2, 3]"] by auto
  then show ?thesis by (simp add: fs_write_loop.simps [of _ _ _ 3])
qed

theorem write_read_roundtrip_witness:
  "\<exists>s1 s2 s3. fs_write 0 [1, 2, 3] demo_fs = Some (3, s1) \<and> fs_lseek 0 0 s1 = (0, s2) \<and>
     fs_read 0 3 s2 = Some (3, [1, 2, 3], s3)"
proof -
  obtain s1 where "fs_write 0 [1, 2, 3] demo_fs = Some (3, s1)" using demo_write by blast
  then show ?thesis
    using write_read_roundtrip [OF demo_data_inv demo_dir_inv demo_fields(1), of "[1, 2, 3]" s1] demo_fields
    by (auto simp: MAX_FILESIZE_def)
qed


text \<open>
  C31: the code has no check against the largest file size of 1 MB.  A write that would go past it,
  while at least as many blocks are free as the file has block pointers left, reads and writes the
  entry behind the end of \<open>direct_offset\<close>, which is undefined: it does not return an error.
\<close>

theorem write_past_limit:
  assumes "data_inv s" "dir_inv s" "usable_fd fildes s" "MAX_FILESIZE < pos_of fildes s + length buf"
    "NDIRECT - pos_of fildes s div BLOCK_SIZE \<le> card (free_blocks s)"
  shows "fs_write fildes buf s = None"
  using assms by (rule fs_write_past)

lemma demo_free_blocks: "NDIRECT \<le> card (free_blocks demo_fs)"
proof -
  have "{1..<TOTAL_BLOCKS} \<subseteq> free_blocks demo_fs"
    using fresh_bit by (auto simp: free_blocks_def demo_tables make_superblock_fields)
  then have "card {1..<TOTAL_BLOCKS} \<le> card (free_blocks demo_fs)" by (intro card_mono finite_free_blocks)
  then show ?thesis by (simp add: TOTAL_BLOCKS_def NDIRECT_def MAX_FILESIZE_def BLOCK_SIZE_def)
qed

theorem write_past_limit_witness: "fs_write 0 (replicate (2 ^ 20 + 1) 7) demo_fs = None"
  using write_past_limit [OF demo_data_inv demo_dir_inv demo_fields(1), of "replicate (2 ^ 20 + 1) 7"] demo_fields demo_free_blocks
  by (simp add: MAX_FILESIZE_def)

section \<open>The directory\<close>

lemma created_lookup:
  assumes "dir_inv s" "can_create name s" "find_slot (\<lambda>nd. \<not> inode_used nd) (inode_table s) = Some i"
    "find_slot (\<lambda>e. \<not> de_is_used e) (directory s) = Some j"
  shows "dir_lookup (directory (created name i j s)) k =
    (if take MAX_FILE_NAME (c_str k) = take MAX_FILE_NAME (c_str name) then Some (int i) else dir_lookup (directory s) k)"
proof -
  let ?e = "fill_dir_entry (int i, name) (directory s ! j)"
  have "dir_inv (created name i j s)"
    using created_inv [OF assms(1) _ _ assms(3,4)] assms(2) by (simp add: can_create_def)
  then have "entries_distinct ((directory s)[j := ?e])" by (simp add: dir_inv_def created_def)
  then show ?thesis
    using dir_lookup_fill [of "directory s" j ?e k] find_slot_lt [OF assms(4)] find_slot_hit [OF assms(4)]
    by (auto simp: created_def fill_dir_entry_def strncmp_eq_strncpy)
qed

text \<open>
  C28: \<open>fs_create\<close> refines the insertion of a name into a finite map from names to inodes.  It succeeds
  exactly when a disk is mounted, the name has 1 to 15 characters and is new, and fewer than 64 inodes
  are in use; then the name denotes an inode that was not in use and is empty, every other name
  denotes what it did, and the invariant holds.  Otherwise it returns -1 and changes nothing.
\<close>

theorem fs_create_refines_insert:
  assumes "dir_inv s"
  shows "(can_create name s \<longrightarrow> (\<exists>i s'. fs_create name s = (0, s') \<and> dir_inv s' \<and>
      i < MAX_NUM_OF_FILES \<and> \<not> inode_used (inode_table s ! i) \<and> size_of_ino i s' = 0 \<and>
      (\<forall>k. dir_lookup (directory s') k =
        (if take MAX_FILE_NAME (c_str k) = take MAX_FILE_NAME (c_str name) then Some (int i)
         else dir_lookup (directory s) k)))) \<and>
    (\<not> can_create name s \<longrightarrow> fs_create name s = (-1, s))"
proof (intro conjI impI)
  assume can: "can_create name s"
  with assms obtain i j where i: "find_slot (\<lambda>nd. \<not> inode_used nd) (inode_table s) = Some i"
    and j: "find_slot (\<lambda>e. \<not> de_is_used e) (directory s) = Some j" and eq: "fs_create name s = (0, created name i j s)"
    by (rule fs_create_ok)
  have lt: "i < length (inode_table s)" "\<not> inode_used (inode_table s ! i)"
    using find_slot_lt [OF i] find_slot_hit [OF i] by simp_all
  moreover have "length (inode_table s) = MAX_NUM_OF_FILES" using assms by (simp add: dir_inv_def wf_tables_def)
  moreover have "size_of_ino i (created name i j s) = 0" using lt(1) by (simp add: size_of_ino_def created_def fill_inode_def)
  moreover have "dir_inv (created name i j s)" using fs_create_inv [OF assms, of name] eq by simp
  ultimately show "\<exists>i s'. fs_create name s = (0, s') \<and> dir_inv s' \<and> i < MAX_NUM_OF_FILES \<and>
      \<not> inode_used (inode_table s ! i) \<and> size_of_ino i s' = 0 \<and>
      (\<forall>k. dir_lookup (directory s') k =
        (if take MAX_FILE_NAME (c_str k) = take MAX_FILE_NAME (c_str name) then Some (int i)
         else dir_lookup (directory s) k))"
    using eq created_lookup [OF assms can i j] by (intro exI [of _ i] exI [of _ "created name i j s"]) simp
qed (rule fs_create_fail [OF assms])

lemma fresh_can_create: "can_create ''b'' (fresh_state demo_disk)"
  by (simp add: can_create_def dir_lookup_None fresh_lists fresh_other name_matches_def zero_dir_entry_def
      zero_inode_def inode_used_def used_count_def MAX_FILE_NAME_def MAX_NUM_OF_FILES_def c_str_def)

theorem fs_create_refines_insert_witness:
  "\<exists>i s'. fs_create ''b'' (fresh_state demo_disk) = (0, s') \<and> dir_lookup (directory s') ''b'' = Some (int i)"
  using fs_create_refines_insert [OF fresh_dir_inv, of "''b''" demo_disk] fresh_can_create by auto

text \<open>
  C29: \<open>fs_delete\<close> refines the removal of a name from that map: it succeeds exactly when a disk is
  mounted, the name exists and no descriptor is open on its inode, and then only this name is gone;
  otherwise it returns -1 and changes nothing.  In particular an open file is not deleted, as line 17 of
  \<^verbatim>\<open>tests/test_writes_open.c\<close> asks; line 25 of it and line 101 of \<^verbatim>\<open>tests/test_big_writes.c\<close> delete a
  file that is still open and expect 0.  This holds for whatever the loop over the bitmap reads
  behind its end.
\<close>

theorem fs_delete_refines_remove:
  assumes "dir_inv s"
  shows "(case dir_lookup (directory s) name of
       Some ino \<Rightarrow>
         if open_disk_fd s \<noteq> -1 \<and> \<not> open_ino ino s
         then \<exists>s'. fs_delete adj name s = (0, s') \<and> dir_inv s' \<and> inode_table s' = inode_table s \<and> disk s' = disk s \<and>
           (\<forall>k. dir_lookup (directory s') k =
             (if take MAX_FILE_NAME (c_str k) = take MAX_FILE_NAME (c_str name) then None else dir_lookup (directory s) k))
         else fs_delete adj name s = (-1, s)
     | None \<Rightarrow> fs_delete adj name s = (-1, s))"
proof (cases adj name s rule: fs_delete_cases)
  case fail
  then show ?thesis by (auto split: option.splits)
next
  case (ok j bm sb)
  let ?s = "s\<lparr>directory := (directory s)[j := zero_dir_entry], used_block_bitmap := bm, superblock := sb\<rparr>"
  have lookup: "dir_lookup (directory s) name = Some (de_inode_number (directory s ! j))"
    using ok(1) by (simp add: dir_lookup_def)
  have hit: "j < length (directory s)" "name_matches name (directory s ! j)"
    using find_slot_lt [OF ok(1)] find_slot_hit [OF ok(1)] by simp_all
  have "dir_lookup (directory ?s) k = (if take MAX_FILE_NAME (c_str k) = take MAX_FILE_NAME (c_str name) then None
      else dir_lookup (directory s) k)" for k
    using dir_lookup_clear [of "directory s" j zero_dir_entry k] assms hit
    by (auto simp: dir_inv_def name_matches_def zero_dir_entry_def strncmp_eq_def c_str_take)
  moreover have "dir_inv ?s" using fs_delete_inv [OF assms, of adj name] ok(5) by simp
  ultimately show ?thesis using lookup ok(2,3,5) by simp
qed

theorem fs_delete_refines_remove_witness:
  "\<exists>s'. fs_delete (\<lambda>_. 0) ''a'' (snd (fs_create ''a'' (fresh_state demo_disk))) = (0, s') \<and>
     dir_lookup (directory s') ''a'' = None"
proof -
  let ?s = "snd (fs_create ''a'' (fresh_state demo_disk))"
  have "name_matches ''a'' (directory ?s ! 0)" "directory ?s ! 0 = hd (directory ?s)" "0 < length (directory ?s)"
    by (simp_all add: demo_created created_def fresh_lists name_matches_def fill_dir_entry_def strncmp_eq_strncpy)
  then have "dir_lookup (directory ?s) ''a'' = Some (de_inode_number (directory ?s ! 0))"
    using dir_lookup_Some fs_create_inv [OF fresh_dir_inv] by (metis dir_inv_def)
  moreover have "open_disk_fd ?s = 0" "\<not> open_ino i ?s" for i
    unfolding demo_created by (simp_all add: created_def open_ino_def fresh_state_def init_globals_def list_ex_iff)
  ultimately show ?thesis
    using fs_delete_refines_remove [where s = ?s and name = "''a''" and adj = "\<lambda>_. 0", OF fs_create_inv [OF fresh_dir_inv]] by auto
qed


section \<open>Sequences of calls\<close>

text \<open>
  C17: every sequence of the calls from \<open>fs_open\<close> to \<open>fs_truncate\<close> in a mounted file system keeps the directory invariant, whatever the disk does:
  names and inodes of the entries stay distinct, entries refer to inodes in use, descriptors to
  existing entries, and sizes and offsets stay within 1 MB.  Moreover inodes are never given back, so
  over the whole sequence at most 64 minus the inodes in use at its start creations succeed, however
  many files are deleted.
\<close>

theorem fs_calls_safe:
  assumes "dir_inv s" "run_calls (fs_call_step adj) cs s = Some (rs, s')"
  shows "dir_inv s' \<and>
    inodes_used s + length (filter (\<lambda>(c, r). creates c r) (zip cs rs)) \<le> MAX_NUM_OF_FILES"
proof -
  have inv: "dir_inv s'" using fsys.run_inv [OF assms] .
  then have "inodes_used s' \<le> MAX_NUM_OF_FILES"
    using used_count_le [of inode_used "inode_table s'"] by (simp add: inodes_used_def dir_inv_def wf_tables_def)
  then show ?thesis using inv fsys.run_amount [OF assms] by simp
qed

theorem fs_calls_safe_witness:
  "dir_inv (created ''a'' 0 0 (fresh_state demo_disk)) \<and> inodes_used (fresh_state demo_disk) + 1 \<le> MAX_NUM_OF_FILES"
  using fs_calls_safe [OF fresh_dir_inv, of "\<lambda>_. 0" "[Create ''a'']" demo_disk "[0]" "created ''a'' 0 0 (fresh_state demo_disk)"]
  by (simp add: demo_created creates_def)

text \<open>
  C18: in a mounted file system on a disk without faults, every sequence of the calls from \<open>fs_open\<close> to
  \<open>fs_truncate\<close>, up to the next \<open>umount_fs\<close> and without \<open>fs_delete\<close>, also keeps the data invariant: every
  block of a file is in range and marked as used, and no block belongs to two files or to two places
  of one file.  The restriction to one session is needed: \<open>mount_fs\<close> may unmark used blocks
  (\<open>remount_frees_used_block\<close> below), and so may \<open>fs_delete\<close>.
\<close>

theorem fs_calls_keep_blocks_apart:
  assumes "fs_inv s" "list_all not_delete cs" "run_calls (fs_call_step adj) cs s = Some (rs, s')"
  shows "fs_inv s'"
  using fsd.run_inv [OF assms(1)] assms(2,3) run_calls_only by metis

theorem fs_calls_keep_blocks_apart_witness: "fs_inv (snd (fs_create ''a'' (fresh_state demo_disk)))"
  using fs_calls_keep_blocks_apart [of "fresh_state demo_disk" "[Create ''a'']" "\<lambda>_. 0" "[0]" "created ''a'' 0 0 (fresh_state demo_disk)"]
    fresh_dir_inv fresh_data_inv [OF demo_disk_ok]
  by (simp add: fs_inv_def demo_created not_delete_def)

section \<open>Deleting\<close>

text \<open>
  The loop of \<open>fs_delete\<close> compares a byte of the bitmap with the inode number and clears the bit with
  the index of the byte.
\<close>

lemma release_bits_mono:
  assumes "i div 8 < length (used_block_bitmap s)" "length (used_block_bitmap s) = TOTAL_BLOCKS div CHAR_BIT" "\<forall>k\<in>set ks. k < TOTAL_BLOCKS"
    "\<not> get_bit_at (used_block_bitmap s) i"
  shows "\<not> get_bit_at (used_block_bitmap (foldl (release_step adj ino) s ks)) i"
  using assms
proof (induction ks arbitrary: s)
  case (Cons k ks)
  have "\<not> get_bit_at (used_block_bitmap (release_step adj ino s k)) i"
    using Cons.prems get_clear_bit_at [of k "used_block_bitmap s" i] bitmap_index [of k] by (auto simp: release_step_def)
  then show ?case using Cons.prems Cons.IH [of "release_step adj ino s k"] by simp
qed simp

lemma clear_bit_at_zero:
  assumes "bm ! m = 0" "m < length bm"
  shows "clear_bit_at bm k ! m = 0"
  using assms by (cases "k div 8 = m") (simp_all add: clear_bit_at_def)

lemma release_zero_byte:
  assumes "used_block_bitmap s ! m = 0" "m < length (used_block_bitmap s)"
  shows "used_block_bitmap (foldl (release_step adj ino) s ks) ! m = 0"
  using assms
proof (induction ks arbitrary: s)
  case (Cons k ks)
  have "used_block_bitmap (release_step adj ino s k) ! m = 0"
    using Cons.prems clear_bit_at_zero by (simp add: release_step_def)
  then show ?case using Cons.prems Cons.IH [of "release_step adj ino s k"] by simp
qed simp

text \<open>
  C32: deleting the file with inode 0 marks blocks of other files as free: for every byte \<open>m\<close> of the
  bitmap that is zero, block \<open>m\<close> is free afterwards, whoever owns it.
\<close>

theorem delete_frees_foreign_blocks:
  assumes "dir_inv s" "open_disk_fd s \<noteq> -1" "dir_lookup (directory s) name = Some 0" "\<not> open_ino 0 s"
    "m < TOTAL_BLOCKS div CHAR_BIT" "used_block_bitmap s ! m = 0"
  shows "\<exists>s'. fs_delete adj name s = (0, s') \<and> \<not> get_bit_at (used_block_bitmap s') m"
proof -
  obtain j where j: "find_slot (name_matches name) (directory s) = Some j" "de_inode_number (directory s ! j) = 0"
    using assms(3) by (auto simp: dir_lookup_def)
  let ?F = "foldl (release_step adj 0)"
  let ?s1 = "?F s [0..<m]" let ?s2 = "release_step adj 0 ?s1 m"
  have len: "length (used_block_bitmap s) = TOTAL_BLOCKS div CHAR_BIT" using assms(1) by (simp add: dir_inv_def wf_tables_def)
  have lt: "m < TOTAL_BLOCKS" "m div 8 < length (used_block_bitmap s)"
    using assms(5) len by (simp_all add: TOTAL_BLOCKS_def CHAR_BIT_def)
  have "used_block_bitmap ?s1 ! m = 0" using release_zero_byte [OF assms(6)] assms(5) len by simp
  then have "\<not> get_bit_at (used_block_bitmap ?s2) m"
    using get_clear_bit_at [of m "used_block_bitmap ?s1" m] lt assms(5) len by (simp add: release_step_def bitmap_byte_def)
  then have "\<not> get_bit_at (used_block_bitmap (?F ?s2 [Suc m..<TOTAL_BLOCKS])) m"
    using lt len by (intro release_bits_mono) simp_all
  moreover have "?F s [0..<TOTAL_BLOCKS] = ?F ?s2 [Suc m..<TOTAL_BLOCKS]"
  proof -
    have "[0..<TOTAL_BLOCKS] = [0..<m] @ m # [Suc m..<TOTAL_BLOCKS]"
      using lt(1) upt_add_eq_append [of 0 m "TOTAL_BLOCKS - m"] by (simp add: upt_conv_Cons)
    then show ?thesis by simp
  qed
  moreover have "fs_delete adj name s = (0, (?F s [0..<TOTAL_BLOCKS])\<lparr>directory := (directory s)[j := zero_dir_entry]\<rparr>)"
    using j assms(2,4) by (simp add: fs_delete_def Let_def open_ino_def zero_dir_entry_def)
  ultimately show ?thesis by simp
qed


lemma demo_lookup_a:
  "dir_lookup (directory (created ''a'' 0 0 (fresh_state d))) ''a'' = Some 0"
  by (simp add: dir_lookup_def created_def fresh_lists name_matches_def fill_dir_entry_def strncmp_eq_strncpy)

lemma demo_not_open: "\<not> open_ino i (created ''a'' 0 0 (fresh_state d))"
  by (simp add: created_def open_ino_def fresh_state_def init_globals_def list_ex_iff)

lemma dir_inv_bitmap: "dir_inv s \<Longrightarrow> length bm = length (used_block_bitmap s) \<Longrightarrow> dir_inv (s\<lparr>used_block_bitmap := bm\<rparr>)"
  by (simp add: dir_inv_def wf_tables_def)

text \<open>The blocks 1 to 20 are in use, and block 5 among them is marked free.\<close>

theorem delete_frees_foreign_blocks_witness:
  "\<exists>s. get_bit_at (used_block_bitmap s) 5 \<and> dir_lookup (directory s) ''a'' = Some 0 \<and>
     (\<exists>s'. fs_delete (\<lambda>_. 0) ''a'' s = (0, s') \<and> \<not> get_bit_at (used_block_bitmap s') 5)"
proof -
  let ?t = "created ''a'' 0 0 (fresh_state demo_disk)" and ?bm = "[254, 255, 31] @ replicate 1021 (0::u8)"
  let ?s = "?t\<lparr>used_block_bitmap := ?bm\<rparr>"
  have "dir_inv ?t" using fs_create_inv [OF fresh_dir_inv, of "''a''" demo_disk] by (simp add: demo_created)
  then have "dir_inv ?s"
    by (rule dir_inv_bitmap [of ?t ?bm]) (simp add: created_def fresh_other TOTAL_BLOCKS_def CHAR_BIT_def)
  moreover have "open_disk_fd ?s \<noteq> -1" by (simp add: created_def fresh_other)
  moreover have l: "dir_lookup (directory ?s) ''a'' = Some 0" using demo_lookup_a by simp
  moreover have "\<not> open_ino 0 ?s" using demo_not_open by (simp add: open_ino_def)
  moreover have "5 < TOTAL_BLOCKS div CHAR_BIT" "used_block_bitmap ?s ! 5 = 0"
    by (simp_all add: TOTAL_BLOCKS_def CHAR_BIT_def nth_append)
  ultimately have "\<exists>s'. fs_delete (\<lambda>_. 0) ''a'' ?s = (0, s') \<and> \<not> get_bit_at (used_block_bitmap s') 5"
    by (rule delete_frees_foreign_blocks)
  moreover have "get_bit_at (used_block_bitmap ?s) 5" by (simp add: get_bit_at_bit)
  ultimately show ?thesis using l by blast
qed

section \<open>Two files, one deleted\<close>

text \<open>The state after creating \<open>a\<close> and \<open>b\<close> and deleting \<open>a\<close>, up to the bitmap and the superblock.\<close>

definition entry_of :: "int \<Rightarrow> string \<Rightarrow> dir_entry" where
  "entry_of i name = \<lparr>de_is_used = True, de_inode_number = i, de_name = strncpy MAX_FILE_NAME name\<rparr>"

lemma fill_zero_entry: "fill_dir_entry (i, name) zero_dir_entry = entry_of i name"
  by (simp add: fill_dir_entry_def zero_dir_entry_def entry_of_def)

lemma entry_matches: "name_matches k (entry_of i name) \<longleftrightarrow> take MAX_FILE_NAME (c_str name) = take MAX_FILE_NAME (c_str k)"
  by (simp add: name_matches_def entry_of_def strncmp_eq_strncpy)

lemma zero_entry: "\<not> name_matches k zero_dir_entry" "\<not> de_is_used zero_dir_entry" "de_is_used (entry_of i k)"
  "\<not> inode_used zero_inode" "inode_used (fill_inode () nd)"
  by (simp_all add: name_matches_def zero_dir_entry_def entry_of_def inode_used_def zero_inode_def fill_inode_def)

lemma find_zero_entries: "find_slot (name_matches k) (replicate n zero_dir_entry) = None"
  by (simp add: find_slot_None_iff zero_entry)

lemma one_letter: "c_str [c] = (if c = CHR 0x00 then [] else [c])"
  by (simp add: c_str_def)

definition after_delete :: "fs_state \<Rightarrow> bool" where
  "after_delete s \<longleftrightarrow> directory s = zero_dir_entry # entry_of 1 ''b'' # zero_dir_entry # replicate 61 zero_dir_entry \<and>
     inode_table s = fill_inode () zero_inode # fill_inode () zero_inode # zero_inode # replicate 61 zero_inode \<and>
     open_disk_fd s = 0 \<and> (\<forall>f \<in> set (open_file_descriptors s). \<not> fd_is_used f) \<and>
     length (open_file_descriptors s) = MAX_FILE_DESCRIPTORS"

lemma create_b:
  "fs_create ''b'' (created ''a'' 0 0 (fresh_state d)) = (0, created ''b'' 1 1 (created ''a'' 0 0 (fresh_state d)))"
proof -
  let ?t = "created ''a'' 0 0 (fresh_state d)"
  have "directory ?t = entry_of 0 ''a'' # zero_dir_entry # zero_dir_entry # replicate 61 zero_dir_entry"
    "inode_table ?t = fill_inode () zero_inode # zero_inode # zero_inode # replicate 61 zero_inode" "open_disk_fd ?t = 0"
    by (simp_all add: created_def fresh_lists fresh_other fill_zero_entry)
  then show ?thesis
    by (simp add: fs_create_def [of _ ?t] created_def [of _ _ _ ?t] zero_entry entry_matches find_zero_entries one_letter
        MAX_FILE_NAME_def Let_def)
qed

lemma fresh_fds:
  "(\<forall>f \<in> set (open_file_descriptors (fresh_state d)). \<not> fd_is_used f)"
  "length (open_file_descriptors (fresh_state d)) = MAX_FILE_DESCRIPTORS"
  by (simp_all add: fresh_state_def)

lemma two_files_one_deleted:
  "\<exists>s. run_calls (fs_call_step adj) [Create ''a'', Create ''b'', Delete ''a''] (fresh_state d) = Some ([0, 0, 0], s) \<and> after_delete s"
proof -
  let ?t = "created ''b'' 1 1 (created ''a'' 0 0 (fresh_state d))"
  have dir2: "directory ?t = entry_of 0 ''a'' # entry_of 1 ''b'' # zero_dir_entry # replicate 61 zero_dir_entry"
    by (simp add: created_def fresh_lists fill_zero_entry)
  have slot: "find_slot (name_matches ''a'') (directory ?t) = Some 0" unfolding dir2 by (simp add: entry_matches)
  have closed: "\<not> open_ino i ?t" for i
    by (simp add: created_def open_ino_def fresh_state_def init_globals_def list_ex_iff)
  have mounted: "open_disk_fd ?t = 0" by (simp add: created_def fresh_other)
  obtain bm sb where del: "fs_delete adj ''a'' ?t = (0, ?t\<lparr>directory := (directory ?t)[0 := zero_dir_entry],
      used_block_bitmap := bm, superblock := sb\<rparr>)"
  proof (cases adj "''a''" ?t rule: fs_delete_cases)
    case fail
    then show ?thesis using slot closed mounted by (simp add: dir_lookup_def)
  next
    case (ok k bm sb)
    then show ?thesis using slot that by simp
  qed
  have "after_delete (?t\<lparr>directory := (directory ?t)[0 := zero_dir_entry], used_block_bitmap := bm, superblock := sb\<rparr>)"
    unfolding after_delete_def by (simp add: created_def fresh_lists fresh_other fill_zero_entry fresh_fds)
  then show ?thesis using demo_created [of d] create_b [of d] del by simp
qed

text \<open>
  \<open>fs_listfiles\<close> copies as many names from the front of the directory as there are files, not the
  names of the used entries: with \<open>a\<close> and \<open>b\<close> created and \<open>a\<close> deleted it lists one file with the empty
  name, although the file that exists is \<open>b\<close>.
\<close>

theorem listfiles_wrong_after_delete:
  "\<exists>s. run_calls (fs_call_step adj) [Create ''a'', Create ''b'', Delete ''a''] (fresh_state d) = Some ([0, 0, 0], s) \<and>
     dir_lookup (directory s) ''b'' = Some 1 \<and> fs_listfiles s = (0, [[]])"
proof -
  obtain s where s: "run_calls (fs_call_step adj) [Create ''a'', Create ''b'', Delete ''a''] (fresh_state d) = Some ([0, 0, 0], s)"
    and a: "after_delete s" using two_files_one_deleted by blast
  have b: "dir_lookup (directory s) ''b'' = Some 1"
    using a by (simp add: after_delete_def dir_lookup_def zero_entry entry_matches) (simp add: entry_of_def)
  have "used_count de_is_used (directory s) = 1"
    using a by (simp add: after_delete_def used_count_def zero_entry)
  moreover have "c_str (de_name zero_dir_entry) = []" by (simp add: zero_dir_entry_def c_str_def MAX_FILE_NAME_def)
  ultimately have "fs_listfiles s = (0, [[]])"
    using a by (simp add: fs_listfiles_def after_delete_def c_str_strncpy)
  then show ?thesis using s b by blast
qed

text \<open>
  \<open>fs_read\<close>, \<open>fs_write\<close>, \<open>fs_lseek\<close> and \<open>fs_truncate\<close> use the inode number as an index into the
  directory, so a file whose entry is not at that index cannot be used.  Create \<open>a\<close> and \<open>b\<close>, delete \<open>a\<close>
  and create \<open>c\<close>: the file \<open>c\<close> can be opened, but writing to it returns -1.
\<close>

theorem recreated_file_unusable:
  "\<exists>s. run_calls (fs_call_step adj)
       [Create ''a'', Create ''b'', Delete ''a'', Create ''c'', Open ''c'', Write 0 [x]] (fresh_state d) =
     Some ([0, 0, 0, 0, 0, -1], s)"
proof -
  obtain s where s: "run_calls (fs_call_step adj) [Create ''a'', Create ''b'', Delete ''a''] (fresh_state d) = Some ([0, 0, 0], s)"
    and a: "after_delete s" using two_files_one_deleted by blast
  let ?t = "created ''c'' 2 0 s"
  have dir1: "directory ?t = entry_of 2 ''c'' # entry_of 1 ''b'' # zero_dir_entry # replicate 61 zero_dir_entry"
    using a by (simp add: after_delete_def created_def fill_zero_entry)
  have c: "fs_create ''c'' s = (0, ?t)"
    using a by (simp add: fs_create_def after_delete_def created_def zero_entry entry_matches find_zero_entries one_letter
        MAX_FILE_NAME_def Let_def numeral_2_eq_2)
  obtain f fs where fds: "open_file_descriptors s = f # fs" "\<not> fd_is_used f"
    using a by (cases "open_file_descriptors s") (auto simp: after_delete_def MAX_FILE_DESCRIPTORS_def)
  let ?u = "?t\<lparr>open_file_descriptors := fill_fd 2 f # fs\<rparr>"
  have "open_disk_fd ?t = 0" "open_file_descriptors ?t = f # fs" using a fds by (simp_all add: created_def after_delete_def)
  then have o: "fs_open ''c'' ?t = (0, ?u)"
    using fds(2) by (simp add: fs_open_def dir1 entry_matches) (simp add: entry_of_def)
  have "bad_index 2 ?u" by (simp add: bad_index_def dir1 zero_entry)
  then have "fs_write 0 [x] ?u = Some (-1, ?u)"
    by (simp add: fs_write_def bad_fd_def MAX_FILE_DESCRIPTORS_def fill_fd_def Let_def)
  then show ?thesis
    using s c o run_calls_append [of "fs_call_step adj" "[Create ''a'', Create ''b'', Delete ''a'']"
        "[Create ''c'', Open ''c'', Write 0 [x]]" "fresh_state d"] by simp
qed

section \<open>Unmounting and mounting\<close>

text \<open>
  C19: what \<open>umount_fs\<close> stores, \<open>mount_fs\<close> loads, also in another process, on a disk without faults whose
  superblock has the layout of \<open>make_fs\<close>.  \<open>umount_fs\<close> returns 0.  As long as \<open>used_block_bitmap_count\<close> is at
  most 1024, \<open>mount_fs\<close> returns 0 and the superblock, the directory and the inodes that the metadata
  blocks cover (33 of the 64) are restored, no descriptor is open, and the blocks outside the metadata
  area are unchanged; the block bitmap is not stored, but the first \<open>used_block_bitmap_count\<close> bytes of
  the bitmap block replace the front of whatever the process has.  When \<open>used_block_bitmap_count\<close> is
  larger, \<open>mount_fs\<close> copies past the end of the bitmap, which is undefined.
\<close>

theorem umount_mount_roundtrip:
  assumes "wf_tables s" "sb_fits (superblock s)" "disk_ok (disk s)" "handle (disk s) = Some nm" "wf_tables s0"
    "disk s0 = (dsk.put_all (umount_blocks s) (disk s))\<lparr>handle := None, active := False\<rparr>"
  shows "\<exists>s1. umount_fs (Some nm) s = Some (0, s1) \<and> disk s1 = disk s0 \<and>
    (if unat (used_block_bitmap_count (superblock s)) \<le> TOTAL_BLOCKS div CHAR_BIT
     then \<exists>s2. mount_fs (Some nm) s0 = Some (0, s2) \<and> remounted s s0 s2
     else mount_fs (Some nm) s0 = None)"
  using umount_fs_ok [OF assms(1-3), of nm] mount_umounted [OF assms] assms(6) by auto

lemma demo_handle: "handle (disk demo_fs) = Some ''d''"
  by (simp add: demo_fs_eq created_def fresh_other demo_disk_def)

theorem umount_mount_roundtrip_witness:
  "\<exists>s1 s2. umount_fs (Some ''d'') demo_fs = Some (0, s1) \<and>
     mount_fs (Some ''d'') (init_globals (disk s1)) = Some (0, s2) \<and> remounted demo_fs (init_globals (disk s1)) s2"
proof -
  let ?d = "(dsk.put_all (umount_blocks demo_fs) (disk demo_fs))\<lparr>handle := None, active := False\<rparr>"
  have 1: "wf_tables demo_fs" using demo_dir_inv by (simp add: dir_inv_def)
  have 2: "sb_fits (superblock demo_fs)" "unat (used_block_bitmap_count (superblock demo_fs)) \<le> TOTAL_BLOCKS div CHAR_BIT"
    by (simp_all add: demo_tables make_superblock_fits make_superblock_fields TOTAL_BLOCKS_def CHAR_BIT_def)
  have 3: "disk_ok (disk demo_fs)" using data_invD(1) [OF demo_data_inv] .
  have 6: "disk (init_globals ?d) = ?d" by (simp add: init_globals_def)
  show ?thesis using umount_mount_roundtrip [OF 1 2(1) 3 demo_handle wf_tables_init 6] 2(2) 6 by auto
qed

section \<open>Data in the metadata area\<close>

text \<open>
  Writing one byte more than a block to the first file of a new file system: its first block is block
  1, the bitmap block, and its second one block 2, the first block of the inode table.
\<close>

lemma alloc_first: "alloc_of (with_block 0 0 1 demo_fs) 0 k = (if k = 0 then 1 else alloc_of demo_fs 0 k)"
proof -
  have "0 < length (inode_table demo_fs)" "0 < length (direct_offset (inode_table demo_fs ! 0))"
    using data_invD(3) [OF demo_data_inv]
    by (simp_all add: demo_tables MAX_NUM_OF_FILES_def NDIRECT_def MAX_FILESIZE_def BLOCK_SIZE_def)
  then show ?thesis using alloc_of_with_block [of 0 demo_fs 0 1 0 k] by (simp add: TOTAL_BLOCKS_def)
qed

lemma second_block:
  assumes "same_blocks (with_block 0 0 1 demo_fs) s" "data_inv s"
  shows "alloc_block 0 1 s = Some (with_block 0 1 2 s)"
proof -
  let ?z = "replicate (TOTAL_BLOCKS div CHAR_BIT) (0::u8)"
  have bm: "used_block_bitmap s = set_bit_at ?z 1" and off: "unat (used_block_bitmap_offset (superblock s)) = 1"
    and al: "alloc_of s 0 1 = alloc_of demo_fs 0 1"
    using assms(1) alloc_first [of 1] by (simp_all add: same_blocks_def with_block_def demo_tables make_superblock_fields)
  have "1 div 8 < length ?z" by (simp add: TOTAL_BLOCKS_def CHAR_BIT_def)
  then have "free_block_from (used_block_bitmap s) 1 = Some (Suc 1)"
    using fresh_bit get_set_bit_at [of 1 ?z] by (intro free_from_one) (auto simp: bm TOTAL_BLOCKS_def)
  moreover have "direct_offset (inode_table s ! 0) ! 1 = 0"
    using al by (simp add: alloc_of_def unat_eq_zero demo_tables NDIRECT_def MAX_FILESIZE_def BLOCK_SIZE_def)
  ultimately show ?thesis
    using off by (simp add: alloc_block_def Let_def TOTAL_BLOCKS_def with_block_def numeral_2_eq_2)
qed

lemma demo_write_two_blocks:
  fixes buf :: "u8 list" assumes len: "length buf = Suc BLOCK_SIZE"
  shows "\<exists>s. fs_write 0 buf demo_fs = Some (int (length buf), s) \<and> write_post 0 0 0 buf demo_fs s \<and> alloc_of s 0 1 = 2 \<and>
    superblock s = make_superblock\<lparr>used_block_bitmap_count := 3\<rparr>"
proof -
  have ne: "buf \<noteq> []" using len by auto
  have rb: "round_bytes buf 0 0 = BLOCK_SIZE" "round_bytes buf BLOCK_SIZE 0 = 1" using len by (simp_all add: round_bytes_def BLOCK_SIZE_def)
  obtain blk s2 where 1: "fs_write 0 buf demo_fs = fs_write_loop 0 0 buf BLOCK_SIZE 1 0 blk s2"
      "write_post 0 0 0 (take BLOCK_SIZE buf) demo_fs s2" "length blk = BLOCK_SIZE" "same_blocks (with_block 0 0 1 demo_fs) s2"
    using demo_write_start [OF ne] rb(1) by auto
  have inv: "data_inv s2" "dir_inv s2" using 1(2) by (simp_all add: write_post_def)
  have pos: "fd_offset (open_file_descriptors s2 ! nat 0) = int (1 * BLOCK_SIZE + 0)" using 1(2) len by (simp add: write_post_def)
  have pre: "0 < MAX_NUM_OF_FILES" "nat 0 < MAX_FILE_DESCRIPTORS" "BLOCK_SIZE < length buf" "1 < NDIRECT"
    using len by (simp_all add: MAX_NUM_OF_FILES_def MAX_FILE_DESCRIPTORS_def NDIRECT_def MAX_FILESIZE_def BLOCK_SIZE_def)
  obtain blk2 s3 where "fs_write_loop 0 0 buf BLOCK_SIZE 1 0 blk s2 =
        fs_write_loop 0 0 buf (BLOCK_SIZE + round_bytes buf BLOCK_SIZE 0) (Suc 1) 0 blk2 s3"
      "write_post (nat 0) 0 (1 * BLOCK_SIZE + 0) (take (round_bytes buf BLOCK_SIZE 0) (drop BLOCK_SIZE buf)) s2 s3"
      and sb: "same_blocks (with_block 0 1 2 s2) s3"
    using fs_write_loop_step [OF inv pre(1,2) pos BLOCK_SIZE_pos(1) 1(3) pre(3,4) second_block [OF 1(4) inv(1)]] by metis
  then have 2: "fs_write_loop 0 0 buf BLOCK_SIZE 1 0 blk s2 = fs_write_loop 0 0 buf (Suc BLOCK_SIZE) 2 0 blk2 s3"
      "write_post 0 0 BLOCK_SIZE (drop BLOCK_SIZE buf) s2 s3"
    using rb(2) len by (simp_all add: numeral_2_eq_2)
  have "fs_write 0 buf demo_fs = Some (int (length buf), s3)"
    using 1(1) 2(1) len by (simp add: fs_write_loop.simps [of _ _ _ "Suc BLOCK_SIZE"])
  moreover have "write_post 0 0 0 (take BLOCK_SIZE buf @ drop BLOCK_SIZE buf) demo_fs s3"
    using 1(2) 2(2) len pre(1) by (intro write_post_append) (simp_all add: MAX_FILESIZE_def BLOCK_SIZE_def)
  moreover have "alloc_of s3 0 1 = 2"
  proof -
    have "0 < length (inode_table s2)" "1 < length (direct_offset (inode_table s2 ! 0))"
      using data_invD(3) [OF inv(1)] data_invD(4) [OF inv(1) pre(1)] pre by (auto simp: inode_blocks_ok_def)
    then show ?thesis using alloc_of_with_block [of 0 s2 1 2 0 1] sb by (simp add: same_blocks_def TOTAL_BLOCKS_def)
  qed
  moreover have "superblock s3 = make_superblock\<lparr>used_block_bitmap_count := 3\<rparr>"
    using 1(4) sb by (simp add: same_blocks_def with_block_def demo_tables make_superblock_def Let_def TOTAL_BLOCKS_def
        CHAR_BIT_def BLOCK_SIZE_def)
  ultimately show ?thesis by (simp add: append_take_drop_id)
qed

text \<open>
  C33: data blocks are not kept apart from the metadata blocks.  A block of a file that lies in the
  area of the inode table (in a new file system these are the blocks 2 to 34, which a file gets when
  block 1 is taken) is overwritten with a piece of the inode table when the file system is unmounted.
\<close>

theorem umount_overwrites_data:
  assumes "wf_tables s" "sb_fits (superblock s)" "disk_ok (disk s)"
    "alloc_of s ino k = unat (inode_metadata_offset (superblock s)) + j" "j < unat (inode_metadata_blocks (superblock s))"
  shows "\<exists>d s1. umount_fs (Some nm) s = Some (0, s1) \<and> disk s1 = d\<lparr>handle := None, active := False\<rparr> \<and>
    disk_block d (alloc_of s ino k) = table_slice (enc_inodes (inode_table s)) j"
proof -
  let ?D = "dsk.put_all (umount_blocks s) (disk s)"
  have "(alloc_of s ino k, table_slice (enc_inodes (inode_table s)) j) \<in> set (umount_blocks s)"
    using assms(4,5) by (auto simp: umount_blocks_def table_blocks_def Let_def)
  then have "disk_block ?D (alloc_of s ino k) = table_slice (enc_inodes (inode_table s)) j"
    using dsk.get_put_all [OF assms(3) umount_blocks_ok [OF assms(1,2)]] by blast
  then show ?thesis using umount_fs_ok [OF assms(1-3), of nm] by auto
qed

text \<open>Byte 4096 of the file is 7, in block 2, and the unmount replaces that block.\<close>

theorem umount_overwrites_data_witness:
  "\<exists>s d s1. fs_write 0 (replicate (Suc BLOCK_SIZE) 7) demo_fs = Some (int (Suc BLOCK_SIZE), s) \<and>
     file_byte s 0 BLOCK_SIZE = 7 \<and> alloc_of s 0 1 = 2 \<and>
     umount_fs (Some ''d'') s = Some (0, s1) \<and> disk s1 = d\<lparr>handle := None, active := False\<rparr> \<and>
     disk_block d 2 = table_slice (enc_inodes (inode_table s)) 0"
proof -
  let ?buf = "replicate (Suc BLOCK_SIZE) (7::u8)"
  obtain s where s: "fs_write 0 ?buf demo_fs = Some (int (length ?buf), s)" "write_post 0 0 0 ?buf demo_fs s"
      "alloc_of s 0 1 = 2" "superblock s = make_superblock\<lparr>used_block_bitmap_count := 3\<rparr>"
    using demo_write_two_blocks [of ?buf] by auto
  have wf: "wf_tables s" and ok: "disk_ok (disk s)"
    using s(2) data_invD(1) by (auto simp: write_post_def dir_inv_def)
  have fits: "sb_fits (superblock s)" using make_superblock_fits by (simp add: s(4) sb_fits_def)
  have "\<exists>d s1. umount_fs (Some ''d'') s = Some (0, s1) \<and> disk s1 = d\<lparr>handle := None, active := False\<rparr> \<and>
      disk_block d (alloc_of s 0 1) = table_slice (enc_inodes (inode_table s)) 0"
    by (rule umount_overwrites_data [OF wf fits ok]) (use s(3,4) in \<open>simp_all add: make_superblock_fields\<close>)
  moreover have "file_byte s 0 (0 + BLOCK_SIZE) = ?buf ! BLOCK_SIZE" by (rule write_post_read [OF s(2)]) simp
  then have "file_byte s 0 BLOCK_SIZE = 7" by (simp only: add_0 nth_replicate lessI)
  ultimately show ?thesis using s(1,3) by auto
qed

text \<open>
  The bitmap block is also the first data block: \<open>mount_fs\<close> takes the front of the bitmap from it, so a
  zero bit of the file's data marks a used block as free, and the data invariant does not survive an
  unmount followed by a mount.
\<close>

theorem remount_frees_used_block:
  assumes "wf_tables s" "sb_fits (superblock s)" "disk_ok (disk s)" "handle (disk s) = Some nm" "wf_tables s0"
    "disk s0 = (dsk.put_all (umount_blocks s) (disk s))\<lparr>handle := None, active := False\<rparr>"
    and cnt: "unat (used_block_bitmap_count (superblock s)) \<le> TOTAL_BLOCKS div CHAR_BIT"
      "alloc_of s ino k div 8 < unat (used_block_bitmap_count (superblock s))"
    and ino: "ino < unat (inode_metadata_blocks (superblock s))"
    and zero: "\<not> get_bit_at (disk_block (disk s) (unat (used_block_bitmap_offset (superblock s)))) (alloc_of s ino k)"
  shows "\<exists>s2. mount_fs (Some nm) s0 = Some (0, s2) \<and> alloc_of s2 ino k = alloc_of s ino k \<and>
    \<not> get_bit_at (used_block_bitmap s2) (alloc_of s2 ino k)"
proof -
  let ?b = "alloc_of s ino k" and ?n = "unat (used_block_bitmap_count (superblock s))"
  let ?blk = "disk_block (disk s) (unat (used_block_bitmap_offset (superblock s)))"
  obtain s2 where s2: "mount_fs (Some nm) s0 = Some (0, s2)" "remounted s s0 s2"
    using mount_umounted [OF assms(1-6)] cnt(1) by auto
  have al: "alloc_of s2 ino k = ?b" using s2(2) ino by (simp add: remounted_def alloc_of_def)
  have bm: "used_block_bitmap s2 = memcpy_at 0 (take ?n ?blk) (used_block_bitmap s0)" using s2(2) by (simp add: remounted_def)
  have "unat (used_block_bitmap_offset (superblock s)) < DISK_BLOCKS" using assms(2) by (simp add: sb_fits_def)
  then have "length ?blk = BLOCK_SIZE" using dsk.length_get assms(3) by blast
  then have "?b div 8 < length (take ?n ?blk)" using cnt by (simp add: TOTAL_BLOCKS_def CHAR_BIT_def BLOCK_SIZE_def)
  then have "used_block_bitmap s2 ! (?b div 8) = ?blk ! (?b div 8)"
    unfolding bm by (simp add: memcpy_at_def nth_append)
  then have "\<not> get_bit_at (used_block_bitmap s2) ?b" using zero by (simp add: get_bit_at_def)
  then show ?thesis using s2(1) al by auto
qed

section \<open>Making a file system\<close>

text \<open>
  C27: \<open>make_fs\<close> followed by \<open>mount_fs\<close> in a new process, on a host without faults, gives a mounted file
  system without files in which both invariants hold, whatever memory \<open>make_fs\<close> reads behind the
  superblock and the bitmap.
\<close>

theorem make_then_mount:
  assumes "fault_free d" "\<not> active d"
  shows "\<exists>s1 s2. make_fs adj_sb adj_bm (Some nm) (init_globals d) = (0, s1) \<and>
    mount_fs (Some nm) s1 = Some (0, s2) \<and> fs_inv s2 \<and> open_disk_fd s2 = 0 \<and>
    (\<forall>name. dir_lookup (directory s2) name = None) \<and> inodes_used s2 = 0"
proof -
  let ?g = "init_globals d"
  have g: "fault_free (disk ?g)" "\<not> active (disk ?g)" "length (used_block_bitmap ?g) = TOTAL_BLOCKS div CHAR_BIT"
    using assms by (simp_all add: init_globals_def)
  obtain e where e: "make_fs adj_sb adj_bm (Some nm) ?g = (0, ?g\<lparr>superblock := make_superblock,
      used_block_bitmap := replicate (TOTAL_BLOCKS div CHAR_BIT) 0, inode_bitmap := map (\<lambda>_. 0) (inode_bitmap ?g),
      disk := e\<lparr>handle := None, active := False\<rparr>\<rparr>)" (is "_ = (0, ?s1)")
    "disk_ok e" "handle e = Some nm"
    "\<forall>b < DISK_BLOCKS. disk_block e b = (if b = 0 then sb_block adj_sb else if b = 1 then bitmap_block adj_bm
       else replicate BLOCK_SIZE 0)"
    using make_fs_ok [OF g] by metis
  have s1: "disk ?s1 = e\<lparr>handle := None, active := False\<rparr>" "inode_table ?s1 = replicate MAX_NUM_OF_FILES zero_inode"
    "used_block_bitmap ?s1 = replicate (TOTAL_BLOCKS div CHAR_BIT) 0"
    by (simp_all add: init_globals_def)
  obtain d' where m: "mount_fs (Some nm) ?s1 = Some (0, ?s1\<lparr>superblock := make_superblock,
      directory := replicate MAX_NUM_OF_FILES zero_dir_entry,
      open_file_descriptors := map (\<lambda>_. \<lparr>fd_is_used = False, fd_inode_number = -1, fd_offset = 0\<rparr>) (open_file_descriptors ?s1),
      open_disk_fd := 0, disk := d'\<rparr>)" (is "_ = Some (0, ?s2)") "disk_ok d'"
    using mount_fresh_ok [OF e(2-4) s1] by metis
  have "?s2 = fresh_state d'" by (simp add: fresh_state_def init_globals_def map_replicate_const)
  then have "fs_inv ?s2" "open_disk_fd ?s2 = 0" "\<forall>name. dir_lookup (directory ?s2) name = None" "inodes_used ?s2 = 0"
    using fresh_dir_inv [of d'] fresh_data_inv [OF m(2)]
    by (simp_all add: fs_inv_def fresh_other dir_lookup_None fresh_lists name_matches_def zero_dir_entry_def
        inodes_used_def inode_used_def zero_inode_def used_count_def)
  then show ?thesis using e(1) m(1) by blast
qed

theorem make_then_mount_witness:
  "\<exists>s1 s2. make_fs (\<lambda>_. 0) (\<lambda>_. 0) (Some ''d'')
       (init_globals \<lparr>active = False, handle = None, files = Map.empty, clock = 0, io_error = (\<lambda>_. False), transfer = (\<lambda>_. BLOCK_SIZE)\<rparr>) = (0, s1) \<and>
     mount_fs (Some ''d'') s1 = Some (0, s2) \<and> fs_inv s2"
  using make_then_mount [of "\<lparr>active = False, handle = None, files = Map.empty, clock = 0, io_error = (\<lambda>_. False), transfer = (\<lambda>_. BLOCK_SIZE)\<rparr>"
      "\<lambda>_. 0" "\<lambda>_. 0" "''d''"] by (auto simp: fault_free_def)

end
