(* ===== verification/TLS_Model.thy ===== *)
theory TLS_Model
  imports Prelude
begin

text \<open>
  Thread-local storage with copy-on-write, \<^verbatim>\<open>copy-on-write-noodlez102/tls.c\<close>: its data and its
  operations.

  The identifier of the calling thread, which the code gets from \<open>pthread_self\<close>, is an argument of
  every operation, and each operation runs without interruption.  Page structs live in a heap indexed
  by pointers, the pages they describe in a map from addresses to contents with a protection for each
  address.  \<open>malloc\<close>, \<open>calloc\<close> and \<open>mmap\<close> succeed and return fresh objects; the page size is what
  \<open>getpagesize\<close> returns.  \<open>None\<close> stands for everything that does not return: undefined behaviour
  (an index outside an array, a null or dangling pointer, an overflowing \<open>int\<close>), an access to a
  protected page, and \<open>exit\<close> after a failing \<open>mprotect\<close>.
\<close>

section \<open>Data\<close>

definition MAX_THREAD_COUNT :: nat where
  "MAX_THREAD_COUNT = 128"

datatype protection = PROT_NONE | PROT_WRITE | PROT_READ_WRITE

record page =
  address :: nat
  ref_count :: int

record thread_local_storage =
  tls_tid :: u64
  tls_size :: u32
  page_num :: u32
  pages :: "nat list"

record tid_tls_pair =
  pair_tid :: u64
  pair_tls :: "thread_local_storage option"

record tls_state =
  tid_tls_pairs :: "tid_tls_pair list"
  page_size :: nat
  initialize :: bool
  page_heap :: "nat \<rightharpoonup> page"
  mapped :: "nat \<rightharpoonup> u8 list"
  prot :: "nat \<Rightarrow> protection"
  next_page :: nat
  next_map :: nat

text \<open>Static variables start zeroed.\<close>

definition tls_start :: tls_state where
  "tls_start = \<lparr>tid_tls_pairs = replicate MAX_THREAD_COUNT \<lparr>pair_tid = 0, pair_tls = None\<rparr>, page_size = 0,
     initialize = False, page_heap = Map.empty, mapped = Map.empty, prot = (\<lambda>_. PROT_NONE), next_page = 1, next_map = 1\<rparr>"

section \<open>System and library calls\<close>

text \<open>\<open>mmap\<close> of one page of zeros; mappings are aligned to the page size.\<close>

definition mmap_page :: "protection \<Rightarrow> tls_state \<Rightarrow> nat \<times> tls_state" where
  "mmap_page pr s =
     (let a = next_map s * page_size s
      in (a, s\<lparr>mapped := (mapped s)(a \<mapsto> replicate (page_size s) 0), prot := (prot s)(a := pr), next_map := Suc (next_map s)\<rparr>))"

definition alloc_page :: "page \<Rightarrow> tls_state \<Rightarrow> nat \<times> tls_state" where
  "alloc_page pg s = (next_page s, s\<lparr>page_heap := (page_heap s)(next_page s \<mapsto> pg), next_page := Suc (next_page s)\<rparr>)"

text \<open>Both helpers call \<open>mprotect\<close>, which fails on an address that is not mapped.\<close>

definition set_prot :: "protection \<Rightarrow> nat \<Rightarrow> tls_state \<Rightarrow> tls_state option" where
  "set_prot pr p s =
     (case page_heap s p of
        None \<Rightarrow> None
      | Some pg \<Rightarrow> if mapped s (address pg) = None then None else Some (s\<lparr>prot := (prot s)(address pg := pr)\<rparr>))"

definition tls_protect :: "nat \<Rightarrow> tls_state \<Rightarrow> tls_state option" where
  "tls_protect p s = set_prot PROT_NONE p s"

definition tls_unprotect :: "nat \<Rightarrow> tls_state \<Rightarrow> tls_state option" where
  "tls_unprotect p s = set_prot PROT_READ_WRITE p s"

fun for_pages :: "(nat \<Rightarrow> tls_state \<Rightarrow> tls_state option) \<Rightarrow> nat list \<Rightarrow> tls_state \<Rightarrow> tls_state option" where
  "for_pages f [] s = Some s"
| "for_pages f (p # ps) s = (case f p s of None \<Rightarrow> None | Some s' \<Rightarrow> for_pages f ps s')"

section \<open>Initialisation and page faults\<close>

definition tls_init :: "nat \<Rightarrow> tls_state \<Rightarrow> tls_state" where
  "tls_init ps s = s\<lparr>page_size := ps, initialize := True,
     tid_tls_pairs := map (\<lambda>e. e\<lparr>pair_tid := -1\<rparr>) (tid_tls_pairs s)\<rparr>"

datatype fault_result = Exit_Thread | Raise_Again

text \<open>
  The handler of page faults: it ends the thread when the address lies in a page of some storage and
  raises the signal again otherwise.  It follows the storage pointer of every slot without a test.
\<close>

fun fault_scan :: "nat \<Rightarrow> (nat \<rightharpoonup> page) \<Rightarrow> nat list \<Rightarrow> bool option" where
  "fault_scan a h [] = Some False"
| "fault_scan a h (p # ps) =
     (case h p of None \<Rightarrow> None | Some pg \<Rightarrow> if address pg = a then Some True else fault_scan a h ps)"

fun fault_slots :: "nat \<Rightarrow> (nat \<rightharpoonup> page) \<Rightarrow> tid_tls_pair list \<Rightarrow> fault_result option" where
  "fault_slots a h [] = Some Raise_Again"
| "fault_slots a h (e # es) =
     (case pair_tls e of
        None \<Rightarrow> None
      | Some t \<Rightarrow> (case fault_scan a h (pages t) of
                    None \<Rightarrow> None
                  | Some hit \<Rightarrow> if hit then Some Exit_Thread else fault_slots a h es))"

definition tls_handle_page_fault :: "nat \<Rightarrow> tls_state \<Rightarrow> fault_result option" where
  "tls_handle_page_fault si_addr s =
     (let p_fault = nat (and (int si_addr) (not (int (page_size s) - 1)))
      in fault_slots p_fault (page_heap s) (tid_tls_pairs s))"

section \<open>Operations\<close>

definition owner :: "u64 \<Rightarrow> tid_tls_pair \<Rightarrow> bool" where
  "owner tid e \<longleftrightarrow> pair_tid e = tid"

text \<open>The loop that looks for the storage of a thread; it stops at the first slot with its identifier.\<close>

definition find_tls :: "u64 \<Rightarrow> tls_state \<Rightarrow> (nat \<times> thread_local_storage) option" where
  "find_tls tid s =
     (case find_slot (owner tid) (tid_tls_pairs s) of
        None \<Rightarrow> None
      | Some i \<Rightarrow> map_option (Pair i) (pair_tls (tid_tls_pairs s ! i)))"

definition set_slot :: "nat \<Rightarrow> u64 \<Rightarrow> thread_local_storage option \<Rightarrow> tls_state \<Rightarrow> tls_state" where
  "set_slot i tid t s = s\<lparr>tid_tls_pairs := (tid_tls_pairs s)[i := \<lparr>pair_tid = tid, pair_tls = t\<rparr>]\<rparr>"

fun new_pages :: "nat \<Rightarrow> tls_state \<Rightarrow> nat list \<times> tls_state" where
  "new_pages 0 s = ([], s)"
| "new_pages (Suc n) s =
     (case mmap_page PROT_NONE s of (a, s1) \<Rightarrow>
        (case alloc_page \<lparr>address = a, ref_count = 1\<rparr> s1 of (p, s2) \<Rightarrow>
           (case new_pages n s2 of (ps, s3) \<Rightarrow> (p # ps, s3))))"

definition tls_create :: "nat \<Rightarrow> u64 \<Rightarrow> u32 \<Rightarrow> tls_state \<Rightarrow> (int \<times> tls_state) option" where
  "tls_create ps self_tid sz s0 =
     (let s = (if \<not> initialize s0 then tls_init ps s0 else s0)
      in if sz = 0 then Some (-1, s)
         else (let new_tls_index = find_slot (owner (-1)) (tid_tls_pairs s)
               in if find_slot (owner self_tid) (tid_tls_pairs s) \<noteq> None then Some (-1, s)
                  else (let num = (sz - 1) div of_nat (page_size s) + 1
                        in case new_pages (unat num) s of (pgs, s1) \<Rightarrow>
                             (case new_tls_index of
                                None \<Rightarrow> None
                              | Some i \<Rightarrow> Some (0, set_slot i self_tid
                                  (Some \<lparr>tls_tid = self_tid, tls_size = sz, page_num = num, pages = pgs\<rparr>) s1)))))"

text \<open>Giving up one reference to a page.\<close>

definition drop_page :: "nat \<Rightarrow> tls_state \<Rightarrow> tls_state option" where
  "drop_page p s =
     (case page_heap s p of
        None \<Rightarrow> None
      | Some pg \<Rightarrow>
          if ref_count pg = 1
          then Some (s\<lparr>mapped := (mapped s)(address pg := None), page_heap := (page_heap s)(p := None)\<rparr>)
          else Some (s\<lparr>page_heap := (page_heap s)(p \<mapsto> pg\<lparr>ref_count := ref_count pg - 1\<rparr>)\<rparr>))"

definition tls_destroy :: "u64 \<Rightarrow> tls_state \<Rightarrow> (int \<times> tls_state) option" where
  "tls_destroy self_tid s =
     (case find_tls self_tid s of
        None \<Rightarrow> Some (-1, s)
      | Some (i, t) \<Rightarrow>
          (case for_pages drop_page (pages t) s of
             None \<Rightarrow> None
           | Some s1 \<Rightarrow> Some (0, set_slot i 0 None s1)))"

text \<open>
  The number of rounds of the loops over \<open>idx\<close>: the bound \<open>offset + length\<close> is computed on
  \<open>unsigned int\<close> and wraps.  The loop variable is an \<open>int\<close>, which must not overflow.
\<close>

definition loop_count :: "u32 \<Rightarrow> u32 \<Rightarrow> nat option" where
  "loop_count offset len =
     (if unat offset \<ge> unat (offset + len) then Some 0
      else if int (unat (offset + len)) > INT_MAX then None
      else Some (unat (offset + len) - unat offset))"

definition page_at :: "thread_local_storage \<Rightarrow> nat \<Rightarrow> tls_state \<Rightarrow> (nat \<times> nat \<times> page) option" where
  "page_at t idx s =
     (let pn = idx div page_size s
      in if pn \<ge> length (pages t) then None
         else map_option (\<lambda>pg. (pn, pages t ! pn, pg)) (page_heap s (pages t ! pn)))"

definition load :: "nat \<Rightarrow> nat \<Rightarrow> tls_state \<Rightarrow> u8 option" where
  "load a poff s =
     (case mapped s a of
        None \<Rightarrow> None
      | Some bs \<Rightarrow> if prot s a = PROT_READ_WRITE \<and> poff < length bs then Some (bs ! poff) else None)"

definition store :: "nat \<Rightarrow> nat \<Rightarrow> u8 \<Rightarrow> tls_state \<Rightarrow> tls_state option" where
  "store a poff b s =
     (case mapped s a of
        None \<Rightarrow> None
      | Some bs \<Rightarrow> if prot s a \<noteq> PROT_NONE \<and> poff < length bs
                  then Some (s\<lparr>mapped := (mapped s)(a \<mapsto> bs[poff := b])\<rparr>) else None)"

fun read_loop :: "thread_local_storage \<Rightarrow> nat \<Rightarrow> nat \<Rightarrow> tls_state \<Rightarrow> u8 list option" where
  "read_loop t idx 0 s = Some []"
| "read_loop t idx (Suc n) s =
     (case page_at t idx s of
        None \<Rightarrow> None
      | Some (pn, p, pg) \<Rightarrow>
          (case load (address pg) (idx mod page_size s) s of
             None \<Rightarrow> None
           | Some b \<Rightarrow> map_option (Cons b) (read_loop t (Suc idx) n s)))"

definition tls_read :: "u64 \<Rightarrow> u32 \<Rightarrow> u32 \<Rightarrow> tls_state \<Rightarrow> (int \<times> u8 list \<times> tls_state) option" where
  "tls_read self_tid offset len s =
     (case find_tls self_tid s of
        None \<Rightarrow> Some (-1, [], s)
      | Some (i, t) \<Rightarrow>
          if offset + len > tls_size t then Some (-1, [], s)
          else (case (loop_count offset len, for_pages tls_unprotect (pages t) s) of
                  (Some n, Some s1) \<Rightarrow>
                    (case (read_loop t (unat offset) n s1, for_pages tls_protect (pages t) s1) of
                       (Some bs, Some s2) \<Rightarrow> Some (0, bs, s2)
                     | _ \<Rightarrow> None)
                | _ \<Rightarrow> None))"

text \<open>Copying a shared page before the first store to it.\<close>

definition copy_page :: "thread_local_storage \<Rightarrow> nat \<Rightarrow> nat \<Rightarrow> page \<Rightarrow> tls_state \<Rightarrow> (thread_local_storage \<times> nat \<times> tls_state) option" where
  "copy_page t pn p pg s =
     (case mmap_page PROT_WRITE s of (a, s1) \<Rightarrow>
        (case alloc_page \<lparr>address = a, ref_count = 1\<rparr> s1 of (c, s2) \<Rightarrow>
           (case mapped s2 (address pg) of
              None \<Rightarrow> None
            | Some bs \<Rightarrow>
                if prot s2 (address pg) \<noteq> PROT_READ_WRITE then None
                else (let s3 = s2\<lparr>mapped := (mapped s2)(a \<mapsto> bs),
                                  page_heap := (page_heap s2)(p \<mapsto> pg\<lparr>ref_count := ref_count pg - 1\<rparr>)\<rparr>
                      in map_option (\<lambda>s4. (t\<lparr>pages := (pages t)[pn := c]\<rparr>, a, s4)) (tls_protect p s3)))))"

definition write_byte :: "thread_local_storage \<Rightarrow> nat \<Rightarrow> u8 \<Rightarrow> tls_state \<Rightarrow> (thread_local_storage \<times> tls_state) option" where
  "write_byte t idx b s =
     (case page_at t idx s of
        None \<Rightarrow> None
      | Some (pn, p, pg) \<Rightarrow>
          (case (if ref_count pg > 1 then copy_page t pn p pg s else Some (t, address pg, s)) of
             None \<Rightarrow> None
           | Some (t', a, s') \<Rightarrow> map_option (Pair t') (store a (idx mod page_size s) b s')))"

fun write_loop :: "thread_local_storage \<Rightarrow> nat \<Rightarrow> u8 list \<Rightarrow> tls_state \<Rightarrow> (thread_local_storage \<times> tls_state) option" where
  "write_loop t idx [] s = Some (t, s)"
| "write_loop t idx (b # bs) s =
     (case write_byte t idx b s of None \<Rightarrow> None | Some (t', s') \<Rightarrow> write_loop t' (Suc idx) bs s')"

definition tls_write :: "u64 \<Rightarrow> u32 \<Rightarrow> u32 \<Rightarrow> u8 list \<Rightarrow> tls_state \<Rightarrow> (int \<times> tls_state) option" where
  "tls_write self_tid offset len buf s =
     (case find_tls self_tid s of
        None \<Rightarrow> Some (-1, s)
      | Some (i, t) \<Rightarrow>
          if offset + len > tls_size t then Some (-1, s)
          else (case (loop_count offset len, for_pages tls_unprotect (pages t) s) of
                  (Some n, Some s1) \<Rightarrow>
                    if n > length buf then None
                    else (case write_loop t (unat offset) (take n buf) s1 of
                            None \<Rightarrow> None
                          | Some (t', s2) \<Rightarrow>
                              map_option (\<lambda>s3. (0, set_slot i self_tid (Some t') s3)) (for_pages tls_protect (pages t') s2))
                | _ \<Rightarrow> None))"

definition share_page :: "nat \<Rightarrow> tls_state \<Rightarrow> tls_state option" where
  "share_page p s =
     (case page_heap s p of
        None \<Rightarrow> None
      | Some pg \<Rightarrow> if ref_count pg = INT_MAX then None
                   else Some (s\<lparr>page_heap := (page_heap s)(p \<mapsto> pg\<lparr>ref_count := ref_count pg + 1\<rparr>)\<rparr>))"

definition tls_clone :: "u64 \<Rightarrow> u64 \<Rightarrow> tls_state \<Rightarrow> (int \<times> tls_state) option" where
  "tls_clone self_tid tid s =
     (if find_tls self_tid s \<noteq> None then Some (-1, s)
      else (case find_tls tid s of
              None \<Rightarrow> Some (-1, s)
            | Some (j, t) \<Rightarrow>
                (case for_pages share_page (pages t) s of
                   None \<Rightarrow> None
                 | Some s1 \<Rightarrow>
                     (case find_slot (owner (-1)) (tid_tls_pairs s1) of
                        None \<Rightarrow> Some (0, s1)
                      | Some i \<Rightarrow> Some (0, set_slot i self_tid (Some \<lparr>tls_tid = self_tid, tls_size = tls_size t,
                                         page_num = page_num t, pages = pages t\<rparr>) s1)))))"

end
