(* ===== verification/TLS_Inv.thy ===== *)
theory TLS_Inv
  imports TLS_Model Systems
begin

text \<open>
  The invariant of the thread-local storage: who refers to which page, and that pages are never
  accessible between calls.  The heap part is stated for a list of slots of its own, so that it also
  describes the moments in the middle of a write, when the storage being written has already moved
  to a copy of a page.
\<close>

section \<open>The heap of pages\<close>

definition uses :: "nat \<Rightarrow> tid_tls_pair \<Rightarrow> bool" where
  "uses p e \<longleftrightarrow> (case pair_tls e of None \<Rightarrow> False | Some t \<Rightarrow> p \<in> set (pages t))"

definition page_ok :: "tid_tls_pair list \<Rightarrow> tls_state \<Rightarrow> nat \<Rightarrow> page \<Rightarrow> bool" where
  "page_ok es s p pg \<longleftrightarrow> p < next_page s \<and> 1 \<le> ref_count pg \<and> int (used_count (uses p) es) \<le> ref_count pg \<and>
     (\<exists>bs. mapped s (address pg) = Some bs \<and> length bs = page_size s)"

definition heap_ok :: "tid_tls_pair list \<Rightarrow> tls_state \<Rightarrow> bool" where
  "heap_ok es s \<longleftrightarrow> 0 < page_size s \<and> (\<forall>p pg. page_heap s p = Some pg \<longrightarrow> page_ok es s p pg) \<and>
     (\<forall>p p' pg pg'. page_heap s p = Some pg \<and> page_heap s p' = Some pg' \<and> address pg = address pg' \<longrightarrow> p = p') \<and>
     (\<forall>a. mapped s a \<noteq> None \<longrightarrow> (\<exists>k < next_map s. a = k * page_size s)) \<and>
     (\<forall>e \<in> set es. \<forall>p. uses p e \<longrightarrow> page_heap s p \<noteq> None)"

lemma heap_okD:
  assumes "heap_ok es s"
  shows "0 < page_size s"
    and "page_heap s p = Some pg \<Longrightarrow> page_ok es s p pg"
    and "page_heap s p = Some pg \<Longrightarrow> page_heap s p' = Some pg' \<Longrightarrow> address pg = address pg' \<Longrightarrow> p = p'"
    and "mapped s a \<noteq> None \<Longrightarrow> \<exists>k < next_map s. a = k * page_size s"
    and "e \<in> set es \<Longrightarrow> uses p e \<Longrightarrow> \<exists>pg. page_heap s p = Some pg"
  using assms unfolding heap_ok_def by (blast | force)+

lemma fresh_address: "heap_ok es s \<Longrightarrow> mapped s (next_map s * page_size s) = None"
  using heap_okD(1,4) [of es s] by (metis mult_right_cancel less_irrefl option.distinct(1) not_None_eq)

lemma fresh_page: "heap_ok es s \<Longrightarrow> page_heap s (next_page s) = None"
  using heap_okD(2) [of es s "next_page s"] by (cases "page_heap s (next_page s)") (auto simp: page_ok_def)

section \<open>Slots\<close>

definition valid_tid :: "u64 \<Rightarrow> bool" where
  "valid_tid tid \<longleftrightarrow> tid \<noteq> 0 \<and> tid \<noteq> -1"

definition storage_ok :: "nat \<Rightarrow> thread_local_storage \<Rightarrow> bool" where
  "storage_ok ps t \<longleftrightarrow> distinct (pages t) \<and> length (pages t) = unat (page_num t) \<and>
     unat (tls_size t) \<le> length (pages t) * ps"

definition slot_ok :: "nat \<Rightarrow> tid_tls_pair \<Rightarrow> bool" where
  "slot_ok ps e \<longleftrightarrow> (case pair_tls e of
      None \<Rightarrow> \<not> valid_tid (pair_tid e)
    | Some t \<Rightarrow> valid_tid (pair_tid e) \<and> storage_ok ps t)"

definition slots_ok :: "nat \<Rightarrow> tid_tls_pair list \<Rightarrow> bool" where
  "slots_ok ps es \<longleftrightarrow> length es = MAX_THREAD_COUNT \<and> list_all (slot_ok ps) es \<and>
     (\<forall>i < length es. \<forall>j < length es. pair_tid (es ! i) = pair_tid (es ! j) \<and> valid_tid (pair_tid (es ! i)) \<longrightarrow> i = j)"

definition tls_inv :: "tls_state \<Rightarrow> bool" where
  "tls_inv s \<longleftrightarrow> (if initialize s
     then slots_ok (page_size s) (tid_tls_pairs s) \<and> heap_ok (tid_tls_pairs s) s \<and> (\<forall>a. prot s a = PROT_NONE) \<and>
       page_size s < 2 ^ 32
     else s = tls_start)"

lemma find_tls_Some:
  "find_tls tid s = Some (i, t) \<longleftrightarrow>
     find_slot (owner tid) (tid_tls_pairs s) = Some i \<and> pair_tls (tid_tls_pairs s ! i) = Some t"
  by (auto simp: find_tls_def split: option.splits)

lemma find_tlsD:
  assumes "find_tls tid s = Some (i, t)"
  shows "i < length (tid_tls_pairs s)" "pair_tid (tid_tls_pairs s ! i) = tid" "pair_tls (tid_tls_pairs s ! i) = Some t"
  using assms find_slot_lt [of "owner tid" "tid_tls_pairs s" i] find_slot_hit [of "owner tid" "tid_tls_pairs s" i]
  by (auto simp: find_tls_Some owner_def)

lemma find_tls_valid:
  assumes "slots_ok ps (tid_tls_pairs s)" "find_tls tid s = Some (i, t)"
  shows "valid_tid tid" "storage_ok ps t"
  using assms find_tlsD [OF assms(2)] by (auto simp: slots_ok_def slot_ok_def list_all_length)

lemma find_tlsI:
  assumes "slots_ok ps (tid_tls_pairs s)" "i < length (tid_tls_pairs s)" "pair_tls (tid_tls_pairs s ! i) = Some t"
  shows "find_tls (pair_tid (tid_tls_pairs s ! i)) s = Some (i, t)"
proof -
  let ?es = "tid_tls_pairs s" and ?tid = "pair_tid (tid_tls_pairs s ! i)"
  have "slot_ok ps (?es ! i)" using assms(1,2) by (simp add: slots_ok_def list_all_length)
  then have v: "valid_tid ?tid" using assms(3) by (simp add: slot_ok_def)
  obtain j where j: "find_slot (owner ?tid) ?es = Some j"
    using find_slot_exI [of i ?es "owner ?tid"] assms(2) by (auto simp: owner_def)
  then have "j = i"
    using find_slot_lt [OF j] find_slot_hit [OF j] assms(1,2) v unfolding slots_ok_def owner_def by metis
  then show ?thesis using j assms(3) by (simp add: find_tls_Some)
qed

section \<open>Bytes\<close>

definition page_bytes :: "tls_state \<Rightarrow> nat \<Rightarrow> u8 list" where
  "page_bytes s p = (case page_heap s p of None \<Rightarrow> [] | Some pg \<Rightarrow> (case mapped s (address pg) of None \<Rightarrow> [] | Some bs \<Rightarrow> bs))"

definition tls_byte :: "tls_state \<Rightarrow> thread_local_storage \<Rightarrow> nat \<Rightarrow> u8" where
  "tls_byte s t k = page_bytes s (pages t ! (k div page_size s)) ! (k mod page_size s)"

definition storage :: "tls_state \<Rightarrow> thread_local_storage \<Rightarrow> u8 list" where
  "storage s t = map (tls_byte s t) [0..<unat (tls_size t)]"

text \<open>The abstract state: every thread with a storage has a list of bytes of its own.\<close>

definition storages :: "tls_state \<Rightarrow> u64 \<Rightarrow> u8 list option" where
  "storages s tid = map_option (\<lambda>(i, t). storage s t) (find_tls tid s)"

lemma length_storage [simp]: "length (storage s t) = unat (tls_size t)"
  by (simp add: storage_def)

lemma storage_cong:
  assumes "tls_size t' = tls_size t" "\<And>k. k < unat (tls_size t) \<Longrightarrow> tls_byte s' t' k = tls_byte s t k"
  shows "storage s' t' = storage s t"
  using assms by (auto simp: storage_def)

lemma page_index_lt:
  assumes "storage_ok ps t" "k < unat (tls_size t)"
  shows "k div ps < length (pages t)"
proof -
  have "k < length (pages t) * ps" using assms unfolding storage_ok_def by linarith
  then show ?thesis by (rule less_mult_imp_div_less)
qed

section \<open>Protection\<close>

text \<open>The loops over \<open>tls_protect\<close> and \<open>tls_unprotect\<close> change protections only.\<close>

definition page_addresses :: "tls_state \<Rightarrow> nat list \<Rightarrow> nat set" where
  "page_addresses s ps = {address pg | p pg. p \<in> set ps \<and> page_heap s p = Some pg}"

lemma for_pages_set_prot:
  assumes "\<And>p. p \<in> set ps \<Longrightarrow> \<exists>pg. page_heap s p = Some pg \<and> mapped s (address pg) \<noteq> None"
  shows "for_pages (set_prot pr) ps s = Some (s\<lparr>prot := (\<lambda>a. if a \<in> page_addresses s ps then pr else prot s a)\<rparr>)"
  using assms
proof (induction ps arbitrary: s)
  case Nil
  then show ?case by (simp add: page_addresses_def)
next
  case (Cons p ps)
  obtain pg where pg: "page_heap s p = Some pg" "mapped s (address pg) \<noteq> None" using Cons.prems [of p] by auto
  let ?s = "s\<lparr>prot := (prot s)(address pg := pr)\<rparr>"
  have "for_pages (set_prot pr) ps ?s = Some (?s\<lparr>prot := (\<lambda>a. if a \<in> page_addresses ?s ps then pr else prot ?s a)\<rparr>)"
    using Cons.prems by (intro Cons.IH) simp
  moreover have "page_addresses ?s ps = page_addresses s ps" by (simp add: page_addresses_def)
  moreover have "page_addresses s (p # ps) = insert (address pg) (page_addresses s ps)"
    using pg(1) by (auto simp: page_addresses_def)
  moreover have "set_prot pr p s = Some ?s" using pg by (simp add: set_prot_def)
  ultimately show ?case by (auto simp: fun_eq_iff intro!: tls_state.equality)
qed


section \<open>Changes of the heap\<close>

lemma used_count_cong: "(\<And>e. e \<in> set es \<Longrightarrow> P e = Q e) \<Longrightarrow> used_count P es = used_count Q es"
  unfolding used_count_def by (metis filter_cong)

lemma used_count_pos: "e \<in> set es \<Longrightarrow> P e \<Longrightarrow> 0 < used_count P es"
  by (auto simp: used_count_def filter_empty_conv)

lemma used_count_two:
  assumes "i < length es" "j < length es" "i \<noteq> j" "P (es ! i)" "P (es ! j)"
  shows "2 \<le> used_count P es"
proof -
  have "finite {k. k < length es \<and> P (es ! k)}" by simp
  moreover have "{i, j} \<subseteq> {k. k < length es \<and> P (es ! k)}" using assms by auto
  ultimately have "card {i, j} \<le> card {k. k < length es \<and> P (es ! k)}" by (rule card_mono)
  then show ?thesis using assms(3) by (simp add: used_count_def length_filter_conv_card)
qed

text \<open>The heap part does not depend on protections.\<close>

lemma heap_ok_prot [simp]: "heap_ok es (s\<lparr>prot := f\<rparr>) = heap_ok es s"
  by (simp add: heap_ok_def page_ok_def)

lemma heap_ok_slots [simp]: "heap_ok es (s\<lparr>tid_tls_pairs := es'\<rparr>) = heap_ok es s"
  by (simp add: heap_ok_def page_ok_def)

lemma page_bytes_frame [simp]:
  "page_bytes (s\<lparr>prot := f\<rparr>) = page_bytes s" "page_bytes (s\<lparr>tid_tls_pairs := es\<rparr>) = page_bytes s"
  by (auto simp: fun_eq_iff page_bytes_def split: option.split)

lemma tls_byte_frame [simp]:
  "tls_byte (s\<lparr>prot := f\<rparr>) = tls_byte s" "tls_byte (s\<lparr>tid_tls_pairs := es\<rparr>) = tls_byte s"
  by (simp_all add: fun_eq_iff tls_byte_def)

text \<open>Mapping a new page with one reference, which no slot uses yet.\<close>

definition with_page :: "protection \<Rightarrow> u8 list \<Rightarrow> tls_state \<Rightarrow> tls_state" where
  "with_page pr bs s =
     (let a = next_map s * page_size s
      in s\<lparr>mapped := (mapped s)(a \<mapsto> bs), prot := (prot s)(a := pr), next_map := Suc (next_map s),
           page_heap := (page_heap s)(next_page s \<mapsto> \<lparr>address = a, ref_count = 1\<rparr>), next_page := Suc (next_page s)\<rparr>)"

lemma unused_fresh: "heap_ok es s \<Longrightarrow> used_count (uses (next_page s)) es = 0"
  using heap_okD(5) [of es s _ "next_page s"] fresh_page [of es s] by (fastforce simp: used_count_def filter_empty_conv)

lemma heap_ok_with_page:
  assumes ok: "heap_ok es s" and len: "length bs = page_size s"
  shows "heap_ok es (with_page pr bs s)"
proof -
  let ?a = "next_map s * page_size s" and ?s = "with_page pr bs s"
  have fa: "mapped s ?a = None" and fp: "page_heap s (next_page s) = None"
    using fresh_address [OF ok] fresh_page [OF ok] by simp_all
  have na: "address pg \<noteq> ?a" if "page_heap s p = Some pg" for p pg
    using heap_okD(2) [OF ok that] fa by (auto simp: page_ok_def)
  show ?thesis
    unfolding heap_ok_def
  proof (intro conjI allI impI ballI)
    show "0 < page_size ?s" using heap_okD(1) [OF ok] by (simp add: with_page_def Let_def)
  next
    fix p pg assume "page_heap ?s p = Some pg"
    then show "page_ok es ?s p pg"
      using heap_okD(2) [OF ok, of p pg] na unused_fresh [OF ok] len
      by (auto simp: with_page_def Let_def page_ok_def split: if_splits)
  next
    fix p p' pg pg'
    assume "page_heap ?s p = Some pg \<and> page_heap ?s p' = Some pg' \<and> address pg = address pg'"
    then show "p = p'"
      using heap_okD(3) [OF ok, of p pg p' pg'] na [of p pg] na [of p' pg']
      by (auto simp: with_page_def Let_def split: if_splits)
  next
    fix a assume "mapped ?s a \<noteq> None"
    then show "\<exists>k < next_map ?s. a = k * page_size ?s"
      using heap_okD(4) [OF ok, of a] by (auto simp: with_page_def Let_def less_Suc_eq split: if_splits)
  next
    fix e p assume "e \<in> set es" "uses p e"
    then show "page_heap ?s p \<noteq> None" using heap_okD(5) [OF ok] by (auto simp: with_page_def Let_def)
  qed
qed

lemma page_bytes_with_page:
  assumes ok: "heap_ok es s"
  shows "page_bytes (with_page pr bs s) p = (if p = next_page s then bs else page_bytes s p)"
proof -
  have "address pg \<noteq> next_map s * page_size s" if "page_heap s p = Some pg" for pg
    using heap_okD(2) [OF ok that] fresh_address [OF ok] by (auto simp: page_ok_def)
  then show ?thesis by (auto simp: page_bytes_def with_page_def Let_def split: option.splits)
qed

text \<open>Changing a reference count.\<close>

definition with_count :: "nat \<Rightarrow> int \<Rightarrow> tls_state \<Rightarrow> tls_state" where
  "with_count p n s = s\<lparr>page_heap := (page_heap s)(p := map_option (\<lambda>pg. pg\<lparr>ref_count := n\<rparr>) (page_heap s p))\<rparr>"

lemma page_bytes_with_count [simp]: "page_bytes (with_count p n s) q = page_bytes s q"
  by (auto simp: page_bytes_def with_count_def split: option.splits)

lemma heap_ok_with_count:
  assumes ok: "heap_ok es s" and n: "1 \<le> n" "int (used_count (uses p) es) \<le> n"
  shows "heap_ok es (with_count p n s)"
proof -
  let ?s = "with_count p n s"
  have heap: "page_heap ?s q = Some pg \<Longrightarrow> \<exists>pg'. page_heap s q = Some pg' \<and> address pg = address pg' \<and>
      ref_count pg = (if q = p then n else ref_count pg')" for q pg
    by (auto simp: with_count_def split: if_splits)
  have same: "mapped ?s = mapped s" "page_size ?s = page_size s" "next_page ?s = next_page s" "next_map ?s = next_map s"
    by (simp_all add: with_count_def)
  show ?thesis
    unfolding heap_ok_def same
  proof (intro conjI allI impI ballI)
    show "0 < page_size s" by (rule heap_okD(1) [OF ok])
  next
    fix q pg assume "page_heap ?s q = Some pg"
    then obtain pg' where pg': "page_heap s q = Some pg'" "address pg = address pg'"
      "ref_count pg = (if q = p then n else ref_count pg')" using heap by blast
    then show "page_ok es ?s q pg" using heap_okD(2) [OF ok pg'(1)] n by (auto simp: page_ok_def same)
  next
    fix q q' pg pg'
    assume "page_heap ?s q = Some pg \<and> page_heap ?s q' = Some pg' \<and> address pg = address pg'"
    then show "q = q'" using heap heap_okD(3) [OF ok] by metis
  next
    fix a assume "mapped s a \<noteq> None"
    then show "\<exists>k < next_map s. a = k * page_size s" by (rule heap_okD(4) [OF ok])
  next
    fix e q assume "e \<in> set es" "uses q e"
    then show "page_heap ?s q \<noteq> None" using heap_okD(5) [OF ok] by (fastforce simp: with_count_def)
  qed
qed

text \<open>Moving from one list of slots to another.\<close>

lemma heap_ok_change_slots:
  assumes ok: "heap_ok es s"
    and counts: "\<And>p pg. page_heap s p = Some pg \<Longrightarrow> int (used_count (uses p) es') \<le> ref_count pg"
    and heap: "\<And>e p. e \<in> set es' \<Longrightarrow> uses p e \<Longrightarrow> page_heap s p \<noteq> None"
  shows "heap_ok es' s"
  using ok counts heap unfolding heap_ok_def page_ok_def by blast

text \<open>Storing a byte.\<close>

lemma heap_ok_store:
  assumes "heap_ok es s" "mapped s a = Some bs" "length bs' = length bs"
  shows "heap_ok es (s\<lparr>mapped := (mapped s)(a \<mapsto> bs')\<rparr>)"
proof -
  let ?s = "s\<lparr>mapped := (mapped s)(a \<mapsto> bs')\<rparr>"
  have "page_ok es ?s p pg" if "page_heap s p = Some pg" for p pg
    using heap_okD(2) [OF assms(1) that] assms(2,3) by (auto simp: page_ok_def)
  moreover have "\<exists>k < next_map s. b = k * page_size s" if "mapped ?s b \<noteq> None" for b
    using that heap_okD(4) [OF assms(1), of b] assms(2) by (auto split: if_splits)
  ultimately show ?thesis using assms(1) unfolding heap_ok_def by simp
qed

end
