(* ===== verification/TLS_Write.thy ===== *)
theory TLS_Write
  imports TLS_Inv
begin

text \<open>
  Writing with copy-on-write: a byte stored through one storage is visible in that storage only.
  \<open>working es i t s\<close> describes the state inside \<open>tls_write\<close>: slot \<open>i\<close> of \<open>es\<close> has the storage \<open>t\<close>,
  whose pages are accessible, and no other page is.
\<close>

section \<open>States inside a write\<close>

definition working :: "tid_tls_pair list \<Rightarrow> nat \<Rightarrow> thread_local_storage \<Rightarrow> tls_state \<Rightarrow> bool" where
  "working es i t s \<longleftrightarrow> heap_ok es s \<and> i < length es \<and> pair_tls (es ! i) = Some t \<and> distinct (pages t) \<and>
     (\<forall>p \<in> set (pages t). \<forall>pg. page_heap s p = Some pg \<longrightarrow>
        prot s (address pg) \<noteq> PROT_NONE \<and> (1 < ref_count pg \<longrightarrow> prot s (address pg) = PROT_READ_WRITE)) \<and>
     (\<forall>a. a \<notin> page_addresses s (pages t) \<longrightarrow> prot s a = PROT_NONE)"

lemma workingD:
  assumes "working es i t s"
  shows "heap_ok es s" "i < length es" "pair_tls (es ! i) = Some t" "distinct (pages t)"
    and "p \<in> set (pages t) \<Longrightarrow> page_heap s p = Some pg \<Longrightarrow> prot s (address pg) \<noteq> PROT_NONE"
    and "p \<in> set (pages t) \<Longrightarrow> page_heap s p = Some pg \<Longrightarrow> 1 < ref_count pg \<Longrightarrow> prot s (address pg) = PROT_READ_WRITE"
    and "a \<notin> page_addresses s (pages t) \<Longrightarrow> prot s a = PROT_NONE"
  using assms unfolding working_def by blast+

lemma uses_own: "working es i t s \<Longrightarrow> uses p (es ! i) \<longleftrightarrow> p \<in> set (pages t)"
  by (simp add: working_def uses_def)

lemma own_page:
  assumes "working es i t s" "p \<in> set (pages t)"
  obtains pg where "page_heap s p = Some pg" "page_ok es s p pg"
proof -
  have "es ! i \<in> set es" "uses p (es ! i)" using workingD(2) [OF assms(1)] uses_own [OF assms(1)] assms(2) by simp_all
  then obtain pg where "page_heap s p = Some pg" using heap_okD(5) [OF workingD(1) [OF assms(1)]] by blast
  then show ?thesis using that heap_okD(2) [OF workingD(1) [OF assms(1)]] by blast
qed

lemma any_page:
  assumes "heap_ok es s" "j < length es" "pair_tls (es ! j) = Some u" "q \<in> set (pages u)"
  obtains pg where "page_heap s q = Some pg"
  using heap_okD(5) [OF assms(1), of "es ! j" q] assms(2-4) that by (auto simp: uses_def)

section \<open>Storing into a page of one's own\<close>

lemma page_bytes_store:
  assumes "heap_ok es s" "page_heap s p = Some pg" "mapped s (address pg) = Some bs"
  shows "page_bytes (s\<lparr>mapped := (mapped s)(address pg \<mapsto> bs')\<rparr>) q = (if q = p then bs' else page_bytes s q)"
proof (cases "q = p")
  case True
  then show ?thesis using assms(2) by (simp add: page_bytes_def)
next
  case False
  then have "address pg' \<noteq> address pg" if "page_heap s q = Some pg'" for pg'
    using heap_okD(3) [OF assms(1,2) that] by auto
  with False show ?thesis by (auto simp: page_bytes_def split: option.split)
qed

definition same_tables :: "tls_state \<Rightarrow> tls_state \<Rightarrow> bool" where
  "same_tables s s' \<longleftrightarrow> tid_tls_pairs s' = tid_tls_pairs s \<and> page_size s' = page_size s \<and> initialize s' = initialize s"

lemma same_tables_trans: "same_tables s s1 \<Longrightarrow> same_tables s1 s2 \<Longrightarrow> same_tables s s2"
  by (simp add: same_tables_def)

definition others_same :: "tid_tls_pair list \<Rightarrow> nat \<Rightarrow> tls_state \<Rightarrow> tls_state \<Rightarrow> bool" where
  "others_same es i s s' \<longleftrightarrow> (\<forall>j < length es. j \<noteq> i \<longrightarrow> (\<forall>u. pair_tls (es ! j) = Some u \<longrightarrow>
     (\<forall>k < length (pages u) * page_size s. tls_byte s' u k = tls_byte s u k)))"

lemma pages_index: "k < length (pages t) * ps \<Longrightarrow> k div ps < length (pages t)"
  by (rule less_mult_imp_div_less)

lemma exclusive_page:
  assumes "working es i t s" "p \<in> set (pages t)" "page_heap s p = Some pg" "ref_count pg \<le> 1"
    "j < length es" "j \<noteq> i" "pair_tls (es ! j) = Some u"
  shows "p \<notin> set (pages u)"
proof
  assume "p \<in> set (pages u)"
  then have "uses p (es ! j)" using assms(7) by (simp add: uses_def)
  moreover have "uses p (es ! i)" using uses_own [OF assms(1)] assms(2) by simp
  ultimately have "2 \<le> used_count (uses p) es"
    using used_count_two [of i es j] workingD(2) [OF assms(1)] assms(5,6) by auto
  then show False using heap_okD(2) [OF workingD(1) [OF assms(1)] assms(3)] assms(4) by (simp add: page_ok_def)
qed

lemma store_own:
  assumes w: "working es i t s" and pn: "pn < length (pages t)" and pg: "page_heap s (pages t ! pn) = Some pg"
    and one: "ref_count pg \<le> 1" and poff: "poff < page_size s"
  obtains s' where "store (address pg) poff b s = Some s'" "working es i t s'" "same_tables s s'" "others_same es i s s'"
    "\<forall>k < length (pages t) * page_size s. tls_byte s' t k = (if k = pn * page_size s + poff then b else tls_byte s t k)"
proof -
  let ?p = "pages t ! pn"
  have p: "?p \<in> set (pages t)" using pn by simp
  note ok = workingD(1) [OF w]
  obtain bs where bs: "mapped s (address pg) = Some bs" "length bs = page_size s"
    using heap_okD(2) [OF ok pg] by (auto simp: page_ok_def)
  let ?s = "s\<lparr>mapped := (mapped s)(address pg \<mapsto> bs[poff := b])\<rparr>"
  note pb = page_bytes_store [OF ok pg bs(1), of "bs[poff := b]"]
  have st: "store (address pg) poff b s = Some ?s"
    using workingD(5) [OF w p pg] bs poff by (simp add: store_def)
  have "heap_ok es ?s" using heap_ok_store [OF ok bs(1)] by simp
  then have w': "working es i t ?s" using w by (simp add: working_def page_addresses_def)
  have byte: "tls_byte ?s t k = (if k = pn * page_size s + poff then b else tls_byte s t k)"
    if "k < length (pages t) * page_size s" for k
  proof -
    have lt: "k div page_size s < length (pages t)" using that by (rule pages_index)
    have m: "k mod page_size s < page_size s" using poff by simp
    have pos: "k = pn * page_size s + poff \<longleftrightarrow> k div page_size s = pn \<and> k mod page_size s = poff"
      using poff div_mult_mod_eq [of k "page_size s"] by auto
    have "pages t ! (k div page_size s) = ?p \<longleftrightarrow> k div page_size s = pn"
      using nth_eq_iff_index_eq [OF workingD(4) [OF w] lt pn] .
    moreover have "page_bytes s ?p = bs" using pg bs(1) by (simp add: page_bytes_def)
    ultimately show ?thesis
      using pb bs(2) m by (auto simp: tls_byte_def pos nth_list_update)
  qed
  have "others_same es i s ?s"
    unfolding others_same_def
  proof (intro allI impI)
    fix j u k
    assume j: "j < length es" "j \<noteq> i" "pair_tls (es ! j) = Some u" "k < length (pages u) * page_size s"
    have "pages u ! (k div page_size s) \<in> set (pages u)" using pages_index [OF j(4)] by simp
    then have "pages u ! (k div page_size s) \<noteq> ?p" using exclusive_page [OF w p pg one j(1-3)] by auto
    then show "tls_byte ?s u k = tls_byte s u k" using pb by (simp add: tls_byte_def)
  qed
  then show ?thesis using that [OF st w'] byte by (simp add: same_tables_def)
qed

section \<open>Copying a shared page\<close>

definition with_storage :: "tid_tls_pair list \<Rightarrow> nat \<Rightarrow> thread_local_storage \<Rightarrow> tid_tls_pair list" where
  "with_storage es i t = es[i := (es ! i)\<lparr>pair_tls := Some t\<rparr>]"

lemma length_with_storage [simp]: "length (with_storage es i t) = length es"
  by (simp add: with_storage_def)

lemma nth_with_storage:
  "j < length es \<Longrightarrow> with_storage es i t ! j = (if j = i then (es ! i)\<lparr>pair_tls := Some t\<rparr> else es ! j)"
  by (simp add: with_storage_def)

lemma with_storage_twice [simp]: "with_storage (with_storage es i t) i t' = with_storage es i t'"
  by (cases "i < length es") (simp_all add: with_storage_def list_update_beyond)

text \<open>How the users of a page change when one storage exchanges a page for another.\<close>

lemma users_exchange:
  assumes "i < length es" "pair_tls (es ! i) = Some t" "distinct (pages t)" "pn < length (pages t)" "c \<notin> set (pages t)"
    "t' = t\<lparr>pages := (pages t)[pn := c]\<rparr>"
  shows "used_count (uses q) (with_storage es i t') =
    (if q = pages t ! pn then used_count (uses q) es - 1 else if q = c then used_count (uses q) es + 1
     else used_count (uses q) es)"
    and "q = pages t ! pn \<Longrightarrow> 1 \<le> used_count (uses q) es"
proof -
  let ?p = "pages t ! pn" and ?e = "(es ! i)\<lparr>pair_tls := Some t'\<rparr>"
  have c: "?p \<noteq> c" using assms(4,5) by auto
  have set': "set (pages t') = insert c (set (pages t) - {?p})"
    using assms(3,4,6) by (simp add: set_update_distinct)
  have old: "uses q (es ! i) \<longleftrightarrow> q \<in> set (pages t)" using assms(2) by (simp add: uses_def)
  have new: "uses q ?e \<longleftrightarrow> q = c \<or> q \<in> set (pages t) \<and> q \<noteq> ?p" using set' by (auto simp: uses_def)
  have "used_count (uses q) (with_storage es i t') + (if uses q (es ! i) then 1 else 0) =
      used_count (uses q) es + (if uses q ?e then 1 else 0)"
    using used_count_update [OF assms(1), of "uses q" ?e] by (simp add: with_storage_def)
  note count = this
  have "?p \<in> set (pages t)" using assms(4) by simp
  then consider "q = ?p" "uses q (es ! i)" "\<not> uses q ?e" | "q = c" "q \<noteq> ?p" "\<not> uses q (es ! i)" "uses q ?e"
    | "q \<noteq> ?p" "q \<noteq> c" "uses q ?e = uses q (es ! i)"
    using old new assms(5) c by metis
  then show "used_count (uses q) (with_storage es i t') =
    (if q = ?p then used_count (uses q) es - 1 else if q = c then used_count (uses q) es + 1
     else used_count (uses q) es)"
    using count by cases simp_all
  show "q = ?p \<Longrightarrow> 1 \<le> used_count (uses q) es"
    using used_count_pos [of "es ! i" es "uses q"] assms(1,4) old by simp
qed

lemma copy_page_eq:
  assumes ok: "heap_ok es s" and pg: "page_heap s p = Some pg" and rw: "prot s (address pg) = PROT_READ_WRITE"
  shows "copy_page t pn p pg s = Some (t\<lparr>pages := (pages t)[pn := next_page s]\<rparr>, next_map s * page_size s,
    (with_count p (ref_count pg - 1) (with_page PROT_WRITE (page_bytes s p) s))
      \<lparr>prot := ((prot s)(next_map s * page_size s := PROT_WRITE))(address pg := PROT_NONE)\<rparr>)"
proof -
  let ?a = "next_map s * page_size s"
  have ne: "address pg \<noteq> ?a" "p \<noteq> next_page s"
    using heap_okD(2) [OF ok pg] fresh_address [OF ok] pg fresh_page [OF ok] by (auto simp: page_ok_def)
  obtain bs where bs: "mapped s (address pg) = Some bs" using heap_okD(2) [OF ok pg] by (auto simp: page_ok_def)
  then have "page_bytes s p = bs" using pg by (simp add: page_bytes_def)
  then show ?thesis
    using ne bs pg rw
    by (simp add: copy_page_def mmap_page_def alloc_page_def with_page_def with_count_def Let_def tls_protect_def set_prot_def
        fun_upd_twist)
qed

lemma copy_own:
  assumes w: "working es i t s" and pn: "pn < length (pages t)" and pg: "page_heap s (pages t ! pn) = Some pg"
    and shared: "1 < ref_count pg"
    and t': "t' = t\<lparr>pages := (pages t)[pn := next_page s]\<rparr>"
    and s': "s' = (with_count (pages t ! pn) (ref_count pg - 1) (with_page PROT_WRITE (page_bytes s (pages t ! pn)) s))
      \<lparr>prot := ((prot s)(next_map s * page_size s := PROT_WRITE))(address pg := PROT_NONE)\<rparr>"
  shows "working (with_storage es i t') i t' s'" "others_same es i s s'"
    "page_heap s' (next_page s) = Some \<lparr>address = next_map s * page_size s, ref_count = 1\<rparr>"
    "\<forall>k < length (pages t) * page_size s. tls_byte s' t' k = tls_byte s t k"
proof -
  let ?p = "pages t ! pn" and ?c = "next_page s" and ?a = "next_map s * page_size s"
  let ?s1 = "with_page PROT_WRITE (page_bytes s ?p) s" and ?es = "with_storage es i t'"
  note ok = workingD(1) [OF w]
  have p: "?p \<in> set (pages t)" using pn by simp
  have in_heap: "\<exists>qg. page_heap s q = Some qg" if "q \<in> set (pages t)" for q using own_page [OF w that] by metis
  have cnew: "?c \<notin> set (pages t)" using in_heap fresh_page [OF ok] by force
  have pc: "?p \<noteq> ?c" using p cnew by auto
  have blen: "length (page_bytes s ?p) = page_size s"
    using heap_okD(2) [OF ok pg] pg by (auto simp: page_ok_def page_bytes_def)
  note users = users_exchange [OF workingD(2-4) [OF w] pn cnew t']
  have ok1: "heap_ok es ?s1" using heap_ok_with_page [OF ok blen] .
  have heap1: "page_heap ?s1 q = (if q = ?c then Some \<lparr>address = ?a, ref_count = 1\<rparr> else page_heap s q)" for q
    by (simp add: with_page_def Let_def)
  have ok2: "heap_ok ?es ?s1"
  proof (rule heap_ok_change_slots [OF ok1])
    fix q qg assume qg: "page_heap ?s1 q = Some qg"
    show "int (used_count (uses q) ?es) \<le> ref_count qg"
      using heap_okD(2) [OF ok1 qg] qg users(1) [of q] unused_fresh [OF ok] pc
      by (auto simp: page_ok_def heap1 split: if_splits)
  next
    fix e q assume e: "e \<in> set ?es" "uses q e"
    then obtain j where j: "j < length es" "e = ?es ! j" by (auto simp: in_set_conv_nth)
    show "page_heap ?s1 q \<noteq> None"
    proof (cases "j = i")
      case True
      then have "q \<in> set (pages t')" using e(2) j by (simp add: nth_with_storage uses_def)
      then have "q = ?c \<or> q \<in> set (pages t)" using t' set_update_subset_insert [of "pages t" pn ?c] by auto
      then show ?thesis using in_heap by (auto simp: heap1)
    next
      case False
      then have "es ! j \<in> set es" "uses q (es ! j)" using e(2) j by (simp_all add: nth_with_storage)
      then show ?thesis using heap_okD(5) [OF ok1] by blast
    qed
  qed
  have ok3: "heap_ok ?es s'"
    unfolding s' using users(1) [of ?p] users(2) [of ?p] heap_okD(2) [OF ok pg] shared
    by (intro heap_ok_prot [THEN iffD2] heap_ok_with_count [OF ok2]) (auto simp: page_ok_def)
  have heap': "page_heap s' q = (if q = ?c then Some \<lparr>address = ?a, ref_count = 1\<rparr>
      else if q = ?p then Some (pg\<lparr>ref_count := ref_count pg - 1\<rparr>) else page_heap s q)" for q
    using pg pc by (simp add: s' with_count_def heap1)
  then show "page_heap s' ?c = Some \<lparr>address = ?a, ref_count = 1\<rparr>" by simp
  have bytes: "page_bytes s' q = (if q = ?c then page_bytes s ?p else page_bytes s q)" for q
    by (simp add: s' page_bytes_with_page [OF ok])
  have size: "page_size s' = page_size s" by (simp add: s' with_count_def with_page_def Let_def)
  show "others_same es i s s'"
    unfolding others_same_def
  proof (intro allI impI)
    fix j u k
    assume j: "j < length es" "j \<noteq> i" "pair_tls (es ! j) = Some u" "k < length (pages u) * page_size s"
    have "pages u ! (k div page_size s) \<in> set (pages u)" using pages_index [OF j(4)] by simp
    then obtain qg where "page_heap s (pages u ! (k div page_size s)) = Some qg" using any_page [OF ok j(1,3)] by metis
    then have "pages u ! (k div page_size s) \<noteq> ?c" using fresh_page [OF ok] by auto
    then show "tls_byte s' u k = tls_byte s u k" by (simp add: tls_byte_def size bytes)
  qed
  show "\<forall>k < length (pages t) * page_size s. tls_byte s' t' k = tls_byte s t k"
  proof (intro allI impI)
    fix k assume k: "k < length (pages t) * page_size s"
    then have lt: "k div page_size s < length (pages t)" by (rule pages_index)
    then have "pages t ! (k div page_size s) \<noteq> ?c" using cnew nth_mem by metis
    then show "tls_byte s' t' k = tls_byte s t k"
      using lt pn by (auto simp: tls_byte_def size bytes t' nth_list_update)
  qed
  have set': "set (pages t') = insert ?c (set (pages t) - {?p})"
    using workingD(4) [OF w] pn by (simp add: t' set_update_distinct)
  have addr: "address qg \<noteq> ?a \<and> address qg \<noteq> address pg" if "page_heap s q = Some qg" "q \<noteq> ?p" for q qg
    using heap_okD(2) [OF ok that(1)] heap_okD(3) [OF ok that(1) pg] that(2) fresh_address [OF ok] by (auto simp: page_ok_def)
  have "address pg \<noteq> ?a" using heap_okD(2) [OF ok pg] fresh_address [OF ok] by (auto simp: page_ok_def)
  then have prot': "prot s' b = (if b = address pg then PROT_NONE else if b = ?a then PROT_WRITE else prot s b)" for b
    by (simp add: s')
  show "working ?es i t' s'"
    unfolding working_def
  proof (intro conjI ballI allI impI)
    show "heap_ok ?es s'" "i < length ?es" "distinct (pages t')"
      using ok3 workingD(2,4) [OF w] cnew by (simp_all add: t' distinct_list_update)
    show "pair_tls (?es ! i) = Some t'" using workingD(2) [OF w] by (simp add: nth_with_storage)
  next
    fix q qg assume q: "q \<in> set (pages t')" "page_heap s' q = Some qg"
    consider "qg = \<lparr>address = ?a, ref_count = 1\<rparr>" | "q \<in> set (pages t)" "q \<noteq> ?p" "page_heap s q = Some qg"
      using q set' heap' [of q] by (metis DiffE insertE option.inject singletonI)
    note qcases = this
    show "prot s' (address qg) \<noteq> PROT_NONE"
    proof (cases rule: qcases)
      case 1
      then show ?thesis using \<open>address pg \<noteq> ?a\<close> by (simp add: prot')
    next
      case 2
      then show ?thesis using addr [OF 2(3,2)] workingD(5) [OF w 2(1,3)] by (simp add: prot')
    qed
    assume "1 < ref_count qg"
    then show "prot s' (address qg) = PROT_READ_WRITE"
      using addr [of q qg] workingD(6) [OF w, of q qg] by (cases rule: qcases) (simp_all add: prot')
  next
    fix b assume b: "b \<notin> page_addresses s' (pages t')"
    have "?c \<in> set (pages t')" using set' by blast
    then have "?a \<in> page_addresses s' (pages t')" using heap' [of ?c] unfolding page_addresses_def by force
    then have "b \<noteq> ?a" using b by auto
    moreover have "b \<notin> page_addresses s (pages t)" if "b \<noteq> address pg"
    proof
      assume "b \<in> page_addresses s (pages t)"
      then obtain q qg where q: "q \<in> set (pages t)" "page_heap s q = Some qg" "b = address qg"
        by (auto simp: page_addresses_def)
      then have "q \<noteq> ?p" "q \<noteq> ?c" using that pg cnew by auto
      then have "q \<in> set (pages t')" "page_heap s' q = Some qg" using q(1,2) set' heap' [of q] by simp_all
      then show False using b q(3) unfolding page_addresses_def by blast
    qed
    ultimately show "prot s' b = PROT_NONE" using workingD(7) [OF w, of b] by (auto simp: prot')
  qed
qed

section \<open>Writing a range\<close>

lemma with_storage_same: "pair_tls (es ! i) = Some t \<Longrightarrow> with_storage es i t = es"
proof -
  assume "pair_tls (es ! i) = Some t"
  then have "(es ! i)\<lparr>pair_tls := Some t\<rparr> = es ! i" by simp
  then show ?thesis by (simp add: with_storage_def)
qed

lemma others_same_trans:
  assumes "others_same es i s s1" "others_same (with_storage es i t) i s1 s2" "page_size s1 = page_size s"
  shows "others_same es i s s2"
  using assms unfolding others_same_def by (simp add: nth_with_storage)

definition same_shape :: "thread_local_storage \<Rightarrow> thread_local_storage \<Rightarrow> bool" where
  "same_shape t t' \<longleftrightarrow> tls_size t' = tls_size t \<and> page_num t' = page_num t \<and> length (pages t') = length (pages t)"

text \<open>What a write of \<open>bs\<close> at \<open>idx\<close> does to the storage and to the rest.\<close>

definition wrote_bytes ::
  "tid_tls_pair list \<Rightarrow> nat \<Rightarrow> nat \<Rightarrow> u8 list \<Rightarrow> thread_local_storage \<Rightarrow> tls_state \<Rightarrow> thread_local_storage \<Rightarrow> tls_state \<Rightarrow> bool" where
  "wrote_bytes es i idx bs t s t' s' \<longleftrightarrow> working (with_storage es i t') i t' s' \<and> same_tables s s' \<and> same_shape t t' \<and>
     others_same es i s s' \<and>
     (\<forall>k < length (pages t) * page_size s. tls_byte s' t' k =
        (if idx \<le> k \<and> k < idx + length bs then bs ! (k - idx) else tls_byte s t k))"

lemma write_byte_ok:
  assumes w: "working es i t s" and idx: "idx < length (pages t) * page_size s"
  shows "\<exists>t' s'. write_byte t idx b s = Some (t', s') \<and> wrote_bytes es i idx [b] t s t' s'"
proof -
  let ?pn = "idx div page_size s" and ?po = "idx mod page_size s"
  have pn: "?pn < length (pages t)" using idx by (rule pages_index)
  have po: "?po < page_size s" using heap_okD(1) [OF workingD(1) [OF w]] by simp
  obtain pg where pg: "page_heap s (pages t ! ?pn) = Some pg" "page_ok es s (pages t ! ?pn) pg"
    using own_page [OF w nth_mem [OF pn]] .
  have at: "page_at t idx s = Some (?pn, pages t ! ?pn, pg)" using pn pg(1) by (simp add: page_at_def Let_def)
  have range: "idx \<le> k \<and> k < idx + 1 \<longleftrightarrow> k = idx" for k by auto
  show ?thesis
  proof (cases "1 < ref_count pg")
    case False
    then obtain s' where s': "store (address pg) ?po b s = Some s'" "working es i t s'" "same_tables s s'" "others_same es i s s'"
      "\<forall>k < length (pages t) * page_size s. tls_byte s' t k = (if k = idx then b else tls_byte s t k)"
      using store_own [OF w pn pg(1) _ po, of b] by (auto simp: div_mult_mod_eq)
    then have "write_byte t idx b s = Some (t, s')" using at False by (simp add: write_byte_def)
    moreover have "wrote_bytes es i idx [b] t s t s'"
      using s' with_storage_same [OF workingD(3) [OF w]] by (simp add: wrote_bytes_def same_shape_def range)
    ultimately show ?thesis by blast
  next
    case True
    define t1 where "t1 = t\<lparr>pages := (pages t)[?pn := next_page s]\<rparr>"
    define s1 where "s1 = (with_count (pages t ! ?pn) (ref_count pg - 1) (with_page PROT_WRITE (page_bytes s (pages t ! ?pn)) s))
      \<lparr>prot := ((prot s)(next_map s * page_size s := PROT_WRITE))(address pg := PROT_NONE)\<rparr>"
    note C = copy_own [OF w pn pg(1) True t1_def s1_def]
    have "prot s (address pg) = PROT_READ_WRITE" using workingD(6) [OF w nth_mem [OF pn] pg(1) True] .
    then have cp: "copy_page t ?pn (pages t ! ?pn) pg s = Some (t1, next_map s * page_size s, s1)"
      using copy_page_eq [OF workingD(1) [OF w] pg(1)] by (simp add: t1_def s1_def)
    have tab: "same_tables s s1" by (simp add: same_tables_def s1_def with_count_def with_page_def Let_def)
    then have ps: "page_size s1 = page_size s" by (simp add: same_tables_def)
    have len: "length (pages t1) = length (pages t)" by (simp add: t1_def)
    have pn1: "?pn < length (pages t1)" using pn len by simp
    have "pages t1 ! ?pn = next_page s" using pn by (simp add: t1_def)
    then have pg1: "page_heap s1 (pages t1 ! ?pn) = Some \<lparr>address = next_map s * page_size s, ref_count = 1\<rparr>" using C(3) by simp
    obtain s2 where s2: "store (next_map s * page_size s) ?po b s1 = Some s2" "working (with_storage es i t1) i t1 s2"
      "same_tables s1 s2" "others_same (with_storage es i t1) i s1 s2"
      "\<forall>k < length (pages t) * page_size s. tls_byte s2 t1 k = (if k = idx then b else tls_byte s1 t1 k)"
      using store_own [OF C(1) pn1 pg1, of ?po b] po ps len by (auto simp: div_mult_mod_eq)
    have "write_byte t idx b s = Some (t1, s2)" using at True cp s2(1) by (simp add: write_byte_def)
    moreover have "wrote_bytes es i idx [b] t s t1 s2"
      using s2 C(4) others_same_trans [OF C(2) s2(4) ps] same_tables_trans [OF tab s2(3)]
      by (simp add: wrote_bytes_def same_shape_def range) (simp add: t1_def)
    ultimately show ?thesis by blast
  qed
qed

lemma wrote_bytes_append:
  assumes "wrote_bytes es i idx xs t s t1 s1" "wrote_bytes (with_storage es i t1) i (idx + length xs) ys t1 s1 t2 s2"
  shows "wrote_bytes es i idx (xs @ ys) t s t2 s2"
proof -
  have ps: "page_size s1 = page_size s" "length (pages t1) = length (pages t)"
    using assms(1) by (simp_all add: wrote_bytes_def same_tables_def same_shape_def)
  have "tls_byte s2 t2 k = (if idx \<le> k \<and> k < idx + length (xs @ ys) then (xs @ ys) ! (k - idx) else tls_byte s t k)"
    if "k < length (pages t) * page_size s" for k
  proof -
    have "tls_byte s2 t2 k = (if idx + length xs \<le> k \<and> k < idx + length xs + length ys then ys ! (k - (idx + length xs))
        else tls_byte s1 t1 k)"
      using assms(2) that by (simp add: wrote_bytes_def ps)
    moreover have "tls_byte s1 t1 k = (if idx \<le> k \<and> k < idx + length xs then xs ! (k - idx) else tls_byte s t k)"
      using assms(1) that by (simp add: wrote_bytes_def)
    ultimately show ?thesis by (auto simp: nth_append)
  qed
  then show ?thesis
    using assms others_same_trans [of es i s s1 t1 s2] ps
    by (simp add: wrote_bytes_def same_shape_def) (metis same_tables_trans)
qed

lemma write_loop_ok:
  assumes "working es i t s" "idx + length bs \<le> length (pages t) * page_size s"
  shows "\<exists>t' s'. write_loop t idx bs s = Some (t', s') \<and> wrote_bytes es i idx bs t s t' s'"
  using assms
proof (induction bs arbitrary: es t idx s)
  case Nil
  then have "wrote_bytes es i idx [] t s t s"
    using with_storage_same [OF workingD(3) [OF Nil.prems(1)]]
    by (auto simp: wrote_bytes_def same_tables_def same_shape_def others_same_def)
  then show ?case by simp
next
  case (Cons b bs)
  have "idx < length (pages t) * page_size s" using Cons.prems(2) by simp
  then obtain t1 s1 where 1: "write_byte t idx b s = Some (t1, s1)" "wrote_bytes es i idx [b] t s t1 s1"
    using write_byte_ok [OF Cons.prems(1)] by blast
  then have w1: "working (with_storage es i t1) i t1 s1"
    and fits: "Suc idx + length bs \<le> length (pages t1) * page_size s1"
    using Cons.prems(2) by (simp_all add: wrote_bytes_def same_shape_def same_tables_def)
  obtain t' s' where 2: "write_loop t1 (Suc idx) bs s1 = Some (t', s')"
    "wrote_bytes (with_storage es i t1) i (Suc idx) bs t1 s1 t' s'"
    using Cons.IH [OF w1 fits] by blast
  then have "wrote_bytes es i idx ([b] @ bs) t s t' s'" using wrote_bytes_append [OF 1(2)] by simp
  then show ?case using 1(1) 2(1) by simp
qed

end
