(* ===== verification/TLS_Ops.thy ===== *)
theory TLS_Ops
  imports TLS_Write
begin

text \<open>
  The operations of \<^verbatim>\<open>tls.c\<close> as operations on the abstract state \<open>storages\<close>: each thread has a list
  of bytes of its own, and sharing of pages cannot be observed.
\<close>

section \<open>Reading and writing\<close>

lemma tls_invD:
  assumes "tls_inv s" "initialize s"
  shows "slots_ok (page_size s) (tid_tls_pairs s)" "heap_ok (tid_tls_pairs s) s" "prot s a = PROT_NONE"
    "page_size s < 2 ^ 32"
  using assms by (simp_all add: tls_inv_def)

lemma found_initialized:
  assumes "tls_inv s" "find_tls tid s = Some (i, t)" "valid_tid tid"
  shows "initialize s"
proof (rule ccontr)
  assume "\<not> initialize s"
  then have s: "s = tls_start" using assms(1) by (simp add: tls_inv_def)
  have "pair_tls (tid_tls_pairs s ! i) = Some t" "i < length (tid_tls_pairs s)" using find_tlsD [OF assms(2)] by simp_all
  then show False by (simp add: s tls_start_def)
qed

text \<open>The bound of the loops when \<open>offset + length\<close> does not wrap.\<close>

lemma loop_count_fits:
  assumes "unat offset + unat len < 2 ^ 32" "int (unat offset + unat len) \<le> INT_MAX"
  shows "loop_count offset len = Some (unat len)" "unat (offset + len) = unat offset + unat len"
proof -
  show u: "unat (offset + len) = unat offset + unat len" using assms(1) by (intro unat_add_lem [THEN iffD1]) simp
  show "loop_count offset len = Some (unat len)" using assms(2) by (auto simp: loop_count_def u)
qed

text \<open>Making the pages of a storage accessible.\<close>

definition opened :: "thread_local_storage \<Rightarrow> tls_state \<Rightarrow> tls_state" where
  "opened t s = s\<lparr>prot := (\<lambda>a. if a \<in> page_addresses s (pages t) then PROT_READ_WRITE else PROT_NONE)\<rparr>"

lemma unprotect_all:
  assumes inv: "tls_inv s" "initialize s" and t: "find_tls tid s = Some (i, t)"
  shows "for_pages tls_unprotect (pages t) s = Some (opened t s)" "working (tid_tls_pairs s) i t (opened t s)"
proof -
  note I = tls_invD [OF inv] and F = find_tlsD [OF t]
  have heap: "\<exists>pg. page_heap s p = Some pg \<and> mapped s (address pg) \<noteq> None" if p: "p \<in> set (pages t)" for p
  proof -
    obtain pg where "page_heap s p = Some pg" using any_page [OF I(2) F(1,3) p] .
    then show ?thesis using heap_okD(2) [OF I(2)] by (auto simp: page_ok_def)
  qed
  have unp: "tls_unprotect = set_prot PROT_READ_WRITE" by (simp add: fun_eq_iff tls_unprotect_def)
  have "for_pages (set_prot PROT_READ_WRITE) (pages t) s =
      Some (s\<lparr>prot := (\<lambda>a. if a \<in> page_addresses s (pages t) then PROT_READ_WRITE else prot s a)\<rparr>)"
    using heap by (rule for_pages_set_prot)
  then show "for_pages tls_unprotect (pages t) s = Some (opened t s)"
    by (simp add: unp opened_def I(3) cong: if_cong)
  have "distinct (pages t)" using find_tls_valid(2) [OF I(1) t] by (simp add: storage_ok_def)
  moreover have "address pg \<in> page_addresses s (pages t)" if "p \<in> set (pages t)" "page_heap s p = Some pg" for p pg
    using that by (auto simp: page_addresses_def)
  ultimately show "working (tid_tls_pairs s) i t (opened t s)"
    using I(2) F(1,3) by (auto simp: working_def opened_def page_addresses_def)
qed

lemma protect_all:
  assumes w: "working es i t s"
  shows "for_pages tls_protect (pages t) s = Some (s\<lparr>prot := (\<lambda>a. PROT_NONE)\<rparr>)"
proof -
  have heap: "\<exists>pg. page_heap s p = Some pg \<and> mapped s (address pg) \<noteq> None" if p: "p \<in> set (pages t)" for p
    by (rule own_page [OF w p]) (auto simp: page_ok_def)
  have "tls_protect = set_prot PROT_NONE" by (simp add: fun_eq_iff tls_protect_def)
  moreover have "for_pages (set_prot PROT_NONE) (pages t) s =
      Some (s\<lparr>prot := (\<lambda>a. if a \<in> page_addresses s (pages t) then PROT_NONE else prot s a)\<rparr>)"
    using heap by (rule for_pages_set_prot)
  moreover have "(\<lambda>a. if a \<in> page_addresses s (pages t) then PROT_NONE else prot s a) = (\<lambda>a. PROT_NONE)"
    using workingD(7) [OF w] by auto
  ultimately show ?thesis by simp
qed

lemma storage_lt:
  assumes "storage_ok (page_size s) t" "k < unat (tls_size t)"
  shows "k < length (pages t) * page_size s"
  using assms unfolding storage_ok_def by linarith

lemma read_loop_ok:
  assumes w: "working es i t s" and rw: "\<And>a. a \<in> page_addresses s (pages t) \<Longrightarrow> prot s a = PROT_READ_WRITE"
    and idx: "idx + n \<le> length (pages t) * page_size s"
  shows "read_loop t idx n s = Some (map (tls_byte s t) [idx..<idx + n])"
  using idx
proof (induction n arbitrary: idx)
  case (Suc n)
  let ?pn = "idx div page_size s"
  have pn: "?pn < length (pages t)" using Suc.prems by (intro pages_index) simp
  obtain pg where pg: "page_heap s (pages t ! ?pn) = Some pg" "page_ok es s (pages t ! ?pn) pg"
    using own_page [OF w nth_mem [OF pn]] .
  obtain bs where bs: "mapped s (address pg) = Some bs" "length bs = page_size s" using pg(2) by (auto simp: page_ok_def)
  have "idx mod page_size s < page_size s" using heap_okD(1) [OF workingD(1) [OF w]] by simp
  moreover have "prot s (address pg) = PROT_READ_WRITE" using rw pg(1) pn by (force simp: page_addresses_def)
  ultimately have "load (address pg) (idx mod page_size s) s = Some (tls_byte s t idx)"
    using bs pg(1) by (simp add: load_def tls_byte_def page_bytes_def)
  moreover have "page_at t idx s = Some (?pn, pages t ! ?pn, pg)" using pn pg(1) by (simp add: page_at_def Let_def)
  moreover have "[idx..<idx + Suc n] = idx # [Suc idx..<Suc idx + n]" by (simp add: upt_conv_Cons del: upt_Suc)
  ultimately show ?case using Suc.IH [of "Suc idx"] Suc.prems by simp
qed simp

lemma slice_map_upt: "k + n \<le> m \<Longrightarrow> map f [k..<k + n] = take n (drop k (map f [0..<m]))"
  by (simp add: drop_map take_map)

lemma tls_read_ok:
  assumes inv: "tls_inv s" "initialize s" and t: "find_tls tid s = Some (i, t)"
    and fits: "unat offset + unat len \<le> unat (tls_size t)" "int (unat offset + unat len) \<le> INT_MAX"
  shows "tls_read tid offset len s = Some (0, take (unat len) (drop (unat offset) (storage s t)), s)"
proof -
  let ?s1 = "opened t s"
  have sz: "unat (tls_size t) < 2 ^ 32" using unsigned_less [of "tls_size t"] by simp
  have "unat offset + unat len < 2 ^ 32" using fits(1) sz by linarith
  note L = loop_count_fits [OF this fits(2)]
  note U = unprotect_all [OF inv t]
  have ok: "storage_ok (page_size s) t" using find_tls_valid(2) [OF tls_invD(1) [OF inv] t] .
  then have "unat offset + unat len \<le> length (pages t) * page_size s" using fits(1) unfolding storage_ok_def by linarith
  then have "read_loop t (unat offset) (unat len) ?s1 = Some (map (tls_byte ?s1 t) [unat offset..<unat offset + unat len])"
    by (intro read_loop_ok [OF U(2)]) (simp_all add: opened_def page_addresses_def)
  moreover have "map (tls_byte ?s1 t) [unat offset..<unat offset + unat len] = take (unat len) (drop (unat offset) (storage s t))"
    using slice_map_upt [OF fits(1)] by (simp add: opened_def storage_def)
  moreover have "for_pages tls_protect (pages t) ?s1 = Some s"
    using protect_all [OF U(2)] tls_invD(3) [OF inv] by (simp add: opened_def fun_eq_iff tls_state.equality)
  moreover have "\<not> offset + len > tls_size t" using L(2) fits(1) by (simp add: word_less_nat_alt not_less)
  ultimately show ?thesis using t L(1) U(1) by (simp add: tls_read_def)
qed

section \<open>One slot changes\<close>

lemma find_tls_iff:
  assumes "slots_ok ps (tid_tls_pairs s)"
  shows "find_tls tid s = Some (i, t) \<longleftrightarrow>
    i < length (tid_tls_pairs s) \<and> pair_tid (tid_tls_pairs s ! i) = tid \<and> pair_tls (tid_tls_pairs s ! i) = Some t"
  using find_tlsD [of tid s i t] find_tlsI [OF assms, of i t] by blast

text \<open>
  Slot \<open>i\<close>, which was free or belonged to the thread \<open>tid\<close>, gets new contents; the bytes of the other
  storages are unchanged.  Then exactly the storage of \<open>tid\<close> changes.
\<close>

lemma storages_update:
  assumes slots: "slots_ok ps (tid_tls_pairs s)" "slots_ok ps (tid_tls_pairs s')"
    and es': "tid_tls_pairs s' = (tid_tls_pairs s)[i := e]" and i: "i < length (tid_tls_pairs s)"
    and own: "pair_tid (tid_tls_pairs s ! i) = tid \<or> pair_tls (tid_tls_pairs s ! i) = None \<and> find_tls tid s = None"
    and e: "pair_tls e = None \<or> pair_tid e = tid"
    and others: "\<And>j u. j < length (tid_tls_pairs s) \<Longrightarrow> j \<noteq> i \<Longrightarrow> pair_tls (tid_tls_pairs s ! j) = Some u \<Longrightarrow>
      storage s' u = storage s u"
  shows "storages s' = (storages s)(tid := map_option (storage s') (pair_tls e))"
proof (rule ext)
  fix x
  let ?es = "tid_tls_pairs s"
  have iff: "find_tls x s' = Some (j, u) \<longleftrightarrow> j < length ?es \<and>
      (if j = i then pair_tid e = x \<and> pair_tls e = Some u else pair_tid (?es ! j) = x \<and> pair_tls (?es ! j) = Some u)" for j u
    using find_tls_iff [OF slots(2)] i by (auto simp: es')
  show "storages s' x = ((storages s)(tid := map_option (storage s') (pair_tls e))) x"
  proof (cases "x = tid")
    case True
    have "find_tls tid s' = map_option (Pair i) (pair_tls e)"
    proof (cases "pair_tls e")
      case None
      have "find_tls tid s' \<noteq> Some (j, u)" for j u
      proof
        assume "find_tls tid s' = Some (j, u)"
        then have j: "j < length ?es" "j \<noteq> i" "pair_tid (?es ! j) = tid" "pair_tls (?es ! j) = Some u"
          using iff [of j u] None True by (auto split: if_splits)
        then have "find_tls tid s = Some (j, u)" using find_tls_iff [OF slots(1)] by blast
        then have "pair_tid (?es ! i) = tid" "valid_tid tid" using own find_tls_valid(1) [OF slots(1)] by auto
        then show False using slots(1) j i unfolding slots_ok_def by metis
      qed
      then show ?thesis using None by (cases "find_tls tid s'") auto
    next
      case (Some u)
      then show ?thesis using iff [of i u] e i True by auto
    qed
    then show ?thesis using True by (cases "pair_tls e") (simp_all add: storages_def)
  next
    case False
    have "find_tls x s' = Some (j, u) \<longleftrightarrow> find_tls x s = Some (j, u)" for j u
      using iff [of j u] find_tls_iff [OF slots(1), of x j u] own e False by auto
    then have same: "find_tls x s' = find_tls x s" by (metis not_Some_eq surj_pair)
    show ?thesis
    proof (cases "find_tls x s")
      case None
      then show ?thesis using False same by (simp add: storages_def)
    next
      case (Some ju)
      then obtain j u where ju: "find_tls x s = Some (j, u)" by (metis surj_pair)
      then have "j < length ?es" "pair_tid (?es ! j) = x" "pair_tls (?es ! j) = Some u" using find_tlsD by blast+
      moreover from this have "j \<noteq> i" using own False by auto
      ultimately have "storage s' u = storage s u" using others [of j u] by blast
      then show ?thesis using False same ju by (simp add: storages_def)
    qed
  qed
qed

lemma slots_ok_update:
  assumes "slots_ok ps es" "i < length es" "slot_ok ps e"
    "\<And>j. j < length es \<Longrightarrow> j \<noteq> i \<Longrightarrow> valid_tid (pair_tid e) \<Longrightarrow> pair_tid (es ! j) \<noteq> pair_tid e"
  shows "slots_ok ps (es[i := e])"
  unfolding slots_ok_def
proof (intro conjI allI impI)
  show "length (es[i := e]) = MAX_THREAD_COUNT" "list_all (slot_ok ps) (es[i := e])"
    using assms(1-3) by (auto simp: slots_ok_def list_all_length nth_list_update)
next
  fix j k
  assume jk: "j < length (es[i := e])" "k < length (es[i := e])"
    "pair_tid (es[i := e] ! j) = pair_tid (es[i := e] ! k) \<and> valid_tid (pair_tid (es[i := e] ! j))"
  then show "j = k"
    using assms(1,2) assms(4) [of j] assms(4) [of k] unfolding slots_ok_def
    by (cases "j = i"; cases "k = i") (auto simp: nth_list_update)
qed

lemma others_storage:
  assumes "others_same es i s s'" "slots_ok (page_size s) es" "j < length es" "j \<noteq> i" "pair_tls (es ! j) = Some u"
  shows "storage s' u = storage s u"
proof (rule storage_cong)
  fix k assume k: "k < unat (tls_size u)"
  have "slot_ok (page_size s) (es ! j)" using assms(2,3) by (simp add: slots_ok_def list_all_length)
  then have "storage_ok (page_size s) u" using assms(5) by (simp add: slot_ok_def)
  then have "k < length (pages u) * page_size s" using storage_lt k by blast
  then show "tls_byte s' u k = tls_byte s u k" using assms(1,3,4,5) by (simp add: others_same_def)
qed simp

lemma storage_frame [simp]: "storage (s\<lparr>prot := f\<rparr>) = storage s" "storage (s\<lparr>tid_tls_pairs := es\<rparr>) = storage s"
  by (simp_all add: fun_eq_iff storage_def)

lemma tls_write_ok:
  assumes inv: "tls_inv s" "initialize s" and t: "find_tls tid s = Some (i, t)"
    and fits: "unat offset + unat len \<le> unat (tls_size t)" "int (unat offset + unat len) \<le> INT_MAX" "unat len \<le> length buf"
  shows "\<exists>s'. tls_write tid offset len buf s = Some (0, s') \<and> tls_inv s' \<and> initialize s' \<and>
    map pair_tid (tid_tls_pairs s') = map pair_tid (tid_tls_pairs s) \<and>
    storages s' = (storages s)(tid \<mapsto> memcpy_at (unat offset) (take (unat len) buf) (storage s t))"
proof -
  let ?es = "tid_tls_pairs s" and ?data = "take (unat len) buf" and ?s1 = "opened t s"
  note I = tls_invD [OF inv] and F = find_tlsD [OF t] and U = unprotect_all [OF inv t]
  have sz: "unat (tls_size t) < 2 ^ 32" using unsigned_less [of "tls_size t"] by simp
  have "unat offset + unat len < 2 ^ 32" using fits(1) sz by linarith
  note L = loop_count_fits [OF this fits(2)]
  have ok: "storage_ok (page_size s) t" and v: "valid_tid tid" using find_tls_valid [OF I(1) t] by simp_all
  have "unat offset + unat len \<le> length (pages t) * page_size s" using fits(1) ok unfolding storage_ok_def by linarith
  then have "unat offset + length ?data \<le> length (pages t) * page_size ?s1" using fits(3) by (simp add: opened_def)
  then obtain t' s2 where W: "write_loop t (unat offset) ?data ?s1 = Some (t', s2)"
    "wrote_bytes ?es i (unat offset) ?data t ?s1 t' s2"
    using write_loop_ok [OF U(2)] by blast
  then have w2: "working (with_storage ?es i t') i t' s2" and tab: "same_tables ?s1 s2" and sh: "same_shape t t'"
    and oth: "others_same ?es i ?s1 s2"
    and bytes: "\<forall>k < length (pages t) * page_size s. tls_byte s2 t' k =
      (if unat offset \<le> k \<and> k < unat offset + length ?data then ?data ! (k - unat offset) else tls_byte s t k)"
    by (simp_all add: wrote_bytes_def opened_def)
  let ?s3 = "s2\<lparr>prot := (\<lambda>a. PROT_NONE)\<rparr>" let ?e = "\<lparr>pair_tid = tid, pair_tls = Some t'\<rparr>"
  let ?s4 = "set_slot i tid (Some t') ?s3"
  have tab2: "tid_tls_pairs s2 = ?es" "page_size s2 = page_size s" "initialize s2"
    using tab inv(2) by (simp_all add: same_tables_def opened_def)
  have es': "tid_tls_pairs ?s4 = ?es[i := ?e]" by (simp add: set_slot_def tab2)
  have "(?es ! i)\<lparr>pair_tls := Some t'\<rparr> = ?e" using F(2) by (intro tid_tls_pair.equality) simp_all
  then have ws: "with_storage ?es i t' = ?es[i := ?e]" by (simp add: with_storage_def)
  have "distinct (pages t')" using workingD(4) [OF w2] .
  then have ok': "storage_ok (page_size s) t'" using ok sh by (auto simp: storage_ok_def same_shape_def)
  have slots': "slots_ok (page_size s) (tid_tls_pairs ?s4)"
    unfolding es'
  proof (rule slots_ok_update [OF I(1) F(1)])
    show "slot_ok (page_size s) ?e" using ok' v by (simp add: slot_ok_def)
    show "pair_tid (?es ! j) \<noteq> pair_tid ?e" if "j < length ?es" "j \<noteq> i" "valid_tid (pair_tid ?e)" for j
      using I(1) F(1,2) that unfolding slots_ok_def by auto
  qed
  have "heap_ok (tid_tls_pairs ?s4) ?s4"
    using workingD(1) [OF w2] unfolding es' ws [symmetric] by (simp add: set_slot_def)
  then have inv': "tls_inv ?s4"
    using slots' tab2 I(4) by (simp add: tls_inv_def) (simp add: set_slot_def tab2)
  have "storages ?s4 = (storages s)(tid := map_option (storage ?s4) (pair_tls ?e))"
  proof (rule storages_update [OF I(1) slots' es' F(1)])
    fix j u assume j: "j < length ?es" "j \<noteq> i" "pair_tls (?es ! j) = Some u"
    have "storage s2 u = storage ?s1 u" using others_storage [OF oth _ j] I(1) by (simp add: opened_def)
    then show "storage ?s4 u = storage s u" by (simp add: set_slot_def opened_def)
  qed (use F(2) in simp_all)
  moreover have "storage ?s4 t' = memcpy_at (unat offset) ?data (storage s t)"
  proof (rule nth_equalityI)
    show "length (storage ?s4 t') = length (memcpy_at (unat offset) ?data (storage s t))"
      using fits(1) sh by (simp add: same_shape_def)
  next
    fix k assume "k < length (storage ?s4 t')"
    then have k: "k < unat (tls_size t)" using sh by (simp add: same_shape_def)
    then show "storage ?s4 t' ! k = memcpy_at (unat offset) ?data (storage s t) ! k"
      using bytes storage_lt [OF ok k] fits(1) sh
      by (simp add: set_slot_def nth_memcpy_at) (simp add: storage_def same_shape_def)
  qed
  moreover have "tls_write tid offset len buf s = Some (0, ?s4)"
    using t L U(1) W(1) protect_all [OF w2] fits(1,3) by (simp add: tls_write_def word_less_nat_alt not_less)
  moreover have "initialize ?s4" by (simp add: set_slot_def tab2)
  moreover have "map pair_tid (tid_tls_pairs ?s4) = map pair_tid ?es" using F(2) by (intro nth_equalityI) (simp_all add: es' attr_list_update [where g = pair_tid])
  ultimately show ?thesis using inv' by (intro exI [of _ ?s4]) simp
qed

end
