(* ===== verification/TLS_Slots.thy ===== *)
theory TLS_Slots
  imports TLS_Ops
begin

text \<open>
  Creating, cloning and destroying a storage: the operations of \<^verbatim>\<open>tls.c\<close> that change which thread
  owns a storage and how many storages refer to a page.
\<close>

section \<open>Creating\<close>

lemma new_page_step:
  "new_pages (Suc n) s =
     (let s1 = with_page PROT_NONE (replicate (page_size s) 0) s
      in (next_page s # fst (new_pages n s1), snd (new_pages n s1)))"
  by (simp add: mmap_page_def alloc_page_def with_page_def Let_def split: prod.split)

definition zero_page :: "tls_state \<Rightarrow> nat \<Rightarrow> bool" where
  "zero_page s p \<longleftrightarrow> page_bytes s p = replicate (page_size s) 0 \<and> (\<exists>pg. page_heap s p = Some pg \<and> ref_count pg = 1)"

lemma new_pages_ok:
  assumes "heap_ok es s" "new_pages n s = (pgs, s')"
  shows "heap_ok es s' \<and> pgs = [next_page s..<next_page s + n] \<and> same_tables s s' \<and>
    (\<forall>p \<in> set pgs. zero_page s' p) \<and> (\<forall>q < next_page s. page_heap s' q = page_heap s q \<and> page_bytes s' q = page_bytes s q) \<and>
    ((\<forall>a. prot s a = PROT_NONE) \<longrightarrow> (\<forall>a. prot s' a = PROT_NONE))"
  using assms
proof (induction n arbitrary: s pgs s')
  case 0
  then show ?case by (simp add: same_tables_def)
next
  case (Suc n)
  let ?s1 = "with_page PROT_NONE (replicate (page_size s) 0) s"
  obtain ps s2 where rec: "new_pages n ?s1 = (ps, s2)" by (metis surj_pair)
  then have eq: "pgs = next_page s # ps" "s' = s2" using Suc.prems(2) new_page_step [of n s] by (simp_all add: Let_def)
  have ok1: "heap_ok es ?s1" using heap_ok_with_page [OF Suc.prems(1)] by simp
  have f1: "next_page ?s1 = Suc (next_page s)" "page_size ?s1 = page_size s"
    "page_heap ?s1 (next_page s) = Some \<lparr>address = next_map s * page_size s, ref_count = 1\<rparr>"
    "\<And>q. q \<noteq> next_page s \<Longrightarrow> page_heap ?s1 q = page_heap s q"
    "\<forall>a. prot s a = PROT_NONE \<Longrightarrow> \<forall>a. prot ?s1 a = PROT_NONE" "same_tables s ?s1"
    by (simp_all add: with_page_def Let_def same_tables_def)
  note bytes1 = page_bytes_with_page [OF Suc.prems(1), of PROT_NONE "replicate (page_size s) 0"]
  note IH = Suc.IH [OF ok1 rec]
  then have size: "page_size s2 = page_size s" using f1(2) by (simp add: same_tables_def)
  have first: "zero_page s2 (next_page s)" using IH f1(1,3) bytes1 size by (simp add: zero_page_def)
  have list: "pgs = [next_page s..<next_page s + Suc n]"
    using IH f1(1) eq by (simp add: upt_conv_Cons del: upt_Suc)
  have old: "page_heap s2 q = page_heap s q \<and> page_bytes s2 q = page_bytes s q" if "q < next_page s" for q
    using IH f1(1,4) that bytes1 by simp
  have "same_tables s s2" using IH f1(6) same_tables_trans by blast
  then show ?case using IH eq first list old f1(5) by auto
qed

lemma pages_needed:
  assumes "sz \<noteq> 0" "0 < ps" "ps < 2 ^ 32" "num = (sz - 1) div of_nat ps + (1 :: u32)"
  shows "unat sz \<le> unat num * ps"
proof -
  have ups: "unat (of_nat ps :: u32) = ps" using assms(3) by (simp add: unat_of_nat)
  have usz: "0 < unat sz" "unat sz < 2 ^ 32" using assms(1) unsigned_less [of sz] by (simp_all add: unat_gt_0)
  have "1 \<le> sz" using assms(1) by (simp add: word_le_nat_alt Suc_le_eq usz)
  then have "unat (sz - 1) = unat sz - 1" by (simp add: unat_sub)
  then have d: "unat ((sz - 1) div of_nat ps) = (unat sz - 1) div ps" by (simp add: unat_div_distrib ups)
  have "(unat sz - 1) div ps + 1 < 2 ^ 32" using div_le_dividend [of "unat sz - 1" ps] usz by linarith
  then have "unat ((sz - 1) div of_nat ps) + unat (1 :: u32) < 2 ^ LENGTH(32)" by (simp add: d)
  then have "unat num = (unat sz - 1) div ps + 1" using unat_add_lem [of "(sz - 1) div of_nat ps" 1] assms(4) d by simp
  moreover have "unat sz - 1 < ((unat sz - 1) div ps + 1) * ps"
    using assms(2) dividend_less_div_times [of ps "unat sz - 1"] by simp
  ultimately show ?thesis using usz(1) by simp
qed

lemma slot_user_counts:
  assumes "i < length es" "pair_tls (es ! i) = None" "pair_tls e = Some t"
  shows "used_count (uses p) (es[i := e]) = used_count (uses p) es + (if p \<in> set (pages t) then 1 else 0)"
  using used_count_update [OF assms(1), of "uses p" e] assms(2,3) by (simp add: uses_def)

text \<open>Giving a free slot a storage whose pages have a reference to spare.\<close>

lemma heap_ok_fill:
  assumes ok: "heap_ok es s" and i: "i < length es" "pair_tls (es ! i) = None" and e: "pair_tls e = Some t"
    and spare: "\<And>p. p \<in> set (pages t) \<Longrightarrow> \<exists>pg. page_heap s p = Some pg \<and> int (used_count (uses p) es) + 1 \<le> ref_count pg"
  shows "heap_ok (es[i := e]) s"
proof (rule heap_ok_change_slots [OF ok])
  fix p pg assume "page_heap s p = Some pg"
  then show "int (used_count (uses p) (es[i := e])) \<le> ref_count pg"
    using heap_okD(2) [OF ok] spare [of p] slot_user_counts [OF i e, of p] by (auto simp: page_ok_def)
next
  fix x p assume "x \<in> set (es[i := e])" "uses p x"
  then have "x \<in> set es \<or> p \<in> set (pages t)" using e set_update_subset_insert [of es i e] by (auto simp: uses_def)
  then show "page_heap s p \<noteq> None" using heap_okD(5) [OF ok _ \<open>uses p x\<close>] spare by auto
qed

definition free_slots :: "tls_state \<Rightarrow> nat" where
  "free_slots s = used_count (owner (-1)) (tid_tls_pairs s)"

lemma free_slot:
  assumes "slots_ok ps (tid_tls_pairs s)" "find_slot (owner (-1)) (tid_tls_pairs s) = Some i"
  shows "i < length (tid_tls_pairs s)" "pair_tid (tid_tls_pairs s ! i) = -1" "pair_tls (tid_tls_pairs s ! i) = None"
proof -
  show i: "i < length (tid_tls_pairs s)" "pair_tid (tid_tls_pairs s ! i) = -1"
    using find_slot_lt [OF assms(2)] find_slot_hit [OF assms(2)] by (simp_all add: owner_def)
  then have "slot_ok ps (tid_tls_pairs s ! i)" using assms(1) by (simp add: slots_ok_def list_all_length)
  then show "pair_tls (tid_tls_pairs s ! i) = None"
    using i(2) by (auto simp: slot_ok_def valid_tid_def split: option.splits)
qed

lemma no_owner: "find_slot (owner tid) es = None \<Longrightarrow> j < length es \<Longrightarrow> pair_tid (es ! j) \<noteq> tid"
  using nth_mem [of j es] by (auto simp: find_slot_None_iff owner_def)

lemma no_storage_no_owner:
  assumes "slots_ok ps (tid_tls_pairs s)" "valid_tid tid"
  shows "find_slot (owner tid) (tid_tls_pairs s) = None \<longleftrightarrow> find_tls tid s = None"
proof
  assume none: "find_tls tid s = None"
  show "find_slot (owner tid) (tid_tls_pairs s) = None"
  proof (rule ccontr)
    assume "find_slot (owner tid) (tid_tls_pairs s) \<noteq> None"
    then obtain i where i: "find_slot (owner tid) (tid_tls_pairs s) = Some i" by auto
    have "slot_ok ps (tid_tls_pairs s ! i)" "pair_tid (tid_tls_pairs s ! i) = tid"
      using assms(1) find_slot_lt [OF i] find_slot_hit [OF i] by (simp_all add: slots_ok_def list_all_length owner_def)
    then show False using none i assms(2) by (auto simp: find_tls_def slot_ok_def split: option.splits)
  qed
qed (simp add: find_tls_def)

text \<open>A thread without a storage takes a free slot.\<close>

lemma take_slot:
  assumes slots: "slots_ok (page_size s) (tid_tls_pairs s)" and tid: "valid_tid tid" "find_tls tid s = None"
    and i: "find_slot (owner (-1)) (tid_tls_pairs s) = Some i" and t: "storage_ok (page_size s) t"
    and s': "tid_tls_pairs s' = tid_tls_pairs s"
  shows "slots_ok (page_size s) (tid_tls_pairs (set_slot i tid (Some t) s'))"
proof -
  note free = free_slot [OF slots i]
  have "find_slot (owner tid) (tid_tls_pairs s) = None" using no_storage_no_owner [OF slots tid(1)] tid(2) by blast
  then have "pair_tid (tid_tls_pairs s ! j) \<noteq> tid" if "j < length (tid_tls_pairs s)" for j using no_owner that by blast
  then show ?thesis
    using s' tid(1) t slots_ok_update [OF slots free(1), of "\<lparr>pair_tid = tid, pair_tls = Some t\<rparr>"]
    by (simp add: set_slot_def slot_ok_def)
qed

lemma fill_slot:
  assumes inv: "tls_inv s" "initialize s" and tab: "same_tables s s1" and ok: "heap_ok (tid_tls_pairs s) s1"
    and prot: "\<forall>a. prot s1 a = PROT_NONE" and tid: "valid_tid tid" "find_tls tid s = None"
    and i: "find_slot (owner (-1)) (tid_tls_pairs s) = Some i" and t: "storage_ok (page_size s) t"
    and spare: "\<And>p. p \<in> set (pages t) \<Longrightarrow>
      \<exists>pg. page_heap s1 p = Some pg \<and> int (used_count (uses p) (tid_tls_pairs s)) + 1 \<le> ref_count pg"
    and others: "\<And>j u. j < length (tid_tls_pairs s) \<Longrightarrow> pair_tls (tid_tls_pairs s ! j) = Some u \<Longrightarrow> storage s1 u = storage s u"
  shows "tls_inv (set_slot i tid (Some t) s1)"
    "storages (set_slot i tid (Some t) s1) = (storages s)(tid \<mapsto> storage s1 t)"
proof -
  let ?s = "set_slot i tid (Some t) s1" and ?e = "\<lparr>pair_tid = tid, pair_tls = Some t\<rparr>"
  note I = tls_invD [OF inv] note free = free_slot [OF I(1) i]
  have T: "tid_tls_pairs s1 = tid_tls_pairs s" "page_size s1 = page_size s" "initialize s1"
    using tab inv(2) by (simp_all add: same_tables_def)
  have es: "tid_tls_pairs ?s = (tid_tls_pairs s)[i := ?e]" by (simp add: set_slot_def T)
  have slots: "slots_ok (page_size s) (tid_tls_pairs ?s)" using take_slot [OF I(1) tid i t T(1)] .
  have "heap_ok ((tid_tls_pairs s)[i := ?e]) s1" by (rule heap_ok_fill [OF ok free(1,3) _ spare]) simp_all
  then have "heap_ok (tid_tls_pairs ?s) ?s" unfolding es by (simp add: set_slot_def)
  then show "tls_inv ?s" using slots prot T I(4) by (simp add: tls_inv_def) (simp add: set_slot_def T)
  have "storages ?s = (storages s)(tid := map_option (storage ?s) (pair_tls ?e))"
  proof (rule storages_update [OF I(1) slots es free(1)])
    fix j u assume "j < length (tid_tls_pairs s)" "j \<noteq> i" "pair_tls (tid_tls_pairs s ! j) = Some u"
    then show "storage ?s u = storage s u" using others by (simp add: set_slot_def)
  qed (use free(3) tid(2) in simp_all)
  then show "storages ?s = (storages s)(tid \<mapsto> storage s1 t)" by (simp add: set_slot_def)
qed

definition valid_page_size :: "nat \<Rightarrow> bool" where
  "valid_page_size ps \<longleftrightarrow> 0 < ps \<and> ps < 2 ^ 32"

definition ready :: "nat \<Rightarrow> tls_state \<Rightarrow> tls_state" where
  "ready ps s = (if \<not> initialize s then tls_init ps s else s)"

lemma ready_inv:
  assumes "tls_inv s" "valid_page_size ps"
  shows "tls_inv (ready ps s)" "initialize (ready ps s)" "storages (ready ps s) = storages s"
proof -
  have "tls_inv (tls_init ps tls_start)"
    using assms(2)
    by (auto simp: tls_inv_def tls_init_def tls_start_def slots_ok_def slot_ok_def valid_tid_def heap_ok_def list_all_length
        valid_page_size_def uses_def)
  moreover have "storages (tls_init ps tls_start) = storages tls_start"
  proof (rule ext)
    fix tid
    have "pair_tls e = None" if "e \<in> set (tid_tls_pairs (tls_init ps tls_start)) \<or> e \<in> set (tid_tls_pairs tls_start)" for e
      using that by (auto simp: tls_init_def tls_start_def)
    then have "find_tls tid (tls_init ps tls_start) = None" "find_tls tid tls_start = None"
      by (auto simp: find_tls_def split: option.split dest!: find_slot_lt)
    then show "storages (tls_init ps tls_start) tid = storages tls_start tid" by (simp add: storages_def)
  qed
  ultimately show "tls_inv (ready ps s)" "initialize (ready ps s)" "storages (ready ps s) = storages s"
    using assms(1) by (auto simp: ready_def tls_inv_def tls_init_def split: if_splits)
qed

lemma uses_in_heap:
  assumes "heap_ok es s" "j < length es" "pair_tls (es ! j) = Some u" "q \<in> set (pages u)"
  shows "q < next_page s"
  using any_page [OF assms] heap_okD(2) [OF assms(1)] by (metis page_ok_def)

lemma storage_same_pages:
  assumes "page_size s' = page_size s" "storage_ok (page_size s) u" "\<And>q. q \<in> set (pages u) \<Longrightarrow> page_bytes s' q = page_bytes s q"
  shows "storage s' u = storage s u"
proof (rule storage_cong)
  fix k assume "k < unat (tls_size u)"
  then have "pages u ! (k div page_size s) \<in> set (pages u)" using page_index_lt [OF assms(2)] by simp
  then show "tls_byte s' u k = tls_byte s u k" using assms(1,3) by (simp add: tls_byte_def)
qed simp

lemma slot_storage_ok:
  assumes "slots_ok ps es" "j < length es" "pair_tls (es ! j) = Some u"
  shows "storage_ok ps u"
  using assms by (auto simp: slots_ok_def list_all_length slot_ok_def split: option.splits)

lemma tls_create_ok:
  assumes inv: "tls_inv s0" and ps: "valid_page_size ps" and tid: "valid_tid tid" "storages s0 tid = None" and sz: "sz \<noteq> 0"
    and i: "find_slot (owner (-1)) (tid_tls_pairs (ready ps s0)) = Some i"
  shows "\<exists>s'. tls_create ps tid sz s0 = Some (0, s') \<and> tls_inv s' \<and>
    storages s' = (storages s0)(tid \<mapsto> replicate (unat sz) 0)"
proof -
  let ?s = "ready ps s0" let ?num = "(sz - 1) div of_nat (page_size ?s) + 1 :: u32"
  note R = ready_inv [OF inv ps] note I = tls_invD [OF R(1,2)]
  have "storages ?s tid = None" using tid(2) R(3) by simp
  then have none: "find_tls tid ?s = None" by (simp add: storages_def)
  obtain pgs s1 where new: "new_pages (unat ?num) ?s = (pgs, s1)" by (metis surj_pair)
  note N = new_pages_ok [OF I(2) new]
  let ?t = "\<lparr>tls_tid = tid, tls_size = sz, page_num = ?num, pages = pgs\<rparr>"
  have t: "storage_ok (page_size ?s) ?t"
    using N pages_needed [OF sz heap_okD(1) [OF I(2)] I(4) refl] by (simp add: storage_ok_def)
  have old: "storage s1 u = storage ?s u" if "j < length (tid_tls_pairs ?s)" "pair_tls (tid_tls_pairs ?s ! j) = Some u" for j u
    using N uses_in_heap [OF I(2) that] slot_storage_ok [OF I(1) that]
    by (intro storage_same_pages) (auto simp: same_tables_def)
  have unused: "used_count (uses p) (tid_tls_pairs ?s) = 0" if "next_page ?s \<le> p" for p
  proof -
    have "\<not> uses p e" if e: "e \<in> set (tid_tls_pairs ?s)" for e
    proof
      assume "uses p e"
      then obtain pg where "page_heap ?s p = Some pg" using heap_okD(5) [OF I(2) e] by blast
      then have "p < next_page ?s" using heap_okD(2) [OF I(2)] by (simp add: page_ok_def)
      then show False using \<open>next_page ?s \<le> p\<close> by simp
    qed
    then show ?thesis by (simp add: used_count_def filter_empty_conv)
  qed
  have spare: "\<exists>pg. page_heap s1 p = Some pg \<and> int (used_count (uses p) (tid_tls_pairs ?s)) + 1 \<le> ref_count pg"
    if "p \<in> set (pages ?t)" for p
  proof -
    have "zero_page s1 p" "next_page ?s \<le> p" using that N by auto
    then show ?thesis using unused by (auto simp: zero_page_def)
  qed
  have tab: "same_tables ?s s1" and ok1: "heap_ok (tid_tls_pairs ?s) s1" and pr: "\<forall>a. prot s1 a = PROT_NONE"
    using N I(3) by auto
  note fill = fill_slot [OF R(1,2) tab ok1 pr tid(1) none i t spare old]
  have "storage s1 ?t = replicate (unat sz) 0"
  proof (rule nth_equalityI)
    fix k assume "k < length (storage s1 ?t)"
    then have k: "k < unat (tls_size ?t)" "k < unat sz" by simp_all
    have "zero_page s1 (pgs ! (k div page_size ?s))" using page_index_lt [OF t k(1)] N by simp
    moreover have "k mod page_size ?s < page_size ?s" using heap_okD(1) [OF I(2)] by simp
    ultimately show "storage s1 ?t ! k = replicate (unat sz) 0 ! k"
      using k(2) N by (simp add: storage_def tls_byte_def zero_page_def same_tables_def)
  qed simp
  moreover have "find_slot (owner tid) (tid_tls_pairs ?s) = None" using no_storage_no_owner [OF I(1) tid(1)] none by blast
  then have "tls_create ps tid sz s0 = Some (0, set_slot i tid (Some ?t) s1)"
    using sz i new by (simp add: tls_create_def ready_def [symmetric] Let_def)
  ultimately show ?thesis using fill R(3) by auto
qed

section \<open>Cloning\<close>

definition bump :: "nat set \<Rightarrow> tls_state \<Rightarrow> tls_state" where
  "bump A s = s\<lparr>page_heap := (\<lambda>p. if p \<in> A then map_option (\<lambda>pg. pg\<lparr>ref_count := ref_count pg + 1\<rparr>) (page_heap s p)
     else page_heap s p)\<rparr>"

lemma share_all:
  assumes "distinct ps" "\<And>p. p \<in> set ps \<Longrightarrow> \<exists>pg. page_heap s p = Some pg \<and> ref_count pg \<noteq> INT_MAX"
  shows "for_pages share_page ps s = Some (bump (set ps) s)"
  using assms
proof (induction ps arbitrary: s)
  case Nil
  then show ?case by (simp add: bump_def)
next
  case (Cons p ps)
  obtain pg where pg: "page_heap s p = Some pg" "ref_count pg \<noteq> INT_MAX" using Cons.prems(2) [of p] by auto
  let ?s = "s\<lparr>page_heap := (page_heap s)(p \<mapsto> pg\<lparr>ref_count := ref_count pg + 1\<rparr>)\<rparr>"
  have "for_pages share_page ps ?s = Some (bump (set ps) ?s)"
    using Cons.prems by (intro Cons.IH) auto
  moreover have "bump (set ps) ?s = bump (set (p # ps)) s"
    using pg(1) Cons.prems(1) by (auto simp: bump_def fun_eq_iff intro!: tls_state.equality)
  ultimately show ?case using pg by (simp add: share_page_def [of p s])
qed

lemma for_pages_share_cases:
  assumes "distinct ps" "\<And>p. p \<in> set ps \<Longrightarrow> page_heap s p \<noteq> None" "for_pages share_page ps s = Some s1"
  shows "s1 = bump (set ps) s"
proof -
  have "\<exists>pg. page_heap s p = Some pg \<and> ref_count pg \<noteq> INT_MAX" if "p \<in> set ps" for p
    using assms that
  proof (induction ps arbitrary: s)
    case (Cons q qs)
    then obtain qg where qg: "page_heap s q = Some qg" by (metis list.set_intros(1) not_None_eq)
    let ?s = "s\<lparr>page_heap := (page_heap s)(q \<mapsto> qg\<lparr>ref_count := ref_count qg + 1\<rparr>)\<rparr>"
    have step: "ref_count qg \<noteq> INT_MAX" "for_pages share_page qs ?s = Some s1"
      using Cons.prems(3) qg by (auto simp: share_page_def [of q s] split: if_splits)
    show ?case
    proof (cases "p = q")
      case False
      then have "\<exists>pg. page_heap ?s p = Some pg \<and> ref_count pg \<noteq> INT_MAX"
        using Cons.prems step(2) by (intro Cons.IH) auto
      then show ?thesis using False by simp
    qed (use qg step(1) in simp)
  qed simp
  then show ?thesis using share_all [OF assms(1)] assms(3) by simp
qed

lemma page_bytes_bump [simp]: "page_bytes (bump A s) p = page_bytes s p"
  by (auto simp: page_bytes_def bump_def split: option.split)

lemma heap_ok_bump:
  assumes "heap_ok es s"
  shows "heap_ok es (bump A s)"
proof -
  have heap: "\<exists>pg'. page_heap s p = Some pg' \<and> address pg = address pg' \<and> ref_count pg' \<le> ref_count pg"
    if "page_heap (bump A s) p = Some pg" for p pg
    using that by (auto simp: bump_def split: if_splits)
  have "page_ok es (bump A s) p pg" if "page_heap (bump A s) p = Some pg" for p pg
    using heap [OF that] heap_okD(2) [OF assms, of p] by (fastforce simp: page_ok_def bump_def)
  moreover have "p = p'" if "page_heap (bump A s) p = Some pg" "page_heap (bump A s) p' = Some pg'" "address pg = address pg'"
    for p p' pg pg'
    using heap [OF that(1)] heap [OF that(2)] that(3) heap_okD(3) [OF assms] by metis
  moreover have "page_heap (bump A s) p \<noteq> None" if "e \<in> set es" "uses p e" for e p
    using heap_okD(5) [OF assms that] by (auto simp: bump_def)
  moreover have "0 < page_size (bump A s)" using heap_okD(1) [OF assms] by (simp add: bump_def)
  moreover have "\<exists>k < next_map (bump A s). a = k * page_size (bump A s)" if "mapped (bump A s) a \<noteq> None" for a
    using heap_okD(4) [OF assms, of a] that by (simp add: bump_def)
  ultimately show ?thesis unfolding heap_ok_def by (intro conjI allI impI ballI) blast+
qed

lemma tls_clone_eq:
  assumes inv: "tls_inv s" "initialize s" and self: "find_tls self s = None" and t: "find_tls tid s = Some (j, t)"
  shows "tls_clone self tid s = None \<or> tls_clone self tid s =
    Some (0, case find_slot (owner (-1)) (tid_tls_pairs s) of
      None \<Rightarrow> bump (set (pages t)) s
    | Some i \<Rightarrow> set_slot i self (Some (t\<lparr>tls_tid := self\<rparr>)) (bump (set (pages t)) s))"
proof -
  note I = tls_invD [OF inv] and F = find_tlsD [OF t]
  have "distinct (pages t)" using find_tls_valid(2) [OF I(1) t] by (simp add: storage_ok_def)
  moreover have "page_heap s p \<noteq> None" if "p \<in> set (pages t)" for p
    using any_page [OF I(2) F(1,3) that] by (metis option.distinct(1))
  ultimately have "for_pages share_page (pages t) s = Some s1 \<Longrightarrow> s1 = bump (set (pages t)) s" for s1
    using for_pages_share_cases by blast
  moreover have "tid_tls_pairs (bump A s) = tid_tls_pairs s" for A by (simp add: bump_def)
  moreover have new: "\<lparr>tls_tid = self, tls_size = tls_size t, page_num = page_num t, pages = pages t\<rparr> = t\<lparr>tls_tid := self\<rparr>"
    by (intro thread_local_storage.equality) simp_all
  ultimately show ?thesis
    unfolding tls_clone_def using self t by (auto simp only: new split: option.splits) (auto split: option.splits)
qed

lemma tls_clone_ok:
  assumes inv: "tls_inv s" "initialize s" and self: "valid_tid self" "find_tls self s = None" and t: "find_tls tid s = Some (j, t)"
    and i: "find_slot (owner (-1)) (tid_tls_pairs s) = Some i"
    and s': "s' = set_slot i self (Some (t\<lparr>tls_tid := self\<rparr>)) (bump (set (pages t)) s)"
  shows "tls_inv s'" "storages s' = (storages s)(self \<mapsto> storage s t)"
proof -
  note I = tls_invD [OF inv] and F = find_tlsD [OF t]
  let ?s1 = "bump (set (pages t)) s" and ?t = "t\<lparr>tls_tid := self\<rparr>"
  have tab: "same_tables s ?s1" by (simp add: same_tables_def bump_def)
  have st: "storage_ok (page_size s) ?t" using find_tls_valid(2) [OF I(1) t] by (auto simp: storage_ok_def)
  have pr: "\<forall>a. prot ?s1 a = PROT_NONE" using I(3) by (simp add: bump_def)
  have spare: "\<exists>pg. page_heap ?s1 p = Some pg \<and> int (used_count (uses p) (tid_tls_pairs s)) + 1 \<le> ref_count pg"
    if p: "p \<in> set (pages ?t)" for p
  proof -
    obtain pg where "page_heap s p = Some pg" using any_page [OF I(2) F(1,3)] p by auto
    then show ?thesis using heap_okD(2) [OF I(2)] p by (auto simp: bump_def page_ok_def)
  qed
  have byte: "storage ?s1 u = storage s u" for u
    by (simp add: storage_def tls_byte_def) (simp add: bump_def)
  note fill = fill_slot [OF inv tab heap_ok_bump [OF I(2)] pr self i st spare byte]
  show "tls_inv s'" using fill(1) by (simp add: s')
  have "storage ?s1 ?t = storage s t" using byte by (simp add: storage_def tls_byte_def)
  then show "storages s' = (storages s)(self \<mapsto> storage s t)" using fill(2) by (simp add: s')
qed

lemma bump_inv:
  assumes "tls_inv s" "initialize s"
  shows "tls_inv (bump A s)" "storages (bump A s) = storages s"
proof -
  note I = tls_invD [OF assms]
  have pr: "tid_tls_pairs (bump A s) = tid_tls_pairs s" "page_size (bump A s) = page_size s" "prot (bump A s) = prot s"
    "initialize (bump A s) = initialize s"
    by (simp_all add: bump_def)
  then show "tls_inv (bump A s)" using I heap_ok_bump [OF I(2), of A] assms(2) by (simp add: tls_inv_def)
  have "storage (bump A s) u = storage s u" for u by (simp add: storage_def tls_byte_def pr)
  moreover have "find_tls x (bump A s) = find_tls x s" for x by (simp add: find_tls_def pr split: option.split)
  ultimately show "storages (bump A s) = storages s" by (simp add: fun_eq_iff storages_def)
qed

section \<open>Destroying\<close>

lemma users_drop:
  assumes "i < length es" "p \<notin> set rest"
  shows "used_count (uses q) (with_storage es i (t\<lparr>pages := p # rest\<rparr>)) =
    used_count (uses q) (with_storage es i (t\<lparr>pages := rest\<rparr>)) + (if q = p then 1 else 0)"
proof -
  let ?es = "with_storage es i (t\<lparr>pages := rest\<rparr>)" and ?e = "(es ! i)\<lparr>pair_tls := Some (t\<lparr>pages := p # rest\<rparr>)\<rparr>"
  have eq: "with_storage es i (t\<lparr>pages := p # rest\<rparr>) = ?es[i := ?e]" by (simp add: with_storage_def)
  have "used_count (uses q) (?es[i := ?e]) + (if uses q (?es ! i) then 1 else 0) =
      used_count (uses q) ?es + (if uses q ?e then 1 else 0)"
    using assms(1) by (intro used_count_update) simp
  moreover have "uses q (?es ! i) \<longleftrightarrow> q \<in> set rest" "uses q ?e \<longleftrightarrow> q = p \<or> q \<in> set rest"
    using assms(1) by (auto simp: nth_with_storage uses_def)
  ultimately show ?thesis using assms(2) unfolding eq by (auto split: if_splits)
qed

lemma uses_shrink:
  assumes "e \<in> set (with_storage es i (t\<lparr>pages := rest\<rparr>))" "i < length es" "uses q e"
  shows "\<exists>e' \<in> set (with_storage es i (t\<lparr>pages := p # rest\<rparr>)). uses q e'"
proof -
  obtain j where j: "j < length es" "e = with_storage es i (t\<lparr>pages := rest\<rparr>) ! j"
    using assms(1) by (auto simp: in_set_conv_nth)
  then have "uses q (with_storage es i (t\<lparr>pages := p # rest\<rparr>) ! j)"
    using assms(3) by (auto simp: nth_with_storage uses_def split: if_splits)
  then show ?thesis using j(1) by (metis length_with_storage nth_mem)
qed

lemma heap_ok_unmap:
  assumes ok: "heap_ok es s" and pg: "page_heap s p = Some pg" and none: "used_count (uses p) es = 0"
  shows "heap_ok es (s\<lparr>mapped := (mapped s)(address pg := None), page_heap := (page_heap s)(p := None)\<rparr>)" (is "heap_ok es ?s")
proof -
  have ne: "address qg \<noteq> address pg" if "page_heap s q = Some qg" "q \<noteq> p" for q qg
    using heap_okD(3) [OF ok that(1) pg] that(2) by auto
  have nu: "\<not> uses p e" if "e \<in> set es" for e using none that by (auto simp: used_count_def filter_empty_conv)
  show ?thesis
    unfolding heap_ok_def
  proof (intro conjI allI impI ballI)
    show "0 < page_size ?s" using heap_okD(1) [OF ok] by simp
  next
    fix q qg assume "page_heap ?s q = Some qg"
    then show "page_ok es ?s q qg"
      using heap_okD(2) [OF ok, of q qg] ne [of q qg] by (auto simp: page_ok_def split: if_splits)
  next
    fix q q' qg qg'
    assume "page_heap ?s q = Some qg \<and> page_heap ?s q' = Some qg' \<and> address qg = address qg'"
    then show "q = q'" using heap_okD(3) [OF ok, of q qg q' qg'] by (auto split: if_splits)
  next
    fix a assume "mapped ?s a \<noteq> None"
    then have "mapped s a \<noteq> None" by (auto split: if_splits)
    then show "\<exists>k < next_map ?s. a = k * page_size ?s" using heap_okD(4) [OF ok, of a] by simp
  next
    fix e q assume e: "e \<in> set es" "uses q e"
    then show "page_heap ?s q \<noteq> None" using heap_okD(5) [OF ok e] nu [OF e(1)] by auto
  qed
qed

definition kept :: "tid_tls_pair list \<Rightarrow> nat \<Rightarrow> tls_state \<Rightarrow> tls_state \<Rightarrow> bool" where
  "kept es i s s' \<longleftrightarrow> same_tables s s' \<and> prot s' = prot s \<and>
     (\<forall>j < length es. j \<noteq> i \<longrightarrow> (\<forall>q. uses q (es ! j) \<longrightarrow> page_bytes s' q = page_bytes s q))"

lemma drop_page_ok:
  assumes ok: "heap_ok (with_storage es i (t\<lparr>pages := p # rest\<rparr>)) s" and i: "i < length es" and d: "p \<notin> set rest"
  shows "\<exists>s'. drop_page p s = Some s' \<and> heap_ok (with_storage es i (t\<lparr>pages := rest\<rparr>)) s' \<and> kept es i s s'"
proof -
  let ?es1 = "with_storage es i (t\<lparr>pages := p # rest\<rparr>)" and ?es = "with_storage es i (t\<lparr>pages := rest\<rparr>)"
  have "i < length ?es1" using i by simp
  then have e1: "?es1 ! i \<in> set ?es1" by (rule nth_mem)
  have e2: "uses p (?es1 ! i)" using i by (simp add: nth_with_storage uses_def)
  obtain pg where pg: "page_heap s p = Some pg" using heap_okD(5) [OF ok e1 e2] by blast
  note P = heap_okD(2) [OF ok pg]
  have users: "used_count (uses q) ?es1 = used_count (uses q) ?es + (if q = p then 1 else 0)" for q using users_drop [OF i d] .
  have ok': "heap_ok ?es s"
  proof (rule heap_ok_change_slots [OF ok])
    fix q qg assume "page_heap s q = Some qg"
    then have "int (used_count (uses q) ?es1) \<le> ref_count qg" using heap_okD(2) [OF ok] by (simp add: page_ok_def)
    then show "int (used_count (uses q) ?es) \<le> ref_count qg" unfolding users [of q] by simp
  next
    fix e q assume "e \<in> set ?es" "uses q e"
    then obtain e' where "e' \<in> set ?es1" "uses q e'" using uses_shrink i by blast
    then show "page_heap s q \<noteq> None" using heap_okD(5) [OF ok] by blast
  qed
  show ?thesis
  proof (cases "ref_count pg = 1")
    case True
    let ?s = "s\<lparr>mapped := (mapped s)(address pg := None), page_heap := (page_heap s)(p := None)\<rparr>"
    have none: "used_count (uses p) ?es = 0" using P True users [of p] by (simp add: page_ok_def)
    have other: "page_bytes ?s q = page_bytes s q" if q: "uses q (es ! j)" "j < length es" "j \<noteq> i" for j q
    proof -
      have "j < length ?es" using q(2) by simp
      then have "?es ! j \<in> set ?es" by (rule nth_mem)
      moreover have "?es ! j = es ! j" using q(2,3) by (simp add: nth_with_storage)
      ultimately have "q \<noteq> p" using none q(1) by (auto simp: used_count_def filter_empty_conv)
      moreover have "address qg \<noteq> address pg" if "page_heap s q = Some qg" for qg
        using heap_okD(3) [OF ok that pg] \<open>q \<noteq> p\<close> by auto
      ultimately show ?thesis by (auto simp: page_bytes_def split: option.split)
    qed
    have "kept es i s ?s" using other by (simp add: kept_def same_tables_def)
    then show ?thesis using True pg heap_ok_unmap [OF ok' pg none] by (auto simp: drop_page_def)
  next
    case False
    let ?s = "with_count p (ref_count pg - 1) s"
    have "heap_ok ?es ?s" using P False users [of p] by (intro heap_ok_with_count [OF ok']) (auto simp: page_ok_def)
    moreover have "kept es i s ?s" by (simp add: kept_def same_tables_def) (simp add: with_count_def)
    moreover have "drop_page p s = Some ?s" using False pg by (simp add: drop_page_def with_count_def)
    ultimately show ?thesis by blast
  qed
qed

lemma drop_all_ok:
  assumes "heap_ok (with_storage es i (t\<lparr>pages := ps\<rparr>)) s" "i < length es" "distinct ps"
  shows "\<exists>s'. for_pages drop_page ps s = Some s' \<and> heap_ok (with_storage es i (t\<lparr>pages := []\<rparr>)) s' \<and> kept es i s s'"
  using assms
proof (induction ps arbitrary: s)
  case Nil
  then show ?case by (simp add: kept_def same_tables_def)
next
  case (Cons p ps)
  obtain s1 where s1: "drop_page p s = Some s1" "heap_ok (with_storage es i (t\<lparr>pages := ps\<rparr>)) s1" "kept es i s s1"
    using drop_page_ok [OF Cons.prems(1,2)] Cons.prems(3) by auto
  then obtain s2 where "for_pages drop_page ps s1 = Some s2" "heap_ok (with_storage es i (t\<lparr>pages := []\<rparr>)) s2" "kept es i s1 s2"
    using Cons.IH [OF s1(2)] Cons.prems by auto
  moreover from this have "kept es i s s2" using s1(3) by (simp add: kept_def same_tables_def)
  ultimately show ?case using s1(1) by simp
qed

lemma tls_destroy_ok:
  assumes inv: "tls_inv s" "initialize s" and t: "find_tls tid s = Some (i, t)"
  shows "\<exists>s'. tls_destroy tid s = Some (0, s') \<and> tls_inv s' \<and> initialize s' \<and> storages s' = (storages s)(tid := None) \<and>
    tid_tls_pairs s' = (tid_tls_pairs s)[i := \<lparr>pair_tid = 0, pair_tls = None\<rparr>]"
proof -
  let ?es = "tid_tls_pairs s" and ?e = "\<lparr>pair_tid = 0, pair_tls = None\<rparr>"
  note I = tls_invD [OF inv] and F = find_tlsD [OF t]
  have d: "distinct (pages t)" using find_tls_valid(2) [OF I(1) t] by (simp add: storage_ok_def)
  have "t\<lparr>pages := pages t\<rparr> = t" by simp
  then have "heap_ok (with_storage ?es i (t\<lparr>pages := pages t\<rparr>)) s" using with_storage_same [OF F(3)] I(2) by simp
  then obtain s1 where s1: "for_pages drop_page (pages t) s = Some s1" "heap_ok (with_storage ?es i (t\<lparr>pages := []\<rparr>)) s1" "kept ?es i s s1"
    using drop_all_ok F(1) d by blast
  let ?s = "set_slot i 0 None s1"
  have T: "tid_tls_pairs s1 = ?es" "page_size s1 = page_size s" "initialize s1" "prot s1 = prot s"
    using s1(3) inv(2) by (simp_all add: kept_def same_tables_def)
  have es: "tid_tls_pairs ?s = ?es[i := ?e]" by (simp add: set_slot_def T)
  have slots: "slots_ok (page_size s) (tid_tls_pairs ?s)"
    unfolding es by (rule slots_ok_update [OF I(1) F(1)]) (simp_all add: slot_ok_def valid_tid_def)
  have users: "uses q (?es[i := ?e] ! j) = uses q (with_storage ?es i (t\<lparr>pages := []\<rparr>) ! j)" if "j < length ?es" for q j
    using that by (cases "j = i") (simp_all add: nth_with_storage uses_def)
  have "heap_ok (?es[i := ?e]) s1"
  proof (rule heap_ok_change_slots [OF s1(2)])
    fix q qg assume qg: "page_heap s1 q = Some qg"
    have "used_count (uses q) (?es[i := ?e]) = used_count (uses q) (with_storage ?es i (t\<lparr>pages := []\<rparr>))"
      using used_count_update [OF F(1), of "uses q" ?e] used_count_update [OF F(1), of "uses q" "(?es ! i)\<lparr>pair_tls := Some (t\<lparr>pages := []\<rparr>)\<rparr>"]
      by (simp add: with_storage_def uses_def)
    then show "int (used_count (uses q) (?es[i := ?e])) \<le> ref_count qg" using heap_okD(2) [OF s1(2) qg] by (simp add: page_ok_def)
  next
    fix e q assume "e \<in> set (?es[i := ?e])" "uses q e"
    then obtain j where "j < length ?es" "uses q (with_storage ?es i (t\<lparr>pages := []\<rparr>) ! j)"
      using users by (auto simp: in_set_conv_nth)
    then show "page_heap s1 q \<noteq> None" using heap_okD(5) [OF s1(2)] by (metis length_with_storage nth_mem option.distinct(1))
  qed
  then have "heap_ok (tid_tls_pairs ?s) ?s" unfolding es by (simp add: set_slot_def)
  then have "tls_inv ?s" using slots T I(3,4) by (simp add: tls_inv_def) (simp add: set_slot_def T)
  moreover have "storages ?s = (storages s)(tid := map_option (storage ?s) (pair_tls ?e))"
  proof (rule storages_update [OF I(1) slots es F(1)])
    fix j u assume j: "j < length ?es" "j \<noteq> i" "pair_tls (?es ! j) = Some u"
    then have "storage s1 u = storage s u"
      using s1(3) slot_storage_ok [OF I(1) j(1,3)] T(2) by (intro storage_same_pages) (auto simp: kept_def uses_def)
    then show "storage ?s u = storage s u" by (simp add: set_slot_def)
  qed (use F(2) in simp_all)
  moreover have "tls_destroy tid s = Some (0, ?s)" using t s1(1) by (simp add: tls_destroy_def)
  moreover have "initialize ?s" by (simp add: set_slot_def T)
  ultimately show ?thesis using es by simp
qed

end
