(* ===== verification/TLS_Props.thy ===== *)
theory TLS_Props
  imports TLS_Slots
begin

text \<open>
  The properties of the thread-local storage, and sequences of calls by several threads.  The
  identifiers of threads are neither 0 nor -1, the values the code uses for slots without an owner
  (\<open>valid_tid\<close>); the page size is positive and fits an \<open>unsigned int\<close>.
\<close>

section \<open>Calls\<close>

datatype tls_call =
    TLS_Create u64 u32 | TLS_Destroy u64 | TLS_Read u64 u32 u32 | TLS_Write u64 u32 u32 "u8 list" | TLS_Clone u64 u64

fun tls_call_step :: "nat \<Rightarrow> tls_call \<Rightarrow> tls_state \<Rightarrow> (int \<times> tls_state) option" where
  "tls_call_step ps (TLS_Create self sz) s = tls_create ps self sz s"
| "tls_call_step ps (TLS_Destroy self) s = tls_destroy self s"
| "tls_call_step ps (TLS_Read self offset len) s =
     (case tls_read self offset len s of None \<Rightarrow> None | Some (r, bs, s') \<Rightarrow> Some (r, s'))"
| "tls_call_step ps (TLS_Write self offset len buf) s = tls_write self offset len buf s"
| "tls_call_step ps (TLS_Clone self tid) s = tls_clone self tid s"

fun caller :: "tls_call \<Rightarrow> u64" where
  "caller (TLS_Create self _) = self"
| "caller (TLS_Destroy self) = self"
| "caller (TLS_Read self _ _) = self"
| "caller (TLS_Write self _ _ _) = self"
| "caller (TLS_Clone self _) = self"

section \<open>Every call keeps the invariant\<close>

text \<open>The number of slots that have ever been given to a thread.\<close>

definition slots_taken :: "tls_state \<Rightarrow> nat" where
  "slots_taken s = (if initialize s then used_count (\<lambda>e. \<not> owner (-1) e) (tid_tls_pairs s) else 0)"

lemma slots_taken_cong:
  assumes "map pair_tid (tid_tls_pairs s') = map pair_tid (tid_tls_pairs s)" "initialize s' = initialize s"
  shows "slots_taken s' = slots_taken s"
proof -
  have eq: "used_count (\<lambda>e. \<not> owner (-1) e) es = length (filter (\<lambda>x. x \<noteq> -1) (map pair_tid es))" for es
    by (simp add: used_count_def owner_def filter_map comp_def)
  show ?thesis by (simp only: slots_taken_def eq assms)
qed

lemma not_found_start: "find_tls tid tls_start = None"
  by (auto simp: find_tls_def tls_start_def split: option.split dest!: find_slot_lt)

lemma loop_count_cases:
  assumes "loop_count offset len = Some n" "offset + len \<le> sz"
  shows "n = 0 \<or> n = unat len \<and> unat offset + unat len \<le> unat sz \<and> int (unat offset + unat len) \<le> INT_MAX"
proof (cases "unat offset < unat (offset + len)")
  case True
  have "unat offset + unat len < 2 ^ 32"
  proof (rule ccontr)
    assume *: "\<not> unat offset + unat len < 2 ^ 32"
    have lt: "unat offset < 2 ^ 32" "unat len < 2 ^ 32" using unsigned_less [of offset] unsigned_less [of len] by simp_all
    then have "unat offset + unat len < 2 ^ 32 + 2 ^ 32" by simp
    then have "unat (offset + len) = unat offset + unat len - 2 ^ 32"
      using * by (simp add: unat_word_ariths mod_if)
    then show False using True lt * by simp
  qed
  then have u: "unat (offset + len) = unat offset + unat len" by (intro unat_add_lem [THEN iffD1]) simp
  then show ?thesis using assms True by (auto simp: loop_count_def word_le_nat_alt split: if_splits)
next
  case False
  then show ?thesis using assms(1) by (simp add: loop_count_def)
qed

lemma protect_again:
  assumes inv: "tls_inv s" "initialize s" and t: "find_tls tid s = Some (i, t)"
  shows "for_pages tls_protect (pages t) (opened t s) = Some s"
proof -
  have "(opened t s)\<lparr>prot := (\<lambda>a. PROT_NONE)\<rparr> = s"
    using tls_invD(3) [OF inv] by (intro tls_state.equality) (simp_all add: opened_def fun_eq_iff)
  then show ?thesis using protect_all [OF unprotect_all(2) [OF inv t]] by simp
qed

lemma same_slot: "find_tls tid s = Some (i, t) \<Longrightarrow> set_slot i tid (Some t) s = s"
proof -
  assume t: "find_tls tid s = Some (i, t)"
  have "\<lparr>pair_tid = tid, pair_tls = Some t\<rparr> = tid_tls_pairs s ! i"
    using find_tlsD(2,3) [OF t] by (intro tid_tls_pair.equality) simp_all
  then show ?thesis by (simp add: set_slot_def)
qed

lemma tls_write_inv:
  assumes inv: "tls_inv s" and wr: "tls_write tid offset len buf s = Some (r, s')"
  shows "tls_inv s' \<and> slots_taken s' = slots_taken s"
proof (cases "find_tls tid s")
  case None
  then show ?thesis using assms by (simp add: tls_write_def)
next
  case (Some it)
  then obtain i t where t: "find_tls tid s = Some (i, t)" by (metis surj_pair)
  have init: "initialize s"
  proof (rule ccontr)
    assume "\<not> initialize s"
    then have "s = tls_start" using inv by (simp add: tls_inv_def)
    then show False using t not_found_start by simp
  qed
  show ?thesis
  proof (cases "offset + len > tls_size t")
    case True
    then show ?thesis using wr t inv by (simp add: tls_write_def)
  next
    case False
    note U = unprotect_all [OF inv init t] and F = find_tlsD [OF t]
    obtain n where n: "loop_count offset len = Some n" "n \<le> length buf"
      using wr t False U(1) by (auto simp: tls_write_def split: option.splits if_splits)
    have "offset + len \<le> tls_size t" using False by simp
    from loop_count_cases [OF n(1) this] show ?thesis
    proof
      assume "n = 0"
      then have "tls_write tid offset len buf s = Some (0, s)"
        using t False U(1) n protect_again [OF inv init t] same_slot [OF t] by (simp add: tls_write_def)
      then show ?thesis using wr inv by simp
    next
      assume fits: "n = unat len \<and> unat offset + unat len \<le> unat (tls_size t) \<and> int (unat offset + unat len) \<le> INT_MAX"
      then obtain s2 where s2: "tls_write tid offset len buf s = Some (0, s2)" "tls_inv s2" "initialize s2"
        "map pair_tid (tid_tls_pairs s2) = map pair_tid (tid_tls_pairs s)"
        using tls_write_ok [OF inv init t, of offset len buf] n(2) by auto
      then show ?thesis using wr init slots_taken_cong [of s2 s] by simp
    qed
  qed
qed

lemma found_start: "tls_inv s \<Longrightarrow> find_tls tid s = Some (i, t) \<Longrightarrow> initialize s"
  using not_found_start by (auto simp: tls_inv_def split: if_splits)

lemma tls_read_inv:
  assumes inv: "tls_inv s" and rd: "tls_read tid offset len s = Some (r, bs, s')"
  shows "s' = s"
proof (cases "find_tls tid s")
  case None
  then show ?thesis using rd by (simp add: tls_read_def)
next
  case (Some it)
  then obtain i t where t: "find_tls tid s = Some (i, t)" by (metis surj_pair)
  have init: "initialize s" using found_start [OF inv t] .
  note U = unprotect_all [OF inv init t]
  note P = protect_again [OF inv init t]
  show ?thesis using rd t U(1) P by (auto simp: tls_read_def split: if_splits option.splits)
qed

lemma taken_fill:
  assumes "slots_ok ps (tid_tls_pairs s)" "find_slot (owner (-1)) (tid_tls_pairs s) = Some i" "valid_tid tid"
  shows "used_count (\<lambda>e. \<not> owner (-1) e) ((tid_tls_pairs s)[i := \<lparr>pair_tid = tid, pair_tls = x\<rparr>]) =
    Suc (used_count (\<lambda>e. \<not> owner (-1) e) (tid_tls_pairs s))"
  using used_count_update [OF free_slot(1) [OF assms(1,2)], of "\<lambda>e. \<not> owner (-1) e" "\<lparr>pair_tid = tid, pair_tls = x\<rparr>"]
    free_slot(2) [OF assms(1,2)] assms(3)
  by (simp add: owner_def valid_tid_def)

lemma ready_taken: "tls_inv s \<Longrightarrow> slots_taken (ready ps s) = slots_taken s"
  by (auto simp: slots_taken_def ready_def tls_init_def tls_inv_def tls_start_def used_count_def owner_def)

lemma tls_create_inv:
  assumes inv: "tls_inv s0" and ps: "valid_page_size ps" and tid: "valid_tid tid" and cr: "tls_create ps tid sz s0 = Some (r, s')"
  shows "tls_inv s' \<and> slots_taken s0 + (if r = 0 then 1 else 0) \<le> slots_taken s'"
proof -
  let ?s = "ready ps s0"
  note R = ready_inv [OF inv ps] note I = tls_invD [OF R(1,2)]
  show ?thesis
  proof (cases "sz = 0 \<or> find_slot (owner tid) (tid_tls_pairs ?s) \<noteq> None")
    case True
    then have "r = -1" "s' = ?s" using cr by (auto simp: tls_create_def ready_def [symmetric] Let_def split: if_splits)
    then show ?thesis using R(1) ready_taken [OF inv] by simp
  next
    case False
    then have "find_tls tid ?s = None" using no_storage_no_owner [OF I(1) tid] by auto
    then have none: "storages s0 tid = None" using R(3) by (metis option.map_disc_iff storages_def)
    obtain pgs s1 i where new: "find_slot (owner (-1)) (tid_tls_pairs ?s) = Some i"
      "new_pages (unat ((sz - 1) div of_nat (page_size ?s) + 1)) ?s = (pgs, s1)"
      "s' = set_slot i tid (Some \<lparr>tls_tid = tid, tls_size = sz, page_num = (sz - 1) div of_nat (page_size ?s) + 1, pages = pgs\<rparr>) s1"
      using cr False by (auto simp: tls_create_def ready_def [symmetric] Let_def split: option.splits prod.splits)
    have "tls_inv s'" using tls_create_ok [OF inv ps tid none _ new(1), of sz] False cr by auto
    moreover have T: "tid_tls_pairs s1 = tid_tls_pairs ?s" "initialize s1"
      using new_pages_ok [OF I(2) new(2)] R(2) by (simp_all add: same_tables_def)
    then have "slots_taken s' = Suc (slots_taken ?s)"
      using taken_fill [OF I(1) new(1) tid] R(2) by (simp add: slots_taken_def new(3) set_slot_def)
    ultimately show ?thesis using ready_taken [OF inv, of ps] by simp
  qed
qed

lemma tls_clone_inv:
  assumes inv: "tls_inv s" and self: "valid_tid self" and cl: "tls_clone self tid s = Some (r, s')"
  shows "tls_inv s' \<and> slots_taken s \<le> slots_taken s'"
proof (cases "find_tls self s = None \<and> find_tls tid s \<noteq> None")
  case False
  then show ?thesis using cl inv by (auto simp: tls_clone_def split: option.splits)
next
  case True
  then obtain j t where t: "find_tls tid s = Some (j, t)" by (metis not_None_eq surj_pair)
  have init: "initialize s" using found_start [OF inv t] .
  note I = tls_invD [OF inv init]
  have none: "find_tls self s = None" using True by simp
  note C = tls_clone_eq [OF inv init none t]
  show ?thesis
  proof (cases "find_slot (owner (-1)) (tid_tls_pairs s)")
    case None
    then have s': "s' = bump (set (pages t)) s" using C cl by auto
    then show ?thesis using bump_inv(1) [OF inv init] by (simp add: slots_taken_def) (simp add: bump_def)
  next
    case (Some i)
    then have s': "s' = set_slot i self (Some (t\<lparr>tls_tid := self\<rparr>)) (bump (set (pages t)) s)" using C cl by auto
    have "slots_taken s' = Suc (slots_taken s)"
      using taken_fill [OF I(1) Some self] init by (simp add: slots_taken_def s' set_slot_def bump_def)
    then show ?thesis using tls_clone_ok(1) [OF inv init self none t Some s'] by simp
  qed
qed

lemma tls_destroy_inv:
  assumes inv: "tls_inv s" and de: "tls_destroy tid s = Some (r, s')"
  shows "tls_inv s' \<and> slots_taken s \<le> slots_taken s'"
proof (cases "find_tls tid s")
  case None
  then show ?thesis using de inv by (simp add: tls_destroy_def)
next
  case (Some it)
  then obtain i t where t: "find_tls tid s = Some (i, t)" by (metis surj_pair)
  have init: "initialize s" using found_start [OF inv t] .
  obtain s2 where s2: "tls_destroy tid s = Some (0, s2)" "tls_inv s2" "initialize s2"
    "tid_tls_pairs s2 = (tid_tls_pairs s)[i := \<lparr>pair_tid = 0, pair_tls = None\<rparr>]"
    using tls_destroy_ok [OF inv init t] by blast
  have "used_count (\<lambda>e. \<not> owner (-1) e) (tid_tls_pairs s2) \<ge> used_count (\<lambda>e. \<not> owner (-1) e) (tid_tls_pairs s)"
    using used_count_update [OF find_tlsD(1) [OF t], of "\<lambda>e. \<not> owner (-1) e" "\<lparr>pair_tid = 0, pair_tls = None\<rparr>"]
    by (simp add: s2(4) owner_def split: if_splits)
  then show ?thesis using s2 de init by (simp add: slots_taken_def)
qed

definition tls_call_ok :: "nat \<Rightarrow> tls_call \<Rightarrow> bool" where
  "tls_call_ok ps c \<longleftrightarrow> valid_page_size ps \<and> valid_tid (caller c)"

definition tls_creates :: "tls_call \<Rightarrow> int \<Rightarrow> bool" where
  "tls_creates c r \<longleftrightarrow> (case c of TLS_Create _ _ \<Rightarrow> r = 0 | _ \<Rightarrow> False)"

lemma tls_call_inv:
  assumes "tls_inv s" "tls_call_ok ps c" "tls_call_step ps c s = Some (r, s')"
  shows "tls_inv s' \<and> slots_taken s + (if tls_creates c r then 1 else 0) \<le> slots_taken s'"
  using assms
proof (cases c)
  case (TLS_Create self sz)
  then show ?thesis using assms tls_create_inv [OF assms(1), of ps self sz r s'] by (simp add: tls_call_ok_def tls_creates_def)
next
  case (TLS_Destroy self)
  then show ?thesis using assms tls_destroy_inv [OF assms(1)] by (auto simp: tls_creates_def)
next
  case (TLS_Read self offset len)
  then show ?thesis using assms by (auto simp: tls_creates_def split: option.splits dest!: tls_read_inv [OF assms(1)])
next
  case (TLS_Write self offset len buf)
  then show ?thesis using assms tls_write_inv [OF assms(1)] by (auto simp: tls_creates_def)
next
  case (TLS_Clone self tid)
  then show ?thesis using assms tls_clone_inv [OF assms(1), of self tid r s'] by (simp add: tls_call_ok_def tls_creates_def)
qed

interpretation tsys: resource_system "only (tls_call_ok ps) (tls_call_step ps)" tls_inv slots_taken tls_creates
proof unfold_locales
  fix s c r s'
  assume inv: "tls_inv s" and step: "only (tls_call_ok ps) (tls_call_step ps) c s = Some (r, s')"
  then have "tls_call_ok ps c" "tls_call_step ps c s = Some (r, s')" by (auto simp: only_def split: if_splits)
  from tls_call_inv [OF inv this] show "tls_inv s'"
    "slots_taken s + (if tls_creates c r then 1 else 0) \<le> slots_taken s'" by blast+
qed

section \<open>An example\<close>

text \<open>Thread 7 with a storage of 5 bytes on pages of 4 bytes, and thread 8 with a clone of it.\<close>

definition demo_tls :: tls_state where
  "demo_tls = snd (the (tls_create 4 7 5 tls_start))"

lemma tls_start_inv: "tls_inv tls_start"
  by (simp add: tls_inv_def tls_start_def)

lemma start_storages: "storages tls_start = Map.empty"
  by (simp add: fun_eq_iff storages_def not_found_start)

lemma slots_after_init: "tid_tls_pairs (ready ps tls_start) =
    \<lparr>pair_tid = -1, pair_tls = None\<rparr> # \<lparr>pair_tid = -1, pair_tls = None\<rparr> # replicate 126 \<lparr>pair_tid = -1, pair_tls = None\<rparr>"
  by (simp add: ready_def tls_init_def tls_start_def MAX_THREAD_COUNT_def numeral_eq_Suc)

lemma demo_valid: "valid_tid 7" "valid_tid 8" "valid_page_size 4"
  by (simp_all add: valid_tid_def valid_page_size_def)

lemma demo_tls_ok:
  "tls_create 4 7 5 tls_start = Some (0, demo_tls)" "tls_inv demo_tls" "storages demo_tls = [7 \<mapsto> replicate 5 0]"
proof -
  have i: "find_slot (owner (-1)) (tid_tls_pairs (ready 4 tls_start)) = Some 0" by (simp add: slots_after_init owner_def)
  have "storages tls_start 7 = None" by (simp add: start_storages)
  then obtain s' where "tls_create 4 7 5 tls_start = Some (0, s')" "tls_inv s'" "storages s' = [7 \<mapsto> replicate 5 0]"
    using tls_create_ok [OF tls_start_inv demo_valid(3,1) _ _ i, of 5] by (auto simp: start_storages)
  then show "tls_create 4 7 5 tls_start = Some (0, demo_tls)" "tls_inv demo_tls" "storages demo_tls = [7 \<mapsto> replicate 5 0]"
    by (simp_all add: demo_tls_def)
qed

lemma demo_found: "\<exists>i t. find_tls 7 demo_tls = Some (i, t) \<and> tls_size t = 5 \<and> storage demo_tls t = replicate 5 0"
proof -
  have "storages demo_tls 7 = Some (replicate 5 0)" by (simp add: demo_tls_ok)
  then obtain i t where t: "find_tls 7 demo_tls = Some (i, t)" "storage demo_tls t = replicate 5 0" by (auto simp: storages_def)
  then have "unat (tls_size t) = unat (5 :: u32)" using length_storage [of demo_tls t] by simp
  then have "tls_size t = 5" by (rule unsigned_word_eqI)
  with t show ?thesis by blast
qed

lemma five_zeros: "replicate 5 (0 :: u8) = [0, 0, 0, 0, 0]"
  by (simp add: numeral_eq_Suc)

section \<open>Reading, writing, cloning\<close>

text \<open>
  C7: \<open>tls_write\<close> within the storage returns 0 and changes the storage of the calling thread only, as an
  overwrite of its bytes at the offset.  No other thread sees the write, whatever pages they share.
  No page is accessible afterwards.
\<close>

theorem tls_write_isolated:
  assumes "tls_inv s" "find_tls self s = Some (i, t)" "unat offset + unat len \<le> unat (tls_size t)"
    "int (unat offset + unat len) \<le> INT_MAX" "unat len \<le> length buf"
  shows "\<exists>s'. tls_write self offset len buf s = Some (0, s') \<and> tls_inv s' \<and> (\<forall>a. prot s' a = PROT_NONE) \<and>
    storages s' = (storages s)(self \<mapsto> memcpy_at (unat offset) (take (unat len) buf) (storage s t))"
  using tls_write_ok [OF assms(1) found_start [OF assms(1,2)] assms(2-5)] tls_invD(3) by blast

theorem tls_write_isolated_witness:
  "\<exists>s'. tls_write 7 3 2 [10, 11] demo_tls = Some (0, s') \<and> storages s' = [7 \<mapsto> [0, 0, 0, 10, 11]]"
proof -
  obtain i t where t: "find_tls 7 demo_tls = Some (i, t)" "tls_size t = 5" "storage demo_tls t = replicate 5 0" using demo_found by blast
  have "\<exists>s'. tls_write 7 3 2 [10, 11] demo_tls = Some (0, s') \<and> tls_inv s' \<and> (\<forall>a. prot s' a = PROT_NONE) \<and>
      storages s' = (storages demo_tls)(7 \<mapsto> memcpy_at (unat (3::u32)) (take (unat (2::u32)) [10, 11]) (storage demo_tls t))"
    by (rule tls_write_isolated [OF demo_tls_ok(2) t(1)]) (simp_all add: t(2) INT_MAX_def)
  then show ?thesis by (auto simp: t(3) demo_tls_ok(3) memcpy_at_def five_zeros)
qed

text \<open>
  C13: \<open>tls_read\<close> within the storage returns 0 and the bytes of the calling thread at the offset, and leaves
  the state as it was, with every page protected.
\<close>

theorem tls_read_own_bytes:
  assumes "tls_inv s" "find_tls self s = Some (i, t)" "unat offset + unat len \<le> unat (tls_size t)"
    "int (unat offset + unat len) \<le> INT_MAX"
  shows "tls_read self offset len s = Some (0, take (unat len) (drop (unat offset) (storage s t)), s) \<and>
    storages s self = Some (storage s t)"
  using tls_read_ok [OF assms(1) found_start [OF assms(1,2)] assms(2-4)] assms(2) by (simp add: storages_def)

theorem tls_read_own_bytes_witness: "tls_read 7 3 2 demo_tls = Some (0, [0, 0], demo_tls)"
proof -
  obtain i t where t: "find_tls 7 demo_tls = Some (i, t)" "tls_size t = 5" "storage demo_tls t = replicate 5 0" using demo_found by blast
  have "tls_read 7 3 2 demo_tls = Some (0, take (unat (2::u32)) (drop (unat (3::u32)) (storage demo_tls t)), demo_tls) \<and>
      storages demo_tls 7 = Some (storage demo_tls t)"
    by (rule tls_read_own_bytes [OF demo_tls_ok(2) t(1)]) (simp_all add: t(2) INT_MAX_def)
  then show ?thesis by (simp add: t(3) five_zeros)
qed

text \<open>
  C14: \<open>tls_clone\<close> by a thread without a storage of a thread with one, when a slot is free, gives the calling
  thread the same bytes and changes no other storage; it maps no new page but raises the reference
  counts.
\<close>

theorem tls_clone_copies:
  assumes "tls_inv s" "valid_tid self" "find_tls self s = None" "find_tls tid s = Some (j, t)"
    "find_slot (owner (-1)) (tid_tls_pairs s) = Some i"
    "\<forall>p \<in> set (pages t). \<forall>pg. page_heap s p = Some pg \<longrightarrow> ref_count pg < INT_MAX"
  shows "\<exists>s'. tls_clone self tid s = Some (0, s') \<and> tls_inv s' \<and> mapped s' = mapped s \<and>
    storages s' = (storages s)(self \<mapsto> storage s t)"
proof -
  note inv = assms(1) and init = found_start [OF assms(1,4)]
  note I = tls_invD [OF inv init] and F = find_tlsD [OF assms(4)]
  have "distinct (pages t)" using find_tls_valid(2) [OF I(1) assms(4)] by (simp add: storage_ok_def)
  moreover have "\<exists>pg. page_heap s p = Some pg \<and> ref_count pg \<noteq> INT_MAX" if p: "p \<in> set (pages t)" for p
  proof (rule any_page [OF I(2) F(1,3) p])
    fix pg assume "page_heap s p = Some pg"
    then show ?thesis using assms(6) p by auto
  qed
  ultimately have "for_pages share_page (pages t) s = Some (bump (set (pages t)) s)" by (rule share_all)
  moreover have "tid_tls_pairs (bump (set (pages t)) s) = tid_tls_pairs s" by (simp add: bump_def)
  ultimately have "tls_clone self tid s \<noteq> None" using assms(3,4,5) by (simp add: tls_clone_def)
  then have eq: "tls_clone self tid s = Some (0, set_slot i self (Some (t\<lparr>tls_tid := self\<rparr>)) (bump (set (pages t)) s))"
    using tls_clone_eq [OF inv init assms(3,4)] assms(5) by auto
  show ?thesis
    using eq tls_clone_ok [OF inv init assms(2-5) refl] by (intro exI conjI) (simp_all add: set_slot_def bump_def)
qed

lemma demo_tls_value:
  "tid_tls_pairs demo_tls = \<lparr>pair_tid = 7, pair_tls = Some \<lparr>tls_tid = 7, tls_size = 5, page_num = 2, pages = [1, 2]\<rparr>\<rparr> #
     \<lparr>pair_tid = -1, pair_tls = None\<rparr> # replicate 126 \<lparr>pair_tid = -1, pair_tls = None\<rparr>"
  "page_heap demo_tls = [1 \<mapsto> \<lparr>address = 4, ref_count = 1\<rparr>, 2 \<mapsto> \<lparr>address = 8, ref_count = 1\<rparr>]" "page_size demo_tls = 4"
proof -
  have "find_slot (owner (-1)) (tid_tls_pairs (ready 4 tls_start)) = Some 0"
    "find_slot (owner 7) (tid_tls_pairs (ready 4 tls_start)) = None"
    by (auto simp: slots_after_init owner_def find_slot_None_iff)
  moreover have f: "next_page (ready 4 tls_start) = 1" "next_map (ready 4 tls_start) = 1" "page_size (ready 4 tls_start) = 4"
    "page_heap (ready 4 tls_start) = Map.empty"
    by (simp_all add: ready_def tls_init_def tls_start_def)
  ultimately have "tls_create 4 7 5 tls_start = (case new_pages 2 (ready 4 tls_start) of (pgs, s1) \<Rightarrow>
      Some (0, set_slot 0 7 (Some \<lparr>tls_tid = 7, tls_size = 5, page_num = 2, pages = pgs\<rparr>) s1))"
    by (simp add: tls_create_def ready_def [symmetric] Let_def)
  then have eq: "demo_tls = (case new_pages (Suc (Suc 0)) (ready 4 tls_start) of (pgs, s1) \<Rightarrow>
      set_slot 0 7 (Some \<lparr>tls_tid = 7, tls_size = 5, page_num = 2, pages = pgs\<rparr>) s1)"
    unfolding numeral_2_eq_2 [symmetric] by (simp add: demo_tls_def split: prod.splits)
  show "tid_tls_pairs demo_tls = \<lparr>pair_tid = 7, pair_tls = Some \<lparr>tls_tid = 7, tls_size = 5, page_num = 2, pages = [1, 2]\<rparr>\<rparr> #
      \<lparr>pair_tid = -1, pair_tls = None\<rparr> # replicate 126 \<lparr>pair_tid = -1, pair_tls = None\<rparr>"
    "page_heap demo_tls = [1 \<mapsto> \<lparr>address = 4, ref_count = 1\<rparr>, 2 \<mapsto> \<lparr>address = 8, ref_count = 1\<rparr>]" "page_size demo_tls = 4"
    unfolding eq by (simp_all add: mmap_page_def alloc_page_def Let_def set_slot_def slots_after_init f numeral_2_eq_2)
qed

theorem tls_clone_copies_witness:
  "\<exists>s'. tls_clone 8 7 demo_tls = Some (0, s') \<and> storages s' = [7 \<mapsto> replicate 5 0, 8 \<mapsto> replicate 5 0] \<and> mapped s' = mapped demo_tls"
proof -
  let ?t = "\<lparr>tls_tid = 7, tls_size = 5, page_num = 2, pages = [1, 2]\<rparr>"
  have "find_slot (owner 8) (tid_tls_pairs demo_tls) = None" by (auto simp: demo_tls_value owner_def find_slot_None_iff)
  then have t: "find_tls 7 demo_tls = Some (0, ?t)" "find_tls 8 demo_tls = None"
    by (simp_all add: find_tls_def) (simp add: demo_tls_value owner_def)
  have i: "find_slot (owner (-1)) (tid_tls_pairs demo_tls) = Some 1" by (simp add: demo_tls_value owner_def)
  have r: "\<forall>p \<in> set (pages ?t). \<forall>pg. page_heap demo_tls p = Some pg \<longrightarrow> ref_count pg < INT_MAX"
    by (auto simp: demo_tls_value INT_MAX_def split: if_splits)
  have "storages demo_tls 7 = Some (storage demo_tls ?t)" by (simp add: storages_def t(1))
  then have "storage demo_tls ?t = replicate 5 0" by (simp add: demo_tls_ok(3))
  then show ?thesis
    using tls_clone_copies [OF demo_tls_ok(2) demo_valid(2) t(2,1) i r] by (auto simp: demo_tls_ok(3))
qed

section \<open>Creating and destroying\<close>

text \<open>
  C26: \<open>tls_create\<close> by a thread without a storage, with a positive size and a free slot, gives it a storage
  of that many zero bytes; \<open>tls_destroy\<close> afterwards removes it again.  Neither changes the storage of
  another thread.
\<close>

theorem tls_create_destroy:
  assumes "tls_inv s" "valid_page_size ps" "valid_tid self" "storages s self = None" "sz \<noteq> 0"
    "find_slot (owner (-1)) (tid_tls_pairs (ready ps s)) = Some i"
  shows "\<exists>s1 s2. tls_create ps self sz s = Some (0, s1) \<and> tls_inv s1 \<and>
    storages s1 = (storages s)(self \<mapsto> replicate (unat sz) 0) \<and>
    tls_destroy self s1 = Some (0, s2) \<and> tls_inv s2 \<and> storages s2 = storages s"
proof -
  obtain s1 where s1: "tls_create ps self sz s = Some (0, s1)" "tls_inv s1"
    "storages s1 = (storages s)(self \<mapsto> replicate (unat sz) 0)"
    using tls_create_ok [OF assms] by blast
  then have "storages s1 self \<noteq> None" by simp
  then obtain j t where t: "find_tls self s1 = Some (j, t)" by (auto simp: storages_def)
  obtain s2 where "tls_destroy self s1 = Some (0, s2)" "tls_inv s2" "storages s2 = (storages s1)(self := None)"
    using tls_destroy_ok [OF s1(2) found_start [OF s1(2) t] t] by blast
  then show ?thesis using s1 assms(4) by (intro exI conjI) (auto simp: fun_eq_iff)
qed

theorem tls_create_destroy_witness:
  "\<exists>s1 s2. tls_create 4 7 5 tls_start = Some (0, s1) \<and> storages s1 = [7 \<mapsto> replicate 5 0] \<and>
     tls_destroy 7 s1 = Some (0, s2) \<and> storages s2 = Map.empty"
proof -
  have i: "find_slot (owner (-1)) (tid_tls_pairs (ready 4 tls_start)) = Some 0" by (simp add: slots_after_init owner_def)
  have n: "storages tls_start 7 = None" by (simp add: start_storages)
  have "(5 :: u32) \<noteq> 0" by simp
  then show ?thesis
    using tls_create_destroy [OF tls_start_inv demo_valid(3,1) n _ i, of 5] by (auto simp: start_storages)
qed

section \<open>Sequences of calls\<close>

text \<open>
  C16: every sequence of calls by any threads keeps the invariant: between calls no page is accessible, no
  storage refers to an unmapped page and reference counts never fall below the number of storages
  that use a page.  Moreover a slot that was given to a thread is never free again, because
  \<open>tls_destroy\<close> marks it with 0 and \<open>tls_create\<close> looks for -1: at most 128 creations succeed over the whole
  run of the program, however many storages are destroyed.
\<close>

theorem tls_calls_safe:
  assumes "tls_inv s" "list_all (tls_call_ok ps) cs" "run_calls (tls_call_step ps) cs s = Some (rs, s')"
  shows "tls_inv s' \<and> slots_taken s + length (filter (\<lambda>(c, r). tls_creates c r) (zip cs rs)) \<le> MAX_THREAD_COUNT"
proof -
  have run: "run_calls (only (tls_call_ok ps) (tls_call_step ps)) cs s = Some (rs, s')"
    using assms(2,3) run_calls_only by metis
  have inv: "tls_inv s'" using tsys.run_inv [OF assms(1) run] .
  have "length (tid_tls_pairs s') = MAX_THREAD_COUNT"
    using inv by (auto simp: tls_inv_def slots_ok_def tls_start_def split: if_splits)
  then have "slots_taken s' \<le> MAX_THREAD_COUNT"
    using used_count_le [of "\<lambda>e. \<not> owner (-1) e" "tid_tls_pairs s'"] by (simp add: slots_taken_def)
  then show ?thesis using inv tsys.run_amount [OF assms(1) run] by simp
qed

theorem tls_calls_safe_witness: "tls_inv demo_tls \<and> slots_taken tls_start + 1 \<le> MAX_THREAD_COUNT"
  using tls_calls_safe [OF tls_start_inv, of 4 "[TLS_Create 7 5]" "[0]" demo_tls] demo_tls_ok(1) demo_valid
  by (simp add: tls_call_ok_def tls_creates_def)

section \<open>Where the code does not do what it should\<close>

text \<open>
  C35: the bound check \<open>offset + length > size\<close> is made with wrap-around.  When the sum wraps to a value
  within the size, \<open>tls_read\<close> reports success although the range lies far outside the storage, and
  reads nothing.
\<close>

theorem tls_read_wraps:
  assumes "tls_inv s" "find_tls self s = Some (i, t)" "2 ^ 32 \<le> unat offset + unat len" "offset + len \<le> tls_size t"
  shows "tls_read self offset len s = Some (0, [], s)"
proof -
  have init: "initialize s" using found_start [OF assms(1,2)] .
  have lt: "unat offset < 2 ^ 32" "unat len < 2 ^ 32" using unsigned_less [of offset] unsigned_less [of len] by simp_all
  then have "unat (offset + len) = unat offset + unat len - 2 ^ 32"
    using assms(3) by (simp add: unat_word_ariths mod_if)
  then have "unat (offset + len) \<le> unat offset" using lt by simp
  then have "loop_count offset len = Some 0" by (simp add: loop_count_def)
  then show ?thesis
    using assms(2,4) unprotect_all(1) [OF assms(1) init assms(2)] protect_again [OF assms(1) init assms(2)]
    by (simp add: tls_read_def)
qed

theorem tls_read_wraps_witness: "tls_read 7 4294967295 4 demo_tls = Some (0, [], demo_tls)"
proof -
  obtain i t where t: "find_tls 7 demo_tls = Some (i, t)" "tls_size t = 5" using demo_found by blast
  show ?thesis by (rule tls_read_wraps [OF demo_tls_ok(2) t(1)]) (simp_all add: t(2))
qed

text \<open>
  C36: when no slot is free, \<open>tls_clone\<close> still returns 0, but the calling thread has no storage afterwards;
  only the reference counts of the pages have been raised.
\<close>

theorem tls_clone_full_table:
  assumes "tls_inv s" "find_tls self s = None" "find_tls tid s = Some (j, t)"
    "find_slot (owner (-1)) (tid_tls_pairs s) = None" "tls_clone self tid s = Some (r, s')"
  shows "r = 0 \<and> storages s' = storages s \<and> storages s' self = None \<and> s' = bump (set (pages t)) s"
proof -
  have init: "initialize s" using found_start [OF assms(1,3)] .
  have "r = 0" "s' = bump (set (pages t)) s" using tls_clone_eq [OF assms(1) init assms(2,3)] assms(4,5) by auto
  then show ?thesis using bump_inv(2) [OF assms(1) init] assms(2) by (simp add: storages_def)
qed

text \<open>The scan of the slots.\<close>

lemma fault_scan_miss:
  "\<forall>p \<in> set ps. \<forall>pg. h p = Some pg \<longrightarrow> address pg \<noteq> a \<Longrightarrow> fault_scan a h ps \<noteq> Some True"
  by (induction ps) (auto split: option.splits)

lemma fault_slots_null:
  assumes "i < length es" "pair_tls (es ! i) = None"
    "\<forall>j < i. \<forall>t p pg. pair_tls (es ! j) = Some t \<and> p \<in> set (pages t) \<and> h p = Some pg \<longrightarrow> address pg \<noteq> a"
  shows "fault_slots a h es = None"
  using assms
proof (induction es arbitrary: i)
  case (Cons e es)
  show ?case
  proof (cases i)
    case 0
    then show ?thesis using Cons.prems(2) by simp
  next
    case (Suc k)
    have "\<forall>j < k. \<forall>t p pg. pair_tls (es ! j) = Some t \<and> p \<in> set (pages t) \<and> h p = Some pg \<longrightarrow> address pg \<noteq> a"
      using Cons.prems(3) Suc by (metis Suc_less_eq nth_Cons_Suc)
    then have rest: "fault_slots a h es = None" using Cons.prems(1,2) Suc by (intro Cons.IH [of k]) simp_all
    show ?thesis
    proof (cases "pair_tls e")
      case (Some t)
      then have "\<forall>p \<in> set (pages t). \<forall>pg. h p = Some pg \<longrightarrow> address pg \<noteq> a"
        using Cons.prems(3) Suc by (metis nth_Cons_0 zero_less_Suc)
      then show ?thesis using fault_scan_miss [of "pages t" h a] rest Some by (auto split: option.split)
    qed simp
  qed
qed simp

text \<open>The table after 127 other storages were created and destroyed.\<close>

definition demo_full :: tls_state where
  "demo_full = demo_tls\<lparr>tid_tls_pairs := hd (tid_tls_pairs demo_tls) # replicate 127 \<lparr>pair_tid = 0, pair_tls = None\<rparr>\<rparr>"

lemma demo_init: "initialize demo_tls"
  using demo_found found_start [OF demo_tls_ok(2)] by blast

lemma demo_full_inv: "tls_inv demo_full"
proof -
  note I = tls_invD [OF demo_tls_ok(2) demo_init]
  let ?es = "hd (tid_tls_pairs demo_tls) # replicate 127 \<lparr>pair_tid = 0, pair_tls = None\<rparr>"
  have hd: "hd (tid_tls_pairs demo_tls) \<in> set (tid_tls_pairs demo_tls)" by (simp add: demo_tls_value)
  then have e: "slot_ok (page_size demo_tls) (hd (tid_tls_pairs demo_tls))" using I(1) by (auto simp: slots_ok_def list_all_iff)
  have valid: "valid_tid (pair_tid (hd (tid_tls_pairs demo_tls)))" by (simp add: demo_tls_value valid_tid_def)
  have "slots_ok (page_size demo_tls) ?es"
    unfolding slots_ok_def
  proof (intro conjI allI impI)
    show "length ?es = MAX_THREAD_COUNT" by (simp add: MAX_THREAD_COUNT_def)
    show "list_all (slot_ok (page_size demo_tls)) ?es" using e by (simp add: list_all_iff) (simp add: slot_ok_def valid_tid_def)
    fix i j
    assume "i < length ?es" "j < length ?es" "pair_tid (?es ! i) = pair_tid (?es ! j) \<and> valid_tid (pair_tid (?es ! i))"
    then show "i = j" using valid by (cases i; cases j) (auto simp: valid_tid_def)
  qed
  moreover have "heap_ok ?es demo_tls"
  proof (rule heap_ok_change_slots [OF I(2)])
    fix p pg assume "page_heap demo_tls p = Some pg"
    then show "int (used_count (uses p) ?es) \<le> ref_count pg"
      by (auto simp: demo_tls_value used_count_def uses_def split: if_splits)
  next
    fix e p assume "e \<in> set ?es" "uses p e"
    then have "uses p (hd (tid_tls_pairs demo_tls))" by (auto simp: uses_def)
    then show "page_heap demo_tls p \<noteq> None" using heap_okD(5) [OF I(2) hd] by blast
  qed
  ultimately show ?thesis using I(3,4) demo_init by (simp add: demo_full_def tls_inv_def)
qed

theorem tls_clone_full_table_witness:
  "\<exists>s'. tls_clone 8 7 demo_full = Some (0, s') \<and> storages s' 8 = None"
proof -
  let ?t = "\<lparr>tls_tid = 7, tls_size = 5, page_num = 2, pages = [1, 2]\<rparr>"
  have es: "tid_tls_pairs demo_full = \<lparr>pair_tid = 7, pair_tls = Some ?t\<rparr> # replicate 127 \<lparr>pair_tid = 0, pair_tls = None\<rparr>"
    by (simp add: demo_full_def demo_tls_value)
  have f8: "find_slot (owner 8) (tid_tls_pairs demo_full) = None" and f1: "find_slot (owner (-1)) (tid_tls_pairs demo_full) = None"
    by (simp_all add: es owner_def find_slot_None_iff)
  have t: "find_tls 7 demo_full = Some (0, ?t)" "find_tls 8 demo_full = None"
    using f8 by (simp_all add: find_tls_def) (simp add: es owner_def)
  have "page_heap demo_full = page_heap demo_tls" by (simp add: demo_full_def)
  then have "\<exists>pg. page_heap demo_full p = Some pg \<and> ref_count pg \<noteq> INT_MAX" if "p \<in> set (pages ?t)" for p
    using that by (auto simp: demo_tls_value INT_MAX_def)
  then have "for_pages share_page (pages ?t) demo_full = Some (bump (set (pages ?t)) demo_full)" by (intro share_all) simp_all
  then have "\<exists>r s'. tls_clone 8 7 demo_full = Some (r, s')" using t by (auto simp: tls_clone_def split: option.split)
  then show ?thesis using tls_clone_full_table [OF demo_full_inv t(2,1) f1] by blast
qed

text \<open>
  C37: the handler of page faults follows the storage pointer of every slot it passes.  If a slot without a
  storage comes before the storage that has the faulting page, or no storage has it, the handler
  dereferences a null pointer.
\<close>

theorem fault_handler_null_pointer:
  assumes "i < length (tid_tls_pairs s)" "pair_tls (tid_tls_pairs s ! i) = None"
    "\<forall>j < i. \<forall>t p pg. pair_tls (tid_tls_pairs s ! j) = Some t \<and> p \<in> set (pages t) \<and> page_heap s p = Some pg \<longrightarrow>
       address pg \<noteq> nat (and (int a) (not (int (page_size s) - 1)))"
  shows "tls_handle_page_fault a s = None"
  unfolding tls_handle_page_fault_def Let_def by (rule fault_slots_null [OF assms])

theorem fault_handler_null_pointer_witness: "tls_handle_page_fault 100 demo_tls = None"
  by (rule fault_handler_null_pointer [where i = 1]) (auto simp: demo_tls_value split: if_splits)

end
