(* ===== verification/Jmpbuf.thy ===== *)
theory Jmpbuf
  imports Prelude
begin

text \<open>
  \<^verbatim>\<open>ec440threads.h\<close>: the layout of a jump buffer, the mangling of the pointers in it, and the thunk
  in which a new thread starts.  The pointer guard that the C library keeps at \<^verbatim>\<open>%fs:0x30\<close> is a
  parameter.  \<open>setjmp\<close> and \<open>longjmp\<close> store and load the eight registers at the places that the header
  documents.
\<close>

unbundle bit_operations_syntax

section \<open>Jump buffers\<close>

datatype JBL = JBL_RBX | JBL_RBP | JBL_R12 | JBL_R13 | JBL_R14 | JBL_R15 | JBL_RSP | JBL_PC

primrec jbl_index :: "JBL \<Rightarrow> nat" where
  "jbl_index JBL_RBX = 0"
| "jbl_index JBL_RBP = 1"
| "jbl_index JBL_R12 = 2"
| "jbl_index JBL_R13 = 3"
| "jbl_index JBL_R14 = 4"
| "jbl_index JBL_R15 = 5"
| "jbl_index JBL_RSP = 6"
| "jbl_index JBL_PC = 7"

type_synonym jmp_buf = "u64 list"

definition ptr_demangle :: "u64 \<Rightarrow> u64 \<Rightarrow> u64" where
  "ptr_demangle guard p = word_rotr 17 p XOR guard"

definition ptr_mangle :: "u64 \<Rightarrow> u64 \<Rightarrow> u64" where
  "ptr_mangle guard p = word_rotl 17 (p XOR guard)"

definition set_reg :: "u64 \<Rightarrow> JBL \<Rightarrow> u64 \<Rightarrow> jmp_buf \<Rightarrow> jmp_buf" where
  "set_reg guard reg val buf =
     (case reg of
        JBL_RBX \<Rightarrow> buf[jbl_index reg := ptr_mangle guard val]
      | JBL_RBP \<Rightarrow> buf[jbl_index reg := ptr_mangle guard val]
      | JBL_RSP \<Rightarrow> buf[jbl_index reg := ptr_mangle guard val]
      | JBL_PC \<Rightarrow> buf[jbl_index reg := ptr_mangle guard val]
      | JBL_R12 \<Rightarrow> buf[jbl_index reg := val]
      | JBL_R13 \<Rightarrow> buf[jbl_index reg := val]
      | JBL_R14 \<Rightarrow> buf[jbl_index reg := val]
      | JBL_R15 \<Rightarrow> buf[jbl_index reg := val])"

definition get_reg :: "u64 \<Rightarrow> JBL \<Rightarrow> jmp_buf \<Rightarrow> u64" where
  "get_reg guard reg buf =
     (case reg of
        JBL_RBX \<Rightarrow> ptr_demangle guard (buf ! jbl_index reg)
      | JBL_RBP \<Rightarrow> ptr_demangle guard (buf ! jbl_index reg)
      | JBL_RSP \<Rightarrow> ptr_demangle guard (buf ! jbl_index reg)
      | JBL_PC \<Rightarrow> ptr_demangle guard (buf ! jbl_index reg)
      | JBL_R12 \<Rightarrow> buf ! jbl_index reg
      | JBL_R13 \<Rightarrow> buf ! jbl_index reg
      | JBL_R14 \<Rightarrow> buf ! jbl_index reg
      | JBL_R15 \<Rightarrow> buf ! jbl_index reg)"

text \<open>The machine registers that a context switch moves, and the first argument register.\<close>

record cpu =
  rbx :: u64
  rbp :: u64
  r12 :: u64
  r13 :: u64
  r14 :: u64
  r15 :: u64
  rsp :: u64
  pc :: u64
  rdi :: u64

definition setjmp :: "u64 \<Rightarrow> cpu \<Rightarrow> jmp_buf \<Rightarrow> jmp_buf" where
  "setjmp guard c buf =
     set_reg guard JBL_PC (pc c) (set_reg guard JBL_RSP (rsp c) (set_reg guard JBL_R15 (r15 c)
       (set_reg guard JBL_R14 (r14 c) (set_reg guard JBL_R13 (r13 c) (set_reg guard JBL_R12 (r12 c)
         (set_reg guard JBL_RBP (rbp c) (set_reg guard JBL_RBX (rbx c) buf)))))))"

definition longjmp :: "u64 \<Rightarrow> jmp_buf \<Rightarrow> cpu \<Rightarrow> cpu" where
  "longjmp guard buf c =
     c\<lparr>rbx := get_reg guard JBL_RBX buf, rbp := get_reg guard JBL_RBP buf,
       r12 := get_reg guard JBL_R12 buf, r13 := get_reg guard JBL_R13 buf,
       r14 := get_reg guard JBL_R14 buf, r15 := get_reg guard JBL_R15 buf,
       rsp := get_reg guard JBL_RSP buf, pc := get_reg guard JBL_PC buf\<rparr>"

section \<open>Machine instructions of the thunk\<close>

type_synonym memory = "u64 \<Rightarrow> u64"

definition push :: "u64 \<Rightarrow> cpu \<times> memory \<Rightarrow> cpu \<times> memory" where
  "push v = (\<lambda>(c, m). (c\<lparr>rsp := rsp c - 8\<rparr>, m(rsp c - 8 := v)))"

definition pop_rbp :: "cpu \<times> memory \<Rightarrow> cpu \<times> memory" where
  "pop_rbp = (\<lambda>(c, m). (c\<lparr>rbp := m (rsp c), rsp := rsp c + 8\<rparr>, m))"

definition ret :: "cpu \<times> memory \<Rightarrow> cpu \<times> memory" where
  "ret = (\<lambda>(c, m). (c\<lparr>pc := m (rsp c), rsp := rsp c + 8\<rparr>, m))"

text \<open>
  The compiled prologue (\<^verbatim>\<open>push %rbp; mov %rsp, %rbp\<close>), whose effect the first instruction of the
  assembly undoes, then the assembly.
\<close>

definition start_thunk :: "cpu \<times> memory \<Rightarrow> cpu \<times> memory" where
  "start_thunk cm =
     (let (c1, m1) = push (rbp (fst cm)) cm;
          (c2, m2) = pop_rbp (c1\<lparr>rbp := rsp c1\<rparr>, m1);
          c3 = c2\<lparr>rdi := r13 c2\<rparr>
      in ret (push (r12 c3) (c3, m2)))"

section \<open>Round trips\<close>

lemma ptr_demangle_mangle [simp]: "ptr_demangle guard (ptr_mangle guard p) = p"
  by (simp add: ptr_demangle_def ptr_mangle_def xor.assoc)

lemma ptr_mangle_demangle [simp]: "ptr_mangle guard (ptr_demangle guard p) = p"
  by (simp add: ptr_demangle_def ptr_mangle_def xor.assoc)

lemma jbl_index_lt: "jbl_index r < 8"
  by (cases r) simp_all

lemma jbl_index_inj: "jbl_index r = jbl_index r' \<longleftrightarrow> r = r'"
  by (cases r; cases r') simp_all

lemma length_set_reg [simp]: "length (set_reg guard r v buf) = length buf"
  by (cases r) (simp_all add: set_reg_def)

lemma get_set_reg:
  assumes "length buf = 8"
  shows "get_reg guard r (set_reg guard r' v buf) = (if r = r' then v else get_reg guard r buf)"
  using assms by (cases r; cases r') (simp_all add: get_reg_def set_reg_def)

lemma length_setjmp [simp]: "length (setjmp guard c buf) = length buf"
  by (simp add: setjmp_def)

lemma longjmp_setjmp:
  assumes "length buf = 8"
  shows "longjmp guard (setjmp guard c buf) c' = c\<lparr>rdi := rdi c'\<rparr>"
  using assms by (simp add: longjmp_def setjmp_def get_set_reg)

lemma start_thunk_enters:
  "start_thunk (c, m) =
     (c\<lparr>pc := r12 c, rdi := r13 c\<rparr>, m(rsp c - 8 := r12 c))"
  by (simp add: start_thunk_def push_def pop_rbp_def ret_def)

end
