(* ===== verification/Threads.thy ===== *)
theory Threads
  imports Jmpbuf Systems
begin

text \<open>
  \<^verbatim>\<open>threads.c\<close>, lines 13 to 235: the thread table, the round-robin scheduler and thread creation,
  exit and join.

  The state is the library's globals together with what a context switch moves (the registers), the
  words in memory that the library writes (the top of a new stack, \<open>*retval\<close>), the stacks that are
  allocated, the timer and the blocking of SIGALRM, and the objects of the synchronisation part
  (lines 243 to 447).  A C function that calls \<open>schedule\<close> continues only when its thread is resumed:
  the place where each thread stopped inside the library is its \<open>frame\<close>, which in C is part of the
  stack that the saved registers point to.

  \<open>None\<close> stands for undefined behaviour or for the search loop of \<open>schedule\<close> not ending.
\<close>

section \<open>Data\<close>

definition MAX_THREADS :: nat where
  "MAX_THREADS = 128"

definition THREAD_STACK_SIZE :: u64 where
  "THREAD_STACK_SIZE = 32768"

datatype thread_status = TS_EXITED | TS_RUNNING | TS_READY | TS_EMPTY | TS_BLOCKED

record thread_control_block =
  tid :: nat
  stack :: u64
  regs :: jmp_buf
  status :: thread_status
  exit_status :: u64

text \<open>The nodes of a waiting queue, mutexes and barriers; pointers are addresses, \<open>None\<close> is NULL.\<close>

record Node =
  node_tid :: nat
  node_next :: "nat option"

record my_mutex_t =
  locked :: int
  blocked_threads_head :: "nat option"
  blocked_threads_tail :: "nat option"

record my_barrier_t =
  barrier_count :: int
  threads_blocked :: int
  Blocked_one :: "nat option"
  Blocked_two :: "nat option"
  barrier_init :: int
  serialed :: bool

text \<open>Where a thread stopped inside the library.\<close>

datatype frame =
    User
  | Handler frame
  | Joining nat u64
  | Lock_Blocked
  | Unlock_Yield
  | Barrier_Enter nat
  | Barrier_Spin nat
  | Barrier_Leave nat

record lib_state =
  threads :: "thread_control_block list"
  current_tid :: nat
  exited_string :: int
  num_threads :: nat
  is_first_call :: bool
  machine :: cpu
  words :: memory
  stacks :: "u64 list"
  timer_on :: bool
  alarm_blocked :: bool
  frames :: "nat \<Rightarrow> frame"
  nodes :: "nat \<rightharpoonup> Node"
  mutexes :: "nat \<rightharpoonup> my_mutex_t"
  barriers :: "nat \<rightharpoonup> my_barrier_t"
  next_addr :: nat

text \<open>The globals are zero-initialised, so every status is \<open>TS_EXITED\<close> (the first of the enum).\<close>

definition zero_tcb :: thread_control_block where
  "zero_tcb = \<lparr>tid = 0, stack = 0, regs = replicate 8 0, status = TS_EXITED, exit_status = 0\<rparr>"

definition lib_start :: "cpu \<Rightarrow> lib_state" where
  "lib_start c =
     \<lparr>threads = replicate MAX_THREADS zero_tcb, current_tid = 0, exited_string = 0, num_threads = 0,
      is_first_call = True, machine = c, words = (\<lambda>_. 0), stacks = [], timer_on = False,
      alarm_blocked = False, frames = (\<lambda>_. User), nodes = (\<lambda>_. None), mutexes = (\<lambda>_. None),
      barriers = (\<lambda>_. None), next_addr = 1\<rparr>"

section \<open>Access to the thread table\<close>

definition status_of :: "lib_state \<Rightarrow> nat \<Rightarrow> thread_status" where
  "status_of s t = status (threads s ! t)"

definition set_status :: "nat \<Rightarrow> thread_status \<Rightarrow> lib_state \<Rightarrow> lib_state" where
  "set_status t st s = s\<lparr>threads := (threads s)[t := (threads s ! t)\<lparr>status := st\<rparr>]\<rparr>"

definition set_frame :: "frame \<Rightarrow> lib_state \<Rightarrow> lib_state" where
  "set_frame f s = s\<lparr>frames := (frames s)(current_tid s := f)\<rparr>"

section \<open>The scheduler\<close>

definition succ_tid :: "nat \<Rightarrow> nat" where
  "succ_tid t = (if t = MAX_THREADS - 1 then 0 else Suc t)"

partial_function (option) next_ready :: "thread_control_block list \<Rightarrow> nat \<Rightarrow> nat option" where
  "next_ready ths t =
     (let t' = succ_tid t
      in if t' \<ge> length ths then None
         else if status (ths ! t') = TS_READY then Some t'
         else next_ready ths t')"

declare next_ready.simps [code]

definition save_context :: "u64 \<Rightarrow> lib_state \<Rightarrow> lib_state" where
  "save_context guard s =
     (let t = current_tid s; b = threads s ! t
      in s\<lparr>threads := (threads s)[t := b\<lparr>regs := setjmp guard (machine s) (regs b)\<rparr>]\<rparr>)"

definition dispatch :: "u64 \<Rightarrow> nat \<Rightarrow> lib_state \<Rightarrow> lib_state" where
  "dispatch guard t s =
     (let s1 = set_status t TS_RUNNING (s\<lparr>current_tid := t\<rparr>)
      in s1\<lparr>machine := longjmp guard (regs (threads s1 ! t)) (machine s1)\<rparr>)"

definition schedule :: "u64 \<Rightarrow> lib_state \<Rightarrow> lib_state option" where
  "schedule guard s =
     (let s1 = (case status_of s (current_tid s) of
                  TS_RUNNING \<Rightarrow> set_status (current_tid s) TS_READY s
                | _ \<Rightarrow> s)
      in case next_ready (threads s1) (current_tid s1) of
           None \<Rightarrow> None
         | Some next_tid \<Rightarrow>
             Some (dispatch guard next_tid
               (if status_of s1 (current_tid s1) \<noteq> TS_EXITED then save_context guard s1 else s1)))"

section \<open>Thread creation, exit, self and join\<close>

definition init_tcb :: "nat \<Rightarrow> thread_control_block \<Rightarrow> thread_control_block" where
  "init_tcb i b = b\<lparr>status := TS_EMPTY, tid := i, stack := 0\<rparr>"

definition scheduler_init :: "lib_state \<Rightarrow> lib_state" where
  "scheduler_init s =
     set_status 0 TS_READY
       (s\<lparr>threads := map (\<lambda>i. init_tcb i (threads s ! i)) [0..<MAX_THREADS], num_threads := 1,
          timer_on := True\<rparr>)"

definition first_call :: "u64 \<Rightarrow> lib_state \<Rightarrow> lib_state" where
  "first_call guard s =
     (if is_first_call s
      then (let s1 = set_status 0 TS_READY (scheduler_init (s\<lparr>is_first_call := False\<rparr>))
            in s1\<lparr>threads := (threads s1)[0 := (threads s1 ! 0)\<lparr>regs := setjmp guard (machine s1) (regs (threads s1 ! 0))\<rparr>]\<rparr>)
      else s)"

definition new_thread_regs :: "u64 \<Rightarrow> u64 \<Rightarrow> u64 \<Rightarrow> u64 \<Rightarrow> u64 \<Rightarrow> jmp_buf \<Rightarrow> jmp_buf" where
  "new_thread_regs guard thunk start_routine arg stackPointer buf =
     set_reg guard JBL_RSP stackPointer
       (set_reg guard JBL_R12 start_routine (set_reg guard JBL_R13 arg (set_reg guard JBL_PC thunk buf)))"

text \<open>
  The addresses of \<open>start_thunk\<close> and \<open>pthread_exit\<close> and the address that \<open>malloc\<close> returns for the
  stack are arguments.  The results are the return value and the value stored in \<open>*thread\<close>.  The
  search for a slot may run to \<open>MAX_THREADS\<close>, and the store through a null stack faults.
\<close>

definition free_tid :: "thread_control_block list \<Rightarrow> nat" where
  "free_tid ths = (case find_slot (\<lambda>b. stack b = 0) (tl ths) of Some i \<Rightarrow> Suc i | None \<Rightarrow> length ths)"

text \<open>
  The two parts of \<open>pthread_create\<close> on the shared table, lines 163 to 171 and 172 to 194.  SIGALRM is not
  blocked between them.
\<close>

definition create_scan :: "lib_state \<Rightarrow> nat option" where
  "create_scan s = (let t = free_tid (threads s) in if num_threads s \<ge> MAX_THREADS then None else Some t)"

definition create_fill ::
  "u64 \<Rightarrow> u64 \<Rightarrow> u64 \<Rightarrow> u64 \<Rightarrow> u64 \<Rightarrow> u64 \<Rightarrow> nat \<Rightarrow> lib_state \<Rightarrow> (int \<times> nat option \<times> lib_state) option" where
  "create_fill guard thunk exit_addr stk start_routine arg t s =
     (if t \<ge> length (threads s) \<or> stk = 0 then None
      else (let stackPointer = stk + THREAD_STACK_SIZE - 8;
                b = threads s ! t;
                b' = b\<lparr>regs := new_thread_regs guard thunk start_routine arg stackPointer (regs b),
                       stack := stk, status := TS_READY, tid := num_threads s\<rparr>
            in Some (0, Some (num_threads s),
                 s\<lparr>threads := (threads s)[t := b'], words := (words s)(stackPointer := exit_addr),
                   stacks := stk # stacks s, num_threads := Suc (num_threads s)\<rparr>)))"

definition pthread_create ::
  "u64 \<Rightarrow> u64 \<Rightarrow> u64 \<Rightarrow> u64 \<Rightarrow> u64 \<Rightarrow> u64 \<Rightarrow> lib_state \<Rightarrow> (int \<times> nat option \<times> lib_state) option" where
  "pthread_create guard thunk exit_addr stk start_routine arg s0 =
     (let s = first_call guard s0
      in case create_scan s of
           None \<Rightarrow> Some (-1, None, s)
         | Some t \<Rightarrow> create_fill guard thunk exit_addr stk start_routine arg t s)"

definition pthread_exit :: "u64 \<Rightarrow> u64 \<Rightarrow> lib_state \<Rightarrow> lib_state option" where
  "pthread_exit guard value_ptr s =
     (let t = current_tid s;
          s1 = set_status t TS_EXITED s;
          s2 = s1\<lparr>threads := (threads s1)[t := (threads s1 ! t)\<lparr>exit_status := value_ptr\<rparr>],
                  exited_string := exited_string s1 + 1, timer_on := False\<rparr>
      in schedule guard s2)"

definition pthread_self :: "lib_state \<Rightarrow> nat" where
  "pthread_self s = tid (threads s ! current_tid s)"

definition free_stack :: "u64 \<Rightarrow> lib_state \<Rightarrow> lib_state option" where
  "free_stack p s =
     (if p = 0 then Some s
      else if p \<in> set (stacks s) then Some (s\<lparr>stacks := remove1 p (stacks s)\<rparr>)
      else None)"

text \<open>
  One iteration of the loop of \<open>pthread_join\<close>: it returns 0, or the thread waits in \<open>schedule\<close> for
  the next iteration.
\<close>

definition pthread_join :: "u64 \<Rightarrow> nat \<Rightarrow> u64 \<Rightarrow> lib_state \<Rightarrow> (int option \<times> lib_state) option" where
  "pthread_join guard thread retval s =
     (if thread \<ge> length (threads s) then None
      else if status_of s thread = TS_EXITED
      then (case free_stack (stack (threads s ! thread)) s of
              None \<Rightarrow> None
            | Some s1 \<Rightarrow>
                if retval = 0 then None
                else Some (Some 0, set_frame User
                       (s1\<lparr>words := (words s1)(retval := exit_status (threads s1 ! thread))\<rparr>)))
      else (case schedule guard (set_frame (Joining thread retval) s) of
              None \<Rightarrow> None
            | Some s1 \<Rightarrow> Some (None, s1)))"

end
