(* ===== verification/Threads_Sched.thy ===== *)
theory Threads_Sched
  imports Threads
begin

text \<open>
  The scheduler: which thread the search loop finds, when it ends, what a context switch changes,
  and that a ready thread runs after at most \<open>MAX_THREADS\<close> context switches.
\<close>

section \<open>The search loop\<close>

lemma succ_tid_mod: "t < MAX_THREADS \<Longrightarrow> succ_tid t = Suc t mod MAX_THREADS"
  by (auto simp: succ_tid_def MAX_THREADS_def)

lemma succ_tid_lt: "t < MAX_THREADS \<Longrightarrow> succ_tid t < MAX_THREADS"
  by (auto simp: succ_tid_def MAX_THREADS_def)

lemma MAX_THREADS_pos [simp]: "0 < MAX_THREADS"
  by (simp add: MAX_THREADS_def)

text \<open>The thread \<open>d + 1\<close> places after \<open>t\<close> in the round, and the number of places from \<open>t\<close> to \<open>u\<close>.\<close>

definition after :: "nat \<Rightarrow> nat \<Rightarrow> nat" where
  "after t d = (t + Suc d) mod MAX_THREADS"

definition places :: "nat \<Rightarrow> nat \<Rightarrow> nat" where
  "places t u = (if t < u then u - t - 1 else u + MAX_THREADS - t - 1)"

lemma after_lt [simp]: "after t d < MAX_THREADS"
  by (simp add: after_def)

lemma after_0: "t < MAX_THREADS \<Longrightarrow> after t 0 = succ_tid t"
  by (simp add: after_def succ_tid_mod)

lemma after_Suc: "t < MAX_THREADS \<Longrightarrow> after t (Suc d) = after (succ_tid t) d"
  using mod_add_left_eq [of "Suc t" MAX_THREADS "Suc d"] by (simp add: after_def succ_tid_mod)

lemma after_if:
  "t < MAX_THREADS \<Longrightarrow> d < MAX_THREADS \<Longrightarrow>
     after t d = (if t + Suc d < MAX_THREADS then t + Suc d else t + Suc d - MAX_THREADS)"
  by (simp add: after_def mod_if)

lemma places_lt: "t < MAX_THREADS \<Longrightarrow> u < MAX_THREADS \<Longrightarrow> places t u < MAX_THREADS"
  by (auto simp: places_def)

lemma after_places: "t < MAX_THREADS \<Longrightarrow> u < MAX_THREADS \<Longrightarrow> after t (places t u) = u"
  by (auto simp: places_def after_if)

lemma places_after: "t < MAX_THREADS \<Longrightarrow> d < MAX_THREADS \<Longrightarrow> places t (after t d) = d"
  by (auto simp: places_def after_if)

lemma places_decrease:
  assumes "t < MAX_THREADS" "d < places t u" "u < MAX_THREADS"
  shows "places (after t d) u < places t u"
proof -
  have "d < MAX_THREADS" using assms places_lt [of t u] by simp
  then show ?thesis using assms by (auto simp: places_def after_if split: if_splits)
qed

abbreviation ready_in :: "thread_control_block list \<Rightarrow> nat \<Rightarrow> bool" where
  "ready_in ths t \<equiv> status (ths ! t) = TS_READY"

lemma next_ready_first:
  assumes "length ths = MAX_THREADS" "t < MAX_THREADS"
    and "\<And>k. k < d \<Longrightarrow> \<not> ready_in ths (after t k)" "ready_in ths (after t d)"
  shows "next_ready ths t = Some (after t d)"
  using assms(2-4)
proof (induction d arbitrary: t)
  case 0
  then show ?case
    using succ_tid_lt [of t] assms(1) by (subst next_ready.simps) (simp add: after_0)
next
  case (Suc d)
  have "\<not> ready_in ths (succ_tid t)" using Suc.prems(2) [of 0] Suc.prems(1) by (simp add: after_0)
  moreover have "next_ready ths (succ_tid t) = Some (after (succ_tid t) d)"
  proof (rule Suc.IH)
    show "succ_tid t < MAX_THREADS" using Suc.prems(1) by (rule succ_tid_lt)
    show "\<not> ready_in ths (after (succ_tid t) k)" if "k < d" for k
      using Suc.prems(2) [of "Suc k"] that Suc.prems(1) by (simp add: after_Suc)
    show "ready_in ths (after (succ_tid t) d)" using Suc.prems(3,1) by (simp add: after_Suc)
  qed
  ultimately show ?case
    using succ_tid_lt [OF Suc.prems(1)] assms(1) Suc.prems(1)
    by (subst next_ready.simps) (simp add: after_Suc)
qed

lemma next_ready_SomeD: "next_ready ths t = Some u \<Longrightarrow> u < length ths \<and> ready_in ths u"
  by (rule next_ready.raw_induct [where P = "\<lambda>ths t u. u < length ths \<and> ready_in ths u", rotated])
    (auto simp: Let_def split: if_splits)

lemma next_ready_Some_iff:
  assumes "length ths = MAX_THREADS" "t < MAX_THREADS"
  shows "next_ready ths t = Some u \<longleftrightarrow>
    (\<exists>d < MAX_THREADS. u = after t d \<and> ready_in ths u \<and> (\<forall>k < d. \<not> ready_in ths (after t k)))"
    (is "_ \<longleftrightarrow> (\<exists>d < _. ?first d u)")
proof
  assume l: "next_ready ths t = Some u"
  then have u: "u < MAX_THREADS" "ready_in ths u" using next_ready_SomeD [OF l] assms(1) by auto
  define d where "d = (LEAST k. ready_in ths (after t k))"
  have hit: "ready_in ths (after t (places t u))" using after_places [OF assms(2) u(1)] u(2) by simp
  then have "ready_in ths (after t d)" unfolding d_def by (rule LeastI)
  moreover have less: "\<not> ready_in ths (after t k)" if "k < d" for k
    using that unfolding d_def by (rule not_less_Least)
  ultimately have "next_ready ths t = Some (after t d)" using next_ready_first [OF assms] by blast
  moreover have "d < MAX_THREADS"
    using Least_le [of "\<lambda>k. ready_in ths (after t k)", OF hit] places_lt [OF assms(2) u(1)] by (simp add: d_def)
  ultimately show "\<exists>d < MAX_THREADS. ?first d u" using l u(2) less by auto
next
  assume "\<exists>d < MAX_THREADS. ?first d u"
  then show "next_ready ths t = Some u" using next_ready_first [OF assms] by blast
qed

lemma next_ready_None_iff:
  assumes "length ths = MAX_THREADS" "t < MAX_THREADS"
  shows "next_ready ths t = None \<longleftrightarrow> (\<forall>u < MAX_THREADS. \<not> ready_in ths u)"
proof -
  have "\<exists>v. next_ready ths t = Some v" if "u < MAX_THREADS" "ready_in ths u" for u
  proof -
    define d where "d = (LEAST k. ready_in ths (after t k))"
    have "ready_in ths (after t (places t u))" using after_places [OF assms(2) that(1)] that(2) by simp
    then have "ready_in ths (after t d)" unfolding d_def by (rule LeastI)
    moreover have "\<not> ready_in ths (after t k)" if "k < d" for k
      using that unfolding d_def by (rule not_less_Least)
    ultimately show ?thesis using next_ready_first [OF assms] by blast
  qed
  then show ?thesis
    using next_ready_SomeD assms(1) by (metis not_None_eq)
qed

section \<open>One context switch\<close>

definition table_ok :: "lib_state \<Rightarrow> bool" where
  "table_ok s \<longleftrightarrow> length (threads s) = MAX_THREADS \<and> current_tid s < MAX_THREADS \<and>
     (\<forall>t < MAX_THREADS. length (regs (threads s ! t)) = 8)"

definition runnable :: "lib_state \<Rightarrow> nat \<Rightarrow> bool" where
  "runnable s t \<longleftrightarrow> status_of s t = TS_READY \<or> (t = current_tid s \<and> status_of s t = TS_RUNNING)"

text \<open>The table after the \<open>switch\<close> statement, and after \<open>setjmp\<close>.\<close>

definition marked :: "lib_state \<Rightarrow> lib_state" where
  "marked s = (if status_of s (current_tid s) = TS_RUNNING then set_status (current_tid s) TS_READY s else s)"

definition saved :: "u64 \<Rightarrow> lib_state \<Rightarrow> lib_state" where
  "saved guard s =
     (if status_of s (current_tid s) \<noteq> TS_EXITED then save_context guard (marked s) else marked s)"

lemma set_status_simps [simp]:
  "current_tid (set_status t st s) = current_tid s"
  "length (threads (set_status t st s)) = length (threads s)"
  "machine (set_status t st s) = machine s"
  by (simp_all add: set_status_def)

lemma status_of_set_status:
  "u < length (threads s) \<Longrightarrow> status_of (set_status t st s) u = (if t = u then st else status_of s u)"
  by (simp add: status_of_def set_status_def nth_list_update)

lemma marked_simps [simp]:
  "current_tid (marked s) = current_tid s"
  "length (threads (marked s)) = length (threads s)"
  "machine (marked s) = machine s"
  by (simp_all add: marked_def)

lemma status_of_marked:
  assumes "table_ok s" "t < MAX_THREADS"
  shows "status_of (marked s) t =
    (if t = current_tid s \<and> status_of s t = TS_RUNNING then TS_READY else status_of s t)"
  using assms by (auto simp: marked_def table_ok_def status_of_set_status)

lemma ready_marked:
  "table_ok s \<Longrightarrow> t < MAX_THREADS \<Longrightarrow> ready_in (threads (marked s)) t \<longleftrightarrow> runnable s t"
  using status_of_marked [of s t] by (simp add: runnable_def status_of_def split: if_splits) blast

lemma schedule_eq:
  assumes "table_ok s"
  shows "schedule guard s =
    map_option (\<lambda>t. dispatch guard t (saved guard s)) (next_ready (threads (marked s)) (current_tid s))"
proof -
  have "status_of (marked s) (current_tid s) \<noteq> TS_EXITED \<longleftrightarrow> status_of s (current_tid s) \<noteq> TS_EXITED"
    using status_of_marked [OF assms, of "current_tid s"] assms by (auto simp: table_ok_def)
  moreover have "(case status_of s (current_tid s) of TS_RUNNING \<Rightarrow> set_status (current_tid s) TS_READY s | _ \<Rightarrow> s) = marked s"
    by (simp add: marked_def split: thread_status.splits)
  ultimately show ?thesis
    by (simp add: schedule_def saved_def Let_def split: option.splits)
qed

lemma saved_simps [simp]:
  "current_tid (saved guard s) = current_tid s"
  "length (threads (saved guard s)) = length (threads s)"
  "machine (saved guard s) = machine s"
  by (simp_all add: saved_def save_context_def Let_def)

lemma status_saved: "status (threads (saved guard s) ! t) = status (threads (marked s) ! t)"
  by (simp add: saved_def save_context_def Let_def attr_list_update)

lemma regs_saved:
  assumes "table_ok s" "t < MAX_THREADS"
  shows "regs (threads (saved guard s) ! t) =
    (if t = current_tid s \<and> status_of s t \<noteq> TS_EXITED then setjmp guard (machine s) (regs (threads s ! t))
     else regs (threads s ! t))"
proof -
  have "regs (threads (marked s) ! t) = regs (threads s ! t)"
    by (simp add: marked_def set_status_def attr_list_update)
  then show ?thesis
    using assms by (auto simp: saved_def save_context_def Let_def nth_list_update table_ok_def)
qed

lemma rest_saved:
  "tid (threads (saved guard s) ! t) = tid (threads s ! t)"
  "stack (threads (saved guard s) ! t) = stack (threads s ! t)"
  "exit_status (threads (saved guard s) ! t) = exit_status (threads s ! t)"
  by (simp_all add: saved_def save_context_def Let_def marked_def set_status_def attr_list_update)

text \<open>What a context switch to \<open>u\<close> does.\<close>

definition switched :: "u64 \<Rightarrow> nat \<Rightarrow> lib_state \<Rightarrow> lib_state \<Rightarrow> bool" where
  "switched guard u s s' \<longleftrightarrow>
     current_tid s' = u \<and> length (threads s') = length (threads s) \<and>
     (\<forall>t < MAX_THREADS.
        status_of s' t = (if t = u then TS_RUNNING
                          else if t = current_tid s \<and> status_of s t = TS_RUNNING then TS_READY
                          else status_of s t) \<and>
        regs (threads s' ! t) =
          (if t = current_tid s \<and> status_of s t \<noteq> TS_EXITED then setjmp guard (machine s) (regs (threads s ! t))
           else regs (threads s ! t)) \<and>
        tid (threads s' ! t) = tid (threads s ! t) \<and> stack (threads s' ! t) = stack (threads s ! t) \<and>
        exit_status (threads s' ! t) = exit_status (threads s ! t)) \<and>
     machine s' = longjmp guard (regs (threads s' ! u)) (machine s) \<and>
     s'\<lparr>threads := threads s, current_tid := current_tid s, machine := machine s\<rparr> = s"

lemma switched_fields:
  assumes "switched guard u s s'"
  shows "is_first_call s' = is_first_call s" "num_threads s' = num_threads s" "frames s' = frames s"
    "nodes s' = nodes s" "mutexes s' = mutexes s" "barriers s' = barriers s" "next_addr s' = next_addr s"
    "stacks s' = stacks s" "words s' = words s" "timer_on s' = timer_on s"
    "alarm_blocked s' = alarm_blocked s" "exited_string s' = exited_string s"
proof -
  let ?r = "s'\<lparr>threads := threads s, current_tid := current_tid s, machine := machine s\<rparr>"
  have "?r = s" using assms by (simp add: switched_def)
  then show "is_first_call s' = is_first_call s" "num_threads s' = num_threads s" "frames s' = frames s"
    "nodes s' = nodes s" "mutexes s' = mutexes s" "barriers s' = barriers s" "next_addr s' = next_addr s"
    "stacks s' = stacks s" "words s' = words s" "timer_on s' = timer_on s"
    "alarm_blocked s' = alarm_blocked s" "exited_string s' = exited_string s"
    using \<open>?r = s\<close> by (auto dest: arg_cong [of _ _ is_first_call] arg_cong [of _ _ num_threads] arg_cong [of _ _ frames]
      arg_cong [of _ _ nodes] arg_cong [of _ _ mutexes] arg_cong [of _ _ barriers] arg_cong [of _ _ next_addr]
      arg_cong [of _ _ stacks] arg_cong [of _ _ words] arg_cong [of _ _ timer_on]
      arg_cong [of _ _ alarm_blocked] arg_cong [of _ _ exited_string])
qed

lemma switched_status:
  assumes "switched guard u s s'" "t < MAX_THREADS"
  shows "status_of s' t = (if t = u then TS_RUNNING
      else if t = current_tid s \<and> status_of s t = TS_RUNNING then TS_READY else status_of s t)"
  using assms by (simp add: switched_def)

lemma dispatch_switched:
  assumes "table_ok s" "u < MAX_THREADS"
  shows "switched guard u s (dispatch guard u (saved guard s))"
proof -
  let ?d = "dispatch guard u (saved guard s)"
  have len: "length (threads (saved guard s)) = MAX_THREADS" using assms(1) by (simp add: table_ok_def)
  have st: "status_of ?d t = (if t = u then TS_RUNNING
      else if t = current_tid s \<and> status_of s t = TS_RUNNING then TS_READY else status_of s t)"
    if "t < MAX_THREADS" for t
    using that len status_of_marked [OF assms(1) that]
    by (simp add: dispatch_def Let_def status_of_def set_status_def nth_list_update status_saved)
  have attr: "g (threads ?d ! t) = g (threads (saved guard s) ! t)"
    if "\<And>b st. g (b\<lparr>status := st\<rparr>) = g b" for g :: "thread_control_block \<Rightarrow> 'b" and t
    by (simp add: dispatch_def Let_def set_status_def attr_list_update that)
  have rest: "?d\<lparr>threads := threads s, current_tid := current_tid s, machine := machine s\<rparr> = s"
    by (simp add: dispatch_def Let_def set_status_def saved_def save_context_def marked_def)
  have "machine ?d = longjmp guard (regs (threads ?d ! u)) (machine s)" "current_tid ?d = u"
    by (simp_all add: dispatch_def Let_def set_status_def)
  then show ?thesis
    unfolding switched_def using st rest len assms(1) regs_saved [OF assms(1)]
    by (simp add: attr rest_saved table_ok_def) (simp add: dispatch_def Let_def set_status_def)
qed

lemma schedule_None_iff:
  assumes "table_ok s"
  shows "schedule guard s = None \<longleftrightarrow> (\<forall>t < MAX_THREADS. \<not> runnable s t)"
  using assms next_ready_None_iff [of "threads (marked s)" "current_tid s"] ready_marked [OF assms]
  by (simp add: schedule_eq table_ok_def)

text \<open>The thread that \<open>schedule\<close> picks is the first runnable one after the current thread.\<close>

definition first_after :: "lib_state \<Rightarrow> nat \<Rightarrow> bool" where
  "first_after s d \<longleftrightarrow>
     runnable s (after (current_tid s) d) \<and> (\<forall>k < d. \<not> runnable s (after (current_tid s) k))"

lemma schedule_SomeE:
  assumes "table_ok s" "schedule guard s = Some s'"
  obtains d where "d < MAX_THREADS" "first_after s d" "switched guard (after (current_tid s) d) s s'"
proof -
  from assms obtain u where u: "next_ready (threads (marked s)) (current_tid s) = Some u"
      "s' = dispatch guard u (saved guard s)"
    by (auto simp: schedule_eq)
  then obtain d where d: "d < MAX_THREADS" "u = after (current_tid s) d" "ready_in (threads (marked s)) u"
      "\<forall>k < d. \<not> ready_in (threads (marked s)) (after (current_tid s) k)"
    using assms(1) next_ready_Some_iff [of "threads (marked s)" "current_tid s" u] by (auto simp: table_ok_def)
  then have "first_after s d" by (simp add: first_after_def ready_marked [OF assms(1)])
  then show ?thesis
    using that d(1,2) u(2) dispatch_switched [OF assms(1), of u] by simp
qed

lemma switched_table_ok: "table_ok s \<Longrightarrow> u < MAX_THREADS \<Longrightarrow> switched guard u s s' \<Longrightarrow> table_ok s'"
  by (simp add: table_ok_def switched_def)

lemma schedule_table_ok: "table_ok s \<Longrightarrow> schedule guard s = Some s' \<Longrightarrow> table_ok s'"
  by (metis after_lt schedule_SomeE switched_table_ok)

section \<open>Fairness\<close>

primrec yields :: "u64 \<Rightarrow> nat \<Rightarrow> lib_state \<Rightarrow> lib_state option" where
  "yields guard 0 s = Some s"
| "yields guard (Suc n) s = (case schedule guard s of None \<Rightarrow> None | Some s1 \<Rightarrow> yields guard n s1)"

lemma yields_reach_at:
  assumes "table_ok s" "t < MAX_THREADS" "t \<noteq> current_tid s" "status_of s t = TS_READY"
  shows "\<exists>n s'. n \<le> places (current_tid s) t \<and> yields guard (Suc n) s = Some s' \<and> current_tid s' = t \<and>
           (\<exists>c. machine s' = longjmp guard (regs (threads s ! t)) c)"
  using assms
proof (induction "places (current_tid s) t" arbitrary: s rule: less_induct)
  case less
  let ?c = "current_tid s"
  have c: "?c < MAX_THREADS" using less.prems(1) by (simp add: table_ok_def)
  have run: "runnable s t" using less.prems(4) by (simp add: runnable_def)
  then obtain s1 where s1: "schedule guard s = Some s1"
    using schedule_None_iff [OF less.prems(1), of guard] less.prems(2) by blast
  with less.prems(1) obtain d where d: "d < MAX_THREADS" "first_after s d" "switched guard (after ?c d) s s1"
    by (rule schedule_SomeE)
  have "d \<le> places ?c t"
    using d(2) run after_places [OF c less.prems(2)] by (auto simp: first_after_def intro: leI)
  then consider "d = places ?c t" | "d < places ?c t" by linarith
  then show ?case
  proof cases
    case 1
    then have "current_tid s1 = t" "machine s1 = longjmp guard (regs (threads s ! t)) (machine s)"
      using d(3) after_places [OF c less.prems(2)] less.prems(2,3) by (simp_all add: switched_def)
    then show ?thesis using s1 by (intro exI [of _ 0]) auto
  next
    case 2
    then have ne: "t \<noteq> after ?c d" using places_after [OF c d(1)] by auto
    have t1: "table_ok s1" "current_tid s1 = after ?c d" "status_of s1 t = TS_READY"
        "regs (threads s1 ! t) = regs (threads s ! t)"
      using d(3) less.prems ne switched_table_ok [OF less.prems(1) _ d(3)] by (simp_all add: switched_def)
    have lt: "places (current_tid s1) t < places ?c t"
      using places_decrease [OF c 2 less.prems(2)] t1(2) by simp
    from less.hyps [OF this t1(1) less.prems(2) _ t1(3)] ne t1(2,4) obtain n s' where
      "n \<le> places (current_tid s1) t" "yields guard (Suc n) s1 = Some s'" "current_tid s' = t"
      "\<exists>c. machine s' = longjmp guard (regs (threads s ! t)) c" by auto
    then show ?thesis using s1 lt by (intro exI [of _ "Suc n"]) auto
  qed
qed

end
