(* ===== verification/Sync.thy ===== *)
theory Sync
  imports Threads
begin

text \<open>
  \<^verbatim>\<open>threads.c\<close>, lines 243 to 447: mutexes with a linked queue of waiting threads and barriers, and the
  system of calls of the whole library.

  A function that calls \<open>schedule\<close> is cut there: the part before the call leaves a frame, and
  \<open>resume\<close> runs the part after it when the thread is current again.  \<open>resume\<close> on a \<open>Handler\<close> frame
  is the return from the signal handler, which restores the signal mask of the moment of delivery
  (SIGALRM was not blocked then).  The timer can strike whenever the timer is on and SIGALRM is not
  blocked, at the entry of a library function or after a call of \<open>schedule\<close> in it.
\<close>

section \<open>Signal mask and node heap\<close>

definition lock :: "lib_state \<Rightarrow> lib_state" where
  "lock s = s\<lparr>alarm_blocked := True\<rparr>"

definition unlock :: "lib_state \<Rightarrow> lib_state" where
  "unlock s = s\<lparr>alarm_blocked := False\<rparr>"

definition new_node :: "Node \<Rightarrow> lib_state \<Rightarrow> nat \<times> lib_state" where
  "new_node n s = (next_addr s, s\<lparr>nodes := (nodes s)(next_addr s \<mapsto> n), next_addr := Suc (next_addr s)\<rparr>)"

definition set_next :: "nat \<Rightarrow> nat option \<Rightarrow> lib_state \<Rightarrow> lib_state option" where
  "set_next a nxt s =
     (case nodes s a of
        None \<Rightarrow> None
      | Some n \<Rightarrow> Some (s\<lparr>nodes := (nodes s)(a \<mapsto> n\<lparr>node_next := nxt\<rparr>)\<rparr>))"

definition set_mutex :: "nat \<Rightarrow> my_mutex_t \<Rightarrow> lib_state \<Rightarrow> lib_state" where
  "set_mutex m v s = s\<lparr>mutexes := (mutexes s)(m \<mapsto> v)\<rparr>"

definition set_barrier :: "nat \<Rightarrow> my_barrier_t \<Rightarrow> lib_state \<Rightarrow> lib_state" where
  "set_barrier b v s = s\<lparr>barriers := (barriers s)(b \<mapsto> v)\<rparr>"

section \<open>Mutexes\<close>

text \<open>
  The allocation asks for the size of a pointer, 8 bytes, and stores a structure of 24 bytes.  The
  number of bytes that \<open>malloc (8)\<close> really provides is the argument \<open>usable\<close>.
\<close>

definition pthread_mutex_init :: "nat \<Rightarrow> lib_state \<Rightarrow> (nat \<times> lib_state) option" where
  "pthread_mutex_init usable s =
     (if usable < 24 then None
      else Some (next_addr s,
        s\<lparr>mutexes := (mutexes s)(next_addr s \<mapsto>
             \<lparr>locked = 0, blocked_threads_head = None, blocked_threads_tail = None\<rparr>),
          next_addr := Suc (next_addr s)\<rparr>))"

text \<open>The loop that frees the queue; a node that is already free is undefined behaviour.\<close>

partial_function (option) free_nodes :: "nat option \<Rightarrow> (nat \<rightharpoonup> Node) \<Rightarrow> (nat \<rightharpoonup> Node) option" where
  "free_nodes p h =
     (case p of
        None \<Rightarrow> Some h
      | Some a \<Rightarrow> (case h a of None \<Rightarrow> None | Some n \<Rightarrow> free_nodes (node_next n) (h(a := None))))"

declare free_nodes.simps [code]

definition pthread_mutex_destroy :: "nat \<Rightarrow> lib_state \<Rightarrow> (int \<times> lib_state) option" where
  "pthread_mutex_destroy m s =
     (case mutexes s m of
        None \<Rightarrow> None
      | Some v \<Rightarrow>
          if locked v \<noteq> 0 then Some (-1, s)
          else (case free_nodes (blocked_threads_head v) (nodes s) of
                  None \<Rightarrow> None
                | Some h \<Rightarrow> Some (0, s\<lparr>nodes := h, mutexes := (mutexes s)(m := None)\<rparr>)))"

text \<open>The insertion of a node in the queue: into an empty queue, after a lone head, after the tail.\<close>

definition enqueue :: "nat \<Rightarrow> my_mutex_t \<Rightarrow> nat \<Rightarrow> lib_state \<Rightarrow> lib_state option" where
  "enqueue m v n s =
     (case blocked_threads_head v of
        None \<Rightarrow> set_next n None (set_mutex m (v\<lparr>blocked_threads_head := Some n\<rparr>) s)
      | Some h \<Rightarrow>
          (case blocked_threads_tail v of
             None \<Rightarrow>
               (case set_next h (Some n) s of
                  None \<Rightarrow> None
                | Some s1 \<Rightarrow> set_next n None (set_mutex m (v\<lparr>blocked_threads_tail := Some n\<rparr>) s1))
           | Some old_tail \<Rightarrow>
               (case set_next n None (set_mutex m (v\<lparr>blocked_threads_tail := Some n\<rparr>) s) of
                  None \<Rightarrow> None
                | Some s1 \<Rightarrow> set_next old_tail (Some n) s1)))"

definition pthread_mutex_lock :: "u64 \<Rightarrow> nat \<Rightarrow> lib_state \<Rightarrow> (int option \<times> lib_state) option" where
  "pthread_mutex_lock guard m s0 =
     (let s = lock s0 in
      case mutexes s m of
        None \<Rightarrow> None
      | Some v \<Rightarrow>
          if locked v = 0
          then Some (Some 0,
                 unlock (set_status (current_tid s) TS_READY (set_mutex m (v\<lparr>locked := 1\<rparr>) s)))
          else (let s1 = set_status (current_tid s) TS_BLOCKED s;
                    (n, s2) = new_node \<lparr>node_tid = current_tid s, node_next = None\<rparr> s1
                in case enqueue m v n s2 of
                     None \<Rightarrow> None
                   | Some s3 \<Rightarrow>
                       (case schedule guard (set_frame Lock_Blocked s3) of
                          None \<Rightarrow> None
                        | Some s4 \<Rightarrow> Some (None, s4))))"

text \<open>The removal of the head node \<open>h\<close>, whose contents are \<open>n\<close>.\<close>

definition pop_head :: "nat \<Rightarrow> my_mutex_t \<Rightarrow> nat \<Rightarrow> Node \<Rightarrow> lib_state \<Rightarrow> my_mutex_t \<times> lib_state" where
  "pop_head m v h n s =
     (let s1 = s\<lparr>nodes := (nodes s)(h := None)\<rparr>;
          v1 = v\<lparr>blocked_threads_head := node_next n\<rparr>;
          v2 = (if node_next n = None then v1\<lparr>blocked_threads_tail := None\<rparr> else v1)
      in (v2, set_mutex m v2 s1))"

definition pthread_mutex_unlock :: "u64 \<Rightarrow> nat \<Rightarrow> lib_state \<Rightarrow> (int option \<times> lib_state) option" where
  "pthread_mutex_unlock guard m s0 =
     (let s = lock s0 in
      case mutexes s m of
        None \<Rightarrow> None
      | Some v \<Rightarrow>
          (case blocked_threads_head v of
             None \<Rightarrow> Some (Some 0, unlock (set_mutex m (v\<lparr>locked := 0\<rparr>) s))
           | Some h \<Rightarrow>
               (case nodes s h of
                  None \<Rightarrow> None
                | Some n \<Rightarrow>
                    if node_tid n \<ge> length (threads s) then None
                    else (let (v1, s1) = pop_head m v h n (set_status (node_tid n) TS_READY s);
                              v2 = (if blocked_threads_head v1 = None then v1\<lparr>locked := 0\<rparr> else v1);
                              s2 = unlock (set_mutex m v2 s1)
                          in case schedule guard (set_frame Unlock_Yield s2) of
                               None \<Rightarrow> None
                             | Some s3 \<Rightarrow> Some (None, s3)))))"

section \<open>Barriers\<close>

definition pthread_barrier_init :: "u32 \<Rightarrow> lib_state \<Rightarrow> nat \<times> lib_state" where
  "pthread_barrier_init count s =
     (next_addr s,
      s\<lparr>barriers := (barriers s)(next_addr s \<mapsto>
           \<lparr>barrier_count = sint count, threads_blocked = 0, Blocked_one = None, Blocked_two = None,
            barrier_init = 1, serialed = False\<rparr>),
        next_addr := Suc (next_addr s)\<rparr>)"

definition pthread_barrier_destroy :: "nat \<Rightarrow> lib_state \<Rightarrow> (int \<times> lib_state) option" where
  "pthread_barrier_destroy b s =
     (case barriers s b of
        None \<Rightarrow> None
      | Some v \<Rightarrow>
          if barrier_init v \<noteq> 1 \<or> threads_blocked v \<noteq> 0 then Some (-1, s)
          else Some (0, s\<lparr>barriers := (barriers s)(b := None)\<rparr>))"

text \<open>
  \<open>pthread_barrier_wait\<close> from the loop on: a round of the loop, the part between the loop and the
  last \<open>schedule\<close>, and the part after it.
\<close>

definition yield_in :: "u64 \<Rightarrow> frame \<Rightarrow> lib_state \<Rightarrow> (int option \<times> lib_state) option" where
  "yield_in guard f s =
     (case schedule guard (set_frame f s) of None \<Rightarrow> None | Some s1 \<Rightarrow> Some (None, s1))"

definition barrier_release :: "my_barrier_t \<Rightarrow> nat \<Rightarrow> lib_state \<Rightarrow> lib_state option" where
  "barrier_release v b s =
     (if barrier_init v = 0
      then (case Blocked_one v of
              None \<Rightarrow> None
            | Some a \<Rightarrow>
                (case nodes s a of
                   None \<Rightarrow> None
                 | Some n \<Rightarrow>
                     if node_tid n \<ge> length (threads s) then None
                     else (let s1 = set_status (node_tid n) TS_READY s
                           in Some (set_barrier b (v\<lparr>barrier_init := 1, Blocked_one := node_next n\<rparr>)
                                (s1\<lparr>nodes := (nodes s1)(a := None)\<rparr>)))))
      else Some s)"

definition barrier_loop :: "u64 \<Rightarrow> nat \<Rightarrow> lib_state \<Rightarrow> (int option \<times> lib_state) option" where
  "barrier_loop guard b s =
     (case barriers s b of
        None \<Rightarrow> None
      | Some v \<Rightarrow>
          if threads_blocked v < barrier_count v then yield_in guard (Barrier_Spin b) s
          else (case barrier_release v b (lock s) of
                  None \<Rightarrow> None
                | Some s1 \<Rightarrow> yield_in guard (Barrier_Leave b) (unlock s1)))"

definition PTHREAD_BARRIER_SERIAL_THREAD :: int where
  "PTHREAD_BARRIER_SERIAL_THREAD = -1"

definition barrier_leave :: "nat \<Rightarrow> lib_state \<Rightarrow> (int option \<times> lib_state) option" where
  "barrier_leave b s =
     (case barriers s b of
        None \<Rightarrow> None
      | Some v \<Rightarrow>
          (let v1 = v\<lparr>threads_blocked := 0, Blocked_one := None, barrier_init := 1, Blocked_two := None\<rparr>
           in if \<not> serialed v
              then Some (Some PTHREAD_BARRIER_SERIAL_THREAD,
                     set_frame User (set_barrier b (v1\<lparr>serialed := True\<rparr>) s))
              else Some (Some 0, set_frame User (set_barrier b v1 s))))"

text \<open>The branch in which the calling thread blocks, which is taken when \<open>init\<close> is not 1.\<close>

definition barrier_block :: "my_barrier_t \<Rightarrow> nat \<Rightarrow> lib_state \<Rightarrow> lib_state option" where
  "barrier_block v b s0 =
     (let s = set_status (current_tid s0) TS_BLOCKED (lock s0);
          (n, s1) = new_node \<lparr>node_tid = current_tid s, node_next = None\<rparr> s
      in case Blocked_one v of
           None \<Rightarrow> Some (unlock (set_barrier b (v\<lparr>Blocked_one := Some n, barrier_init := 0\<rparr>) s1))
         | Some _ \<Rightarrow>
             (case Blocked_two v of
                None \<Rightarrow> None
              | Some a \<Rightarrow>
                  (case set_next a (Some n) s1 of
                     None \<Rightarrow> None
                   | Some s2 \<Rightarrow>
                       Some (unlock (set_barrier b (v\<lparr>Blocked_two := Some n, barrier_init := 0\<rparr>) s2)))))"

definition pthread_barrier_wait :: "u64 \<Rightarrow> nat \<Rightarrow> lib_state \<Rightarrow> (int option \<times> lib_state) option" where
  "pthread_barrier_wait guard b s =
     (case barriers s b of
        None \<Rightarrow> None
      | Some v0 \<Rightarrow>
          if threads_blocked v0 = INT_MAX then None
          else (let v = v0\<lparr>threads_blocked := threads_blocked v0 + 1\<rparr>; s1 = set_barrier b v s
                in if barrier_init v \<noteq> 1
                   then (case barrier_block v b s1 of
                           None \<Rightarrow> None
                         | Some s2 \<Rightarrow> yield_in guard (Barrier_Enter b) s2)
                   else barrier_loop guard b s1))"

section \<open>Resuming a thread inside the library\<close>

definition resume :: "u64 \<Rightarrow> lib_state \<Rightarrow> (int option \<times> lib_state) option" where
  "resume guard s =
     (case frames s (current_tid s) of
        User \<Rightarrow> None
      | Handler f \<Rightarrow> Some (None, set_frame f (unlock s))
      | Joining t retval \<Rightarrow> pthread_join guard t retval s
      | Lock_Blocked \<Rightarrow> Some (Some (-1), set_frame User s)
      | Unlock_Yield \<Rightarrow> Some (Some 0, set_frame User s)
      | Barrier_Enter b \<Rightarrow> barrier_loop guard b s
      | Barrier_Spin b \<Rightarrow> barrier_loop guard b s
      | Barrier_Leave b \<Rightarrow> barrier_leave b s)"

definition alarm :: "u64 \<Rightarrow> lib_state \<Rightarrow> (int option \<times> lib_state) option" where
  "alarm guard s =
     (if timer_on s \<and> \<not> alarm_blocked s
      then yield_in guard (Handler (frames s (current_tid s))) s
      else None)"

section \<open>The calls of the library\<close>

datatype thread_call =
    Create u64 u64 u64
  | Exit u64
  | Self
  | Join nat u64
  | Mutex_init
  | Mutex_destroy nat
  | Mutex_lock nat
  | Mutex_unlock nat
  | Barrier_init u32
  | Barrier_destroy nat
  | Barrier_wait nat
  | Resume
  | Tick

text \<open>
  The environment of the library: the pointer guard, the addresses of \<open>start_thunk\<close> and
  \<open>pthread_exit\<close>, and the size that \<open>malloc (8)\<close> provides.
\<close>

record env =
  env_guard :: u64
  env_thunk :: u64
  env_exit :: u64
  env_usable :: nat

text \<open>
  One call by the current thread.  The result is \<open>None\<close> when the caller is switched out before the
  call returns, otherwise the value of the call; \<open>Mutex_init\<close> and \<open>Barrier_init\<close> give the address
  stored in the caller's object.  Calls come from user code, so the caller's frame is \<open>User\<close>.
\<close>

fun lib_call :: "env \<Rightarrow> thread_call \<Rightarrow> lib_state \<Rightarrow> (int option \<times> lib_state) option" where
  "lib_call e (Create stk start arg) s =
     (case pthread_create (env_guard e) (env_thunk e) (env_exit e) stk start arg s of
        None \<Rightarrow> None
      | Some (r, th, s1) \<Rightarrow> Some (Some (case th of None \<Rightarrow> r | Some t \<Rightarrow> int t), s1))"
| "lib_call e (Exit v) s = map_option (\<lambda>s1. (None, s1)) (pthread_exit (env_guard e) v s)"
| "lib_call e Self s = Some (Some (int (pthread_self s)), s)"
| "lib_call e (Join t retval) s = pthread_join (env_guard e) t retval s"
| "lib_call e Mutex_init s = map_option (\<lambda>(m, s1). (Some (int m), s1)) (pthread_mutex_init (env_usable e) s)"
| "lib_call e (Mutex_destroy m) s = map_option (\<lambda>(r, s1). (Some r, s1)) (pthread_mutex_destroy m s)"
| "lib_call e (Mutex_lock m) s = pthread_mutex_lock (env_guard e) m s"
| "lib_call e (Mutex_unlock m) s = pthread_mutex_unlock (env_guard e) m s"
| "lib_call e (Barrier_init n) s = (let (b, s1) = pthread_barrier_init n s in Some (Some (int b), s1))"
| "lib_call e (Barrier_destroy b) s = map_option (\<lambda>(r, s1). (Some r, s1)) (pthread_barrier_destroy b s)"
| "lib_call e (Barrier_wait b) s = pthread_barrier_wait (env_guard e) b s"
| "lib_call e Resume s = resume (env_guard e) s"
| "lib_call e Tick s = alarm (env_guard e) s"

definition lib_step :: "env \<Rightarrow> thread_call \<Rightarrow> lib_state \<Rightarrow> (int option \<times> lib_state) option" where
  "lib_step e c s =
     (if c \<in> {Resume, Tick} \<or> frames s (current_tid s) = User then lib_call e c s else None)"

end
