(* ===== verification/Threads_Inv.thy ===== *)
theory Threads_Inv
  imports Threads_Sched Sync
begin

text \<open>
  The invariant of the thread table and that every call of the library keeps it: thread identifiers
  are slot numbers, the slots in use are those below \<open>num_threads\<close>, the current thread is one of
  them, and only such threads wait in queues.
\<close>

section \<open>The invariant\<close>

definition alive :: "lib_state \<Rightarrow> nat \<Rightarrow> bool" where
  "alive s t \<longleftrightarrow> (if is_first_call s then t = 0 else t < num_threads s)"

definition slot_inv :: "lib_state \<Rightarrow> nat \<Rightarrow> thread_control_block \<Rightarrow> bool" where
  "slot_inv s t b \<longleftrightarrow>
     (alive s t \<longrightarrow> status b \<noteq> TS_EMPTY) \<and>
     (\<not> alive s t \<longrightarrow> status b = (if is_first_call s then TS_EXITED else TS_EMPTY)) \<and>
     tid b = (if is_first_call s then 0 else t) \<and>
     (stack b \<noteq> 0 \<longleftrightarrow> \<not> is_first_call s \<and> 1 \<le> t \<and> t < num_threads s)"

definition lib_inv :: "lib_state \<Rightarrow> bool" where
  "lib_inv s \<longleftrightarrow>
     table_ok s \<and> alive s (current_tid s) \<and>
     (if is_first_call s then num_threads s = 0 else 1 \<le> num_threads s \<and> num_threads s \<le> MAX_THREADS) \<and>
     (\<forall>t < MAX_THREADS. slot_inv s t (threads s ! t)) \<and>
     (\<forall>n \<in> ran (nodes s). alive s (node_tid n))"

text \<open>The parts of the state that the invariant does not mention.\<close>

lemma lib_inv_wrappers [simp]:
  "lib_inv (set_frame f s) = lib_inv s"
  "lib_inv (lock s) = lib_inv s"
  "lib_inv (unlock s) = lib_inv s"
  "lib_inv (set_mutex m v s) = lib_inv s"
  "lib_inv (set_barrier b w s) = lib_inv s"
  "lib_inv (s\<lparr>words := wm\<rparr>) = lib_inv s"
  "lib_inv (s\<lparr>stacks := st\<rparr>) = lib_inv s"
  "lib_inv (s\<lparr>mutexes := mm, next_addr := na\<rparr>) = lib_inv s"
  "lib_inv (s\<lparr>barriers := bm, next_addr := na\<rparr>) = lib_inv s"
  "lib_inv (s\<lparr>barriers := bm\<rparr>) = lib_inv s"
  by (simp_all add: lib_inv_def table_ok_def alive_def slot_inv_def set_frame_def lock_def unlock_def
      set_mutex_def set_barrier_def)

lemma wrapper_fields [simp]:
  "current_tid (set_frame f s) = current_tid s" "threads (set_frame f s) = threads s"
  "nodes (set_frame f s) = nodes s" "mutexes (set_frame f s) = mutexes s"
  "barriers (set_frame f s) = barriers s"
  "current_tid (lock s) = current_tid s" "threads (lock s) = threads s" "nodes (lock s) = nodes s"
  "mutexes (lock s) = mutexes s" "barriers (lock s) = barriers s" "frames (lock s) = frames s"
  "current_tid (unlock s) = current_tid s" "threads (unlock s) = threads s"
  "nodes (unlock s) = nodes s" "mutexes (unlock s) = mutexes s" "barriers (unlock s) = barriers s"
  "frames (unlock s) = frames s"
  "current_tid (set_mutex m v s) = current_tid s" "threads (set_mutex m v s) = threads s"
  "nodes (set_mutex m v s) = nodes s" "mutexes (set_mutex m v s) = (mutexes s)(m \<mapsto> v)"
  "barriers (set_mutex m v s) = barriers s" "frames (set_mutex m v s) = frames s"
  "current_tid (set_barrier b w s) = current_tid s" "threads (set_barrier b w s) = threads s"
  "nodes (set_barrier b w s) = nodes s" "mutexes (set_barrier b w s) = mutexes s"
  "barriers (set_barrier b w s) = (barriers s)(b \<mapsto> w)" "frames (set_barrier b w s) = frames s"
  "nodes (set_status t st s) = nodes s" "mutexes (set_status t st s) = mutexes s"
  "barriers (set_status t st s) = barriers s" "frames (set_status t st s) = frames s"
  by (simp_all add: set_frame_def lock_def unlock_def set_mutex_def set_barrier_def set_status_def)

lemma alive_wrappers [simp]:
  "alive (set_frame f s) = alive s" "alive (lock s) = alive s" "alive (unlock s) = alive s"
  "alive (set_mutex m v s) = alive s" "alive (set_barrier b w s) = alive s"
  "alive (set_status t st s) = alive s"
  by (simp_all add: fun_eq_iff alive_def set_frame_def lock_def unlock_def set_mutex_def set_barrier_def
      set_status_def)

lemma lib_inv_current: "lib_inv s \<Longrightarrow> alive s (current_tid s)"
  by (simp add: lib_inv_def)

lemma lib_inv_table_ok: "lib_inv s \<Longrightarrow> table_ok s"
  by (simp add: lib_inv_def)

lemma alive_lt: "lib_inv s \<Longrightarrow> alive s t \<Longrightarrow> t < MAX_THREADS"
  by (auto simp: lib_inv_def alive_def split: if_splits)

lemma lib_inv_slot: "lib_inv s \<Longrightarrow> t < MAX_THREADS \<Longrightarrow> slot_inv s t (threads s ! t)"
  by (simp add: lib_inv_def)

section \<open>Steps that keep it\<close>

lemma lib_inv_set_status:
  assumes "lib_inv s" "alive s t" "st \<noteq> TS_EMPTY"
  shows "lib_inv (set_status t st s)"
  using assms
  by (auto simp: lib_inv_def table_ok_def set_status_def alive_def slot_inv_def nth_list_update split: if_splits)

lemma lib_inv_switched:
  assumes "lib_inv s" "u < MAX_THREADS" "runnable s u" "switched guard u s s'"
  shows "lib_inv s'"
proof -
  have eqs: "is_first_call s' = is_first_call s" "num_threads s' = num_threads s" "nodes s' = nodes s"
    using switched_fields [OF assms(4)] by simp_all
  have "alive s u"
    using assms(1-3) lib_inv_slot [OF assms(1,2)]
    by (auto simp: runnable_def slot_inv_def status_of_def lib_inv_def split: if_splits)
  moreover have "table_ok s'" using switched_table_ok assms lib_inv_table_ok by blast
  moreover have "slot_inv s' t (threads s' ! t)" if "t < MAX_THREADS" for t
    using lib_inv_slot [OF assms(1) that] assms(4) that eqs \<open>alive s u\<close> lib_inv_current [OF assms(1)]
    by (auto simp: slot_inv_def switched_def status_of_def alive_def split: if_splits)
  ultimately show ?thesis
    using assms(1,4) eqs by (auto simp: lib_inv_def alive_def switched_def)
qed

lemma lib_inv_schedule:
  assumes "lib_inv s" "schedule guard s = Some s'"
  shows "lib_inv s'"
proof -
  obtain d where "d < MAX_THREADS" "first_after s d" "switched guard (after (current_tid s) d) s s'"
    using schedule_SomeE [OF lib_inv_table_ok [OF assms(1)] assms(2)] .
  then show ?thesis using lib_inv_switched [OF assms(1) after_lt] unfolding first_after_def by blast
qed

section \<open>The node heap\<close>

lemma lib_inv_nodes:
  assumes "lib_inv s" "\<And>n. n \<in> ran h \<Longrightarrow> alive s (node_tid n)"
  shows "lib_inv (s\<lparr>nodes := h\<rparr>)"
  using assms by (auto simp: lib_inv_def table_ok_def alive_def slot_inv_def)

lemma lib_inv_node_alive: "lib_inv s \<Longrightarrow> nodes s a = Some n \<Longrightarrow> alive s (node_tid n)"
  by (auto simp: lib_inv_def ran_def)

lemma lib_inv_free_node: "lib_inv s \<Longrightarrow> lib_inv (s\<lparr>nodes := (nodes s)(a := None)\<rparr>)"
  by (rule lib_inv_nodes) (auto simp: ran_def dest: lib_inv_node_alive split: if_splits)

lemma lib_inv_new_node:
  assumes "lib_inv s" "alive s (node_tid n)" "new_node n s = (a, s')"
  shows "lib_inv s'"
proof -
  have "lib_inv (s\<lparr>nodes := (nodes s)(next_addr s \<mapsto> n)\<rparr>)"
    using assms(1,2) by (intro lib_inv_nodes) (auto simp: ran_def dest: lib_inv_node_alive split: if_splits)
  then show ?thesis using assms(3) by (auto simp: new_node_def lib_inv_def table_ok_def alive_def slot_inv_def)
qed

lemma new_node_fields:
  assumes "new_node n s = (a, s')"
  shows "current_tid s' = current_tid s" "threads s' = threads s" "alive s' = alive s"
    "mutexes s' = mutexes s" "barriers s' = barriers s" "a = next_addr s"
    "nodes s' = (nodes s)(a \<mapsto> n)" "frames s' = frames s" "next_addr s' = Suc (next_addr s)"
  using assms by (auto simp: new_node_def alive_def fun_eq_iff)

lemma set_next_SomeE:
  assumes "set_next a nxt s = Some s'"
  obtains n where "nodes s a = Some n" "s' = s\<lparr>nodes := (nodes s)(a \<mapsto> n\<lparr>node_next := nxt\<rparr>)\<rparr>"
  using assms by (auto simp: set_next_def split: option.splits)

lemma lib_inv_set_next: "lib_inv s \<Longrightarrow> set_next a nxt s = Some s' \<Longrightarrow> lib_inv s'"
  by (erule set_next_SomeE, simp only:, rule lib_inv_nodes)
    (auto simp: ran_def dest: lib_inv_node_alive split: if_splits)

lemma free_nodes_sub: "free_nodes p h = Some h' \<Longrightarrow> h' \<subseteq>\<^sub>m h"
  by (rule free_nodes.raw_induct [where P = "\<lambda>p h h'. h' \<subseteq>\<^sub>m h", rotated])
    (auto split: option.splits intro: map_le_trans [OF _ upd_None_map_le])

lemma lib_inv_free_nodes:
  "lib_inv s \<Longrightarrow> free_nodes p (nodes s) = Some h \<Longrightarrow> lib_inv (s\<lparr>nodes := h\<rparr>)"
  by (rule lib_inv_nodes, assumption)
    (auto simp: ran_def map_le_def dom_def dest!: free_nodes_sub dest: lib_inv_node_alive, metis lib_inv_node_alive)

lemma lib_inv_enqueue: "lib_inv s \<Longrightarrow> enqueue m v n s = Some s' \<Longrightarrow> lib_inv s'"
  by (auto simp: enqueue_def split: option.splits dest: lib_inv_set_next elim!: lib_inv_set_next [rotated])

section \<open>Every call\<close>

lemma lib_inv_yield_in: "lib_inv s \<Longrightarrow> yield_in guard f s = Some (r, s') \<Longrightarrow> lib_inv s'"
  by (auto simp: yield_in_def split: option.splits dest: lib_inv_schedule [rotated])

lemma lib_inv_exit_value:
  assumes "lib_inv s"
  shows "lib_inv (s\<lparr>threads := (threads s)[t := (threads s ! t)\<lparr>exit_status := v\<rparr>], exited_string := k, timer_on := on\<rparr>)"
  using assms
  by (simp add: lib_inv_def table_ok_def alive_def slot_inv_def attr_list_update
      cong: if_cong del: One_nat_def split del: if_split)

lemma lib_inv_exit:
  assumes "lib_inv s" "pthread_exit guard v s = Some s'"
  shows "lib_inv s'"
proof -
  have "lib_inv (set_status (current_tid s) TS_EXITED s)"
    using assms(1) by (simp add: lib_inv_set_status lib_inv_current)
  from lib_inv_exit_value [OF this] show ?thesis
    using assms(2) lib_inv_schedule by (simp add: pthread_exit_def Let_def) blast
qed

lemma lib_inv_free_stack: "lib_inv s \<Longrightarrow> free_stack p s = Some s' \<Longrightarrow> lib_inv s'"
  by (auto simp: free_stack_def split: if_splits)

lemma lib_inv_join: "lib_inv s \<Longrightarrow> pthread_join guard t rv s = Some (r, s') \<Longrightarrow> lib_inv s'"
  by (auto simp: pthread_join_def split: if_splits option.splits dest: lib_inv_free_stack lib_inv_schedule [rotated])

lemma lib_inv_mutex_init: "lib_inv s \<Longrightarrow> pthread_mutex_init us s = Some (m, s') \<Longrightarrow> lib_inv s'"
  by (auto simp: pthread_mutex_init_def split: if_splits)

lemma lib_inv_mutex_destroy:
  assumes "lib_inv s" "pthread_mutex_destroy m s = Some (r, s')"
  shows "lib_inv s'"
proof -
  have "lib_inv (s\<lparr>nodes := h, mutexes := mm\<rparr>)" if "lib_inv (s\<lparr>nodes := h\<rparr>)" for h mm
    using that by (auto simp: lib_inv_def table_ok_def alive_def slot_inv_def)
  then show ?thesis
    using assms by (auto simp: pthread_mutex_destroy_def split: option.splits if_splits dest: lib_inv_free_nodes)
qed

text \<open>The two branches of \<open>pthread_mutex_lock\<close> and of \<open>pthread_mutex_unlock\<close>.\<close>

lemma lock_SomeE:
  assumes "pthread_mutex_lock guard m s = Some (r, s')"
  obtains (free) v where "mutexes s m = Some v" "locked v = 0" "r = Some 0"
      "s' = unlock (set_status (current_tid s) TS_READY (set_mutex m (v\<lparr>locked := 1\<rparr>) (lock s)))"
  | (contended) v n s2 s3 where "mutexes s m = Some v" "locked v \<noteq> 0" "r = None"
      "new_node \<lparr>node_tid = current_tid s, node_next = None\<rparr> (set_status (current_tid s) TS_BLOCKED (lock s)) = (n, s2)"
      "enqueue m v n s2 = Some s3" "schedule guard (set_frame Lock_Blocked s3) = Some s'"
  using assms that by (fastforce simp: pthread_mutex_lock_def Let_def split: option.splits if_splits prod.splits)

lemma unlock_SomeE:
  assumes "pthread_mutex_unlock guard m s = Some (r, s')"
  obtains (alone) v where "mutexes s m = Some v" "blocked_threads_head v = None" "r = Some 0"
      "s' = unlock (set_mutex m (v\<lparr>locked := 0\<rparr>) (lock s))"
  | (wakes) v h n v1 s1 where "mutexes s m = Some v" "blocked_threads_head v = Some h" "r = None"
      "nodes s h = Some n" "node_tid n < length (threads s)"
      "pop_head m v h n (set_status (node_tid n) TS_READY (lock s)) = (v1, s1)"
      "schedule guard (set_frame Unlock_Yield (unlock (set_mutex m
         (if blocked_threads_head v1 = None then v1\<lparr>locked := 0\<rparr> else v1) s1))) = Some s'"
  using assms that by (fastforce simp: pthread_mutex_unlock_def Let_def split: option.splits if_splits prod.splits)

lemma lib_inv_lock:
  assumes "lib_inv s" "pthread_mutex_lock guard m s = Some (r, s')"
  shows "lib_inv s'"
  using assms(2)
proof (cases rule: lock_SomeE)
  case (free v)
  then show ?thesis using assms(1) by (simp add: lib_inv_set_status lib_inv_current)
next
  case (contended v n s2 s3)
  have "lib_inv (set_status (current_tid s) TS_BLOCKED (lock s))"
    using assms(1) by (simp add: lib_inv_set_status lib_inv_current)
  then have "lib_inv s2" using lib_inv_new_node [OF _ _ contended(4)] assms(1) by (simp add: lib_inv_current)
  then have "lib_inv s3" using contended(5) by (rule lib_inv_enqueue)
  then show ?thesis using lib_inv_schedule [OF _ contended(6)] by simp
qed

lemma lib_inv_pop_head: "lib_inv s \<Longrightarrow> pop_head m v h n s = (v', s') \<Longrightarrow> lib_inv s'"
  by (auto simp: pop_head_def Let_def lib_inv_free_node)

lemma lib_inv_unlock:
  assumes "lib_inv s" "pthread_mutex_unlock guard m s = Some (r, s')"
  shows "lib_inv s'"
  using assms(2)
proof (cases rule: unlock_SomeE)
  case (alone v)
  then show ?thesis using assms(1) by simp
next
  case (wakes v h n v1 s1)
  have "lib_inv (set_status (node_tid n) TS_READY (lock s))"
    using assms(1) lib_inv_node_alive [OF assms(1) wakes(4)] by (simp add: lib_inv_set_status)
  then have "lib_inv s1" using wakes(6) by (rule lib_inv_pop_head)
  then show ?thesis using lib_inv_schedule [OF _ wakes(7)] by simp
qed

lemma lib_inv_barrier_release:
  assumes "lib_inv s" "barrier_release v b s = Some s'"
  shows "lib_inv s'"
proof -
  have "lib_inv (t\<lparr>nodes := (nodes t)(a := None)\<rparr>)" if "t = set_status (node_tid n) TS_READY s" "nodes s a = Some n" for t a n
    using lib_inv_free_node [of t a] lib_inv_set_status [OF assms(1) lib_inv_node_alive [OF assms(1) that(2)]] that(1)
    by simp
  then show ?thesis
    using assms by (auto simp: barrier_release_def Let_def split: option.splits if_splits)
qed

lemma lib_inv_barrier_loop: "lib_inv s \<Longrightarrow> barrier_loop guard b s = Some (r, s') \<Longrightarrow> lib_inv s'"
  by (auto simp: barrier_loop_def split: option.splits if_splits
      dest!: lib_inv_barrier_release [rotated] dest: lib_inv_yield_in [rotated])

lemma lib_inv_barrier_leave: "lib_inv s \<Longrightarrow> barrier_leave b s = Some (r, s') \<Longrightarrow> lib_inv s'"
  by (auto simp: barrier_leave_def Let_def split: option.splits if_splits)

lemma lib_inv_barrier_block:
  assumes "lib_inv s" "barrier_block v b s = Some s'"
  shows "lib_inv s'"
proof -
  let ?s1 = "set_status (current_tid s) TS_BLOCKED (lock s)"
  obtain n s2 where n: "new_node \<lparr>node_tid = current_tid s, node_next = None\<rparr> ?s1 = (n, s2)" by fastforce
  have "lib_inv ?s1" using assms(1) lib_inv_current by (simp add: lib_inv_set_status)
  then have "lib_inv s2" using lib_inv_new_node [OF _ _ n] assms(1) by (simp add: lib_inv_current)
  with n assms(2) show ?thesis
    by (auto simp: barrier_block_def Let_def split: option.splits dest: lib_inv_set_next)
qed

lemma lib_inv_barrier_wait: "lib_inv s \<Longrightarrow> pthread_barrier_wait guard b s = Some (r, s') \<Longrightarrow> lib_inv s'"
  by (auto simp: pthread_barrier_wait_def Let_def split: option.splits if_splits
      dest!: lib_inv_barrier_block [rotated] dest: lib_inv_yield_in [rotated] lib_inv_barrier_loop [rotated])

lemma lib_inv_resume: "lib_inv s \<Longrightarrow> resume guard s = Some (r, s') \<Longrightarrow> lib_inv s'"
  by (auto simp: resume_def split: frame.splits dest: lib_inv_join lib_inv_barrier_loop lib_inv_barrier_leave)

end
