(* ===== verification/Threads_Create.thy ===== *)
theory Threads_Create
  imports Threads_Inv
begin

text \<open>
  Thread creation: the slot that \<open>pthread_create\<close> takes, the registers of the new thread, and the
  library as a system of calls whose supply of slots only shrinks.
\<close>

section \<open>The first call\<close>

lemma threads_first_call:
  assumes "lib_inv s" "is_first_call s" "t < MAX_THREADS"
  shows "threads (first_call guard s) ! t =
    (let b = init_tcb t (threads s ! t)
     in if t = 0 then b\<lparr>status := TS_READY, regs := setjmp guard (machine s) (regs b)\<rparr> else b)"
  using assms
  by (auto simp: first_call_def scheduler_init_def set_status_def Let_def lib_inv_def table_ok_def nth_list_update)

lemma first_call_fields [simp]:
  "current_tid (first_call guard s) = current_tid s"
  "\<not> is_first_call (first_call guard s)"
  "is_first_call s \<Longrightarrow> num_threads (first_call guard s) = 1"
  "nodes (first_call guard s) = nodes s"
  "mutexes (first_call guard s) = mutexes s"
  "barriers (first_call guard s) = barriers s"
  "frames (first_call guard s) = frames s"
  "stacks (first_call guard s) = stacks s"
  "words (first_call guard s) = words s"
  "machine (first_call guard s) = machine s"
  "next_addr (first_call guard s) = next_addr s"
  by (auto simp: first_call_def scheduler_init_def set_status_def Let_def)

lemma first_call_again [simp]: "\<not> is_first_call s \<Longrightarrow> first_call guard s = s"
  by (simp add: first_call_def)

lemma length_first_call: "lib_inv s \<Longrightarrow> length (threads (first_call guard s)) = MAX_THREADS"
  by (auto simp: first_call_def scheduler_init_def set_status_def Let_def lib_inv_def table_ok_def)

lemma lib_inv_first_call:
  assumes "lib_inv s"
  shows "lib_inv (first_call guard s)"
proof (cases "is_first_call s")
  case True
  have cur: "current_tid s = 0" using assms True by (simp add: lib_inv_def alive_def)
  have "slot_inv (first_call guard s) t (threads (first_call guard s) ! t)" if "t < MAX_THREADS" for t
    using threads_first_call [OF assms True that] True by (simp add: slot_inv_def alive_def init_tcb_def Let_def)
  moreover have "table_ok (first_call guard s)"
    using assms True threads_first_call [OF assms True] length_first_call [OF assms]
    by (auto simp: table_ok_def lib_inv_def init_tcb_def Let_def)
  moreover have "\<forall>n \<in> ran (nodes s). node_tid n = 0" using assms True by (simp add: lib_inv_def alive_def)
  ultimately show ?thesis using True cur by (simp add: lib_inv_def alive_def MAX_THREADS_def)
qed (use assms in simp)

section \<open>The slot of a new thread\<close>

lemma free_tid_eq:
  assumes "lib_inv s" "\<not> is_first_call s" "num_threads s < MAX_THREADS"
  shows "free_tid (threads s) = num_threads s"
proof -
  have st: "stack (threads s ! t) = 0 \<longleftrightarrow> t = 0 \<or> num_threads s \<le> t" if "t < MAX_THREADS" for t
  proof -
    have "stack (threads s ! t) \<noteq> 0 \<longleftrightarrow> \<not> is_first_call s \<and> 1 \<le> t \<and> t < num_threads s"
      using lib_inv_slot [OF assms(1) that] unfolding slot_inv_def by (elim conjE)
    moreover have "t = 0 \<or> num_threads s \<le> t \<longleftrightarrow> \<not> (1 \<le> t \<and> t < num_threads s)" by linarith
    ultimately show ?thesis using assms(2) by blast
  qed
  have num: "1 \<le> num_threads s" "length (threads s) = MAX_THREADS"
    using assms(1,2) by (simp_all add: lib_inv_def table_ok_def)
  then have "find_slot (\<lambda>b. stack b = 0) (tl (threads s)) = Some (num_threads s - 1)"
  proof (subst find_slot_Some_iff, intro conjI allI impI)
    show "num_threads s - 1 < length (tl (threads s))" using num assms(3) by simp
    show "stack (tl (threads s) ! (num_threads s - 1)) = 0" using num assms(3) st by (simp add: nth_tl)
    show "stack (tl (threads s) ! j) \<noteq> 0" if "j < num_threads s - 1" for j
      using that num assms(3) st [of "Suc j"] by (simp add: nth_tl)
  qed
  then show ?thesis using num(1) by (simp add: free_tid_def)
qed

text \<open>The control block of a new thread, and the state that \<open>pthread_create\<close> leaves.\<close>

definition stack_top :: "u64 \<Rightarrow> u64" where
  "stack_top stk = stk + THREAD_STACK_SIZE - 8"

definition new_tcb :: "u64 \<Rightarrow> u64 \<Rightarrow> u64 \<Rightarrow> u64 \<Rightarrow> u64 \<Rightarrow> nat \<Rightarrow> thread_control_block \<Rightarrow> thread_control_block" where
  "new_tcb guard thunk stk start arg t b =
     b\<lparr>regs := new_thread_regs guard thunk start arg (stack_top stk) (regs b), stack := stk,
       status := TS_READY, tid := t\<rparr>"

definition with_thread :: "u64 \<Rightarrow> u64 \<Rightarrow> u64 \<Rightarrow> u64 \<Rightarrow> u64 \<Rightarrow> u64 \<Rightarrow> lib_state \<Rightarrow> lib_state" where
  "with_thread guard thunk exit_addr stk start arg s =
     (let t = num_threads s
      in s\<lparr>threads := (threads s)[t := new_tcb guard thunk stk start arg t (threads s ! t)],
           words := (words s)(stack_top stk := exit_addr), stacks := stk # stacks s,
           num_threads := Suc t\<rparr>)"

lemma pthread_create_eq:
  assumes "lib_inv s0"
  shows "pthread_create guard thunk exit_addr stk start arg s0 =
    (let s = first_call guard s0
     in if num_threads s \<ge> MAX_THREADS then Some (-1, None, s)
        else if stk = 0 then None
        else Some (0, Some (num_threads s), with_thread guard thunk exit_addr stk start arg s))"
proof -
  let ?s = "first_call guard s0"
  have inv: "lib_inv ?s" using assms by (rule lib_inv_first_call)
  then have "length (threads ?s) = MAX_THREADS" by (simp add: lib_inv_def table_ok_def)
  then show ?thesis
    using free_tid_eq [OF inv]
    by (auto simp: pthread_create_def create_scan_def create_fill_def with_thread_def new_tcb_def stack_top_def Let_def)
qed

lemma length_new_thread_regs [simp]: "length (new_thread_regs guard thunk start arg sp buf) = length buf"
  by (simp add: new_thread_regs_def)

lemma with_thread_fields [simp]:
  "current_tid (with_thread guard thunk ex stk start arg s) = current_tid s"
  "nodes (with_thread guard thunk ex stk start arg s) = nodes s"
  "mutexes (with_thread guard thunk ex stk start arg s) = mutexes s"
  "barriers (with_thread guard thunk ex stk start arg s) = barriers s"
  "frames (with_thread guard thunk ex stk start arg s) = frames s"
  "is_first_call (with_thread guard thunk ex stk start arg s) = is_first_call s"
  "num_threads (with_thread guard thunk ex stk start arg s) = Suc (num_threads s)"
  "machine (with_thread guard thunk ex stk start arg s) = machine s"
  "length (threads (with_thread guard thunk ex stk start arg s)) = length (threads s)"
  "next_addr (with_thread guard thunk ex stk start arg s) = next_addr s"
  by (simp_all add: with_thread_def Let_def)

lemma threads_with_thread:
  assumes "num_threads s < length (threads s)"
  shows "threads (with_thread guard thunk ex stk start arg s) ! t =
    (if t = num_threads s then new_tcb guard thunk stk start arg t (threads s ! t) else threads s ! t)"
  using assms by (auto simp: with_thread_def Let_def nth_list_update)

lemma lib_inv_with_thread:
  assumes "lib_inv s" "\<not> is_first_call s" "num_threads s < MAX_THREADS" "stk \<noteq> 0"
  shows "lib_inv (with_thread guard thunk ex stk start arg s)"
proof -
  let ?w = "with_thread guard thunk ex stk start arg s"
  have len: "length (threads s) = MAX_THREADS" and num: "1 \<le> num_threads s"
    using assms(1,2) by (simp_all add: lib_inv_def table_ok_def)
  have "slot_inv ?w t (threads ?w ! t)" if "t < MAX_THREADS" for t
  proof (cases "t = num_threads s")
    case True
    then show ?thesis
      using assms(2-4) len num by (simp add: slot_inv_def threads_with_thread new_tcb_def alive_def)
  next
    case False
    then have "t < Suc (num_threads s) \<longleftrightarrow> t < num_threads s" by linarith
    then show ?thesis
      using False lib_inv_slot [OF assms(1) that] assms(2,3) len
      by (simp add: slot_inv_def threads_with_thread alive_def)
  qed
  moreover have "table_ok ?w"
    using assms(1,3) len by (auto simp: table_ok_def lib_inv_def threads_with_thread new_tcb_def)
  ultimately show ?thesis
    using assms(1-3) by (auto simp: lib_inv_def alive_def intro: less_SucI)
qed

lemma lib_inv_create:
  assumes "lib_inv s" "pthread_create guard thunk ex stk start arg s = Some (r, th, s')"
  shows "lib_inv s'"
  using assms lib_inv_first_call [OF assms(1), of guard]
  by (auto simp: pthread_create_eq Let_def lib_inv_with_thread split: if_splits)

section \<open>The library as a system of calls\<close>

lemma lib_inv_step:
  assumes "lib_inv s" "lib_step e c s = Some (r, s')"
  shows "lib_inv s'"
proof -
  have step: "lib_call e c s = Some (r, s')" using assms(2) by (simp add: lib_step_def split: if_splits)
  show ?thesis
  proof (cases c)
    case (Create stk start arg)
    then show ?thesis using step lib_inv_create [OF assms(1)] by (auto split: option.splits)
  next
    case (Exit v)
    then show ?thesis using step lib_inv_exit [OF assms(1)] by auto
  next
    case Self
    then show ?thesis using step assms(1) by auto
  next
    case (Join t rv)
    then show ?thesis using step lib_inv_join [OF assms(1)] by auto
  next
    case Mutex_init
    then show ?thesis using step lib_inv_mutex_init [OF assms(1)] by auto
  next
    case (Mutex_destroy m)
    then show ?thesis using step lib_inv_mutex_destroy [OF assms(1)] by auto
  next
    case (Mutex_lock m)
    then show ?thesis using step lib_inv_lock [OF assms(1)] by auto
  next
    case (Mutex_unlock m)
    then show ?thesis using step lib_inv_unlock [OF assms(1)] by auto
  next
    case (Barrier_init n)
    then show ?thesis using step assms(1) by (auto simp: pthread_barrier_init_def)
  next
    case (Barrier_destroy b)
    then show ?thesis using step assms(1) by (auto simp: pthread_barrier_destroy_def split: option.splits if_splits)
  next
    case (Barrier_wait b)
    then show ?thesis using step lib_inv_barrier_wait [OF assms(1)] by auto
  next
    case Resume
    then show ?thesis using step lib_inv_resume [OF assms(1)] by auto
  next
    case Tick
    then show ?thesis using step lib_inv_yield_in [OF assms(1)] by (auto simp: alarm_def split: if_splits)
  qed
qed

lemma lib_inv_start: "lib_inv (lib_start c)"
  by (simp add: lib_inv_def lib_start_def table_ok_def alive_def slot_inv_def zero_tcb_def)

text \<open>Slots that are taken, the main thread's included.\<close>

definition slots_used :: "lib_state \<Rightarrow> nat" where
  "slots_used s = (if is_first_call s then 1 else num_threads s)"

definition thread_creates :: "thread_call \<Rightarrow> int option \<Rightarrow> bool" where
  "thread_creates c r = (case c of Create _ _ _ \<Rightarrow> (\<exists>t. r = Some t \<and> 0 \<le> t) | _ \<Rightarrow> False)"

lemma slots_used_le: "lib_inv s \<Longrightarrow> slots_used s \<le> MAX_THREADS"
  by (auto simp: slots_used_def lib_inv_def MAX_THREADS_def split: if_splits)

lemma slots_used_cong:
  "is_first_call s' = is_first_call s \<Longrightarrow> num_threads s' = num_threads s \<Longrightarrow> slots_used s' = slots_used s"
  by (simp add: slots_used_def)

lemma slots_used_wrappers [simp]:
  "slots_used (set_frame f s) = slots_used s" "slots_used (lock s) = slots_used s"
  "slots_used (unlock s) = slots_used s" "slots_used (set_mutex m v s) = slots_used s"
  "slots_used (set_barrier b w s) = slots_used s" "slots_used (set_status t st s) = slots_used s"
  by (simp_all add: slots_used_def set_frame_def lock_def unlock_def set_mutex_def set_barrier_def set_status_def)

lemma schedule_fields:
  assumes "table_ok s" "schedule guard s = Some s'"
  shows "is_first_call s' = is_first_call s" "num_threads s' = num_threads s" "frames s' = frames s"
    "nodes s' = nodes s" "mutexes s' = mutexes s" "barriers s' = barriers s" "next_addr s' = next_addr s"
    "stacks s' = stacks s" "words s' = words s"
  using schedule_SomeE [OF assms] switched_fields by metis+

lemma slots_used_create:
  assumes "lib_inv s" "pthread_create guard thunk ex stk start arg s = Some (r, th, s')"
  shows "slots_used s' = slots_used s + (if th = None then 0 else 1)" "th = None \<longleftrightarrow> r = -1"
  using assms by (auto simp: pthread_create_eq Let_def slots_used_def split: if_splits)

end
