(* ===== verification/Wait_Queue.thy ===== *)
theory Wait_Queue
  imports Threads_Inv
begin

text \<open>
  The queue of threads that wait for a mutex: the linked nodes between \<open>blocked_threads_head\<close> and
  \<open>blocked_threads_tail\<close> implement a first-in first-out list of thread identifiers.
\<close>

section \<open>The interface of a queue\<close>

locale wait_queue =
  fixes rep :: "'s \<Rightarrow> 'a list \<Rightarrow> bool"
    and put :: "'a \<Rightarrow> 's \<Rightarrow> 's option"
    and get :: "'s \<Rightarrow> ('a \<times> 's) option"
  assumes put_rep: "rep s xs \<Longrightarrow> \<exists>s'. put x s = Some s' \<and> rep s' (xs @ [x])"
    and get_rep: "rep s (x # xs) \<Longrightarrow> \<exists>s'. get s = Some (x, s') \<and> rep s' xs"
    and get_empty: "rep s [] \<Longrightarrow> get s = None"
begin

primrec put_all :: "'a list \<Rightarrow> 's \<Rightarrow> 's option" where
  "put_all [] s = Some s"
| "put_all (x # xs) s = (case put x s of None \<Rightarrow> None | Some s1 \<Rightarrow> put_all xs s1)"

primrec get_all :: "nat \<Rightarrow> 's \<Rightarrow> ('a list \<times> 's) option" where
  "get_all 0 s = Some ([], s)"
| "get_all (Suc n) s =
     (case get s of
        None \<Rightarrow> None
      | Some (x, s1) \<Rightarrow> map_option (\<lambda>(xs, s2). (x # xs, s2)) (get_all n s1))"

lemma put_all_rep: "rep s xs \<Longrightarrow> \<exists>s'. put_all ys s = Some s' \<and> rep s' (xs @ ys)"
proof (induction ys arbitrary: s xs)
  case (Cons y ys)
  obtain s1 where s1: "put y s = Some s1" "rep s1 (xs @ [y])" using put_rep [OF Cons.prems] by blast
  with Cons.IH [OF s1(2)] show ?case by auto
qed simp

lemma get_all_rep: "rep s (xs @ ys) \<Longrightarrow> \<exists>s'. get_all (length xs) s = Some (xs, s') \<and> rep s' ys"
proof (induction xs arbitrary: s)
  case (Cons x xs)
  then obtain s1 where "get s = Some (x, s1)" "rep s1 (xs @ ys)" using get_rep [of s x "xs @ ys"] by auto
  with Cons.IH [of s1] show ?case by auto
qed simp

lemma first_in_first_out:
  assumes "rep s []"
  shows "\<exists>s1 s2. put_all xs s = Some s1 \<and> get_all (length xs) s1 = Some (xs, s2) \<and> rep s2 [] \<and> get s2 = None"
proof -
  obtain s1 where "put_all xs s = Some s1" "rep s1 (xs @ [])" using put_all_rep [OF assms, of xs] by auto
  with get_all_rep [of s1 xs "[]"] get_empty show ?thesis by auto
qed

end

section \<open>Chains of nodes\<close>

fun chain :: "(nat \<rightharpoonup> Node) \<Rightarrow> nat option \<Rightarrow> nat list \<Rightarrow> bool" where
  "chain h p [] \<longleftrightarrow> p = None"
| "chain h p (a # as) \<longleftrightarrow> p = Some a \<and> (\<exists>n. h a = Some n \<and> chain h (node_next n) as)"

definition tail_ok :: "nat list \<Rightarrow> nat option \<Rightarrow> bool" where
  "tail_ok as q \<longleftrightarrow>
     (case as of [] \<Rightarrow> q = None | [a] \<Rightarrow> q = None \<or> q = Some a | _ \<Rightarrow> q = Some (last as))"

definition tid_at :: "(nat \<rightharpoonup> Node) \<Rightarrow> nat \<Rightarrow> nat" where
  "tid_at h a = node_tid (the (h a))"

lemma chain_None [simp]: "chain h None as \<longleftrightarrow> as = []"
  by (cases as) simp_all

lemma chain_code [code]:
  "chain h p [] \<longleftrightarrow> p = None"
  "chain h p (a # as) \<longleftrightarrow>
     p = Some a \<and> (case h a of None \<Rightarrow> False | Some n \<Rightarrow> chain h (node_next n) as)"
  by (auto split: option.splits)

lemma chain_SomeE:
  assumes "chain h (Some a) as"
  obtains n bs where "as = a # bs" "h a = Some n" "chain h (node_next n) bs"
  using assms by (cases as) auto

lemma chain_dom: "chain h p as \<Longrightarrow> a \<in> set as \<Longrightarrow> \<exists>n. h a = Some n"
  by (induction as arbitrary: p) auto

lemma chain_upd [simp]: "a \<notin> set as \<Longrightarrow> chain (h(a := x)) p as \<longleftrightarrow> chain h p as"
  by (induction as arbitrary: p) auto

lemma chain_unique: "chain h p as \<Longrightarrow> chain h p bs \<Longrightarrow> as = bs"
proof (induction as arbitrary: p bs)
  case Nil
  then show ?case by (cases bs) auto
next
  case (Cons a as)
  then show ?case by (cases bs) auto
qed

text \<open>Linking a new last node.\<close>

lemma chain_snoc:
  assumes "chain h p as" "as \<noteq> []" "distinct as" "n \<notin> set as" "last as = z"
    and "h z = Some l" "node_next nd = None"
  shows "chain (h(n \<mapsto> nd, z \<mapsto> l\<lparr>node_next := Some n\<rparr>)) p (as @ [n])"
  using assms(1-5)
proof (induction as arbitrary: p)
  case (Cons a as)
  show ?case
  proof (cases "as = []")
    case True
    with Cons.prems assms(6,7) show ?thesis by auto
  next
    case False
    with Cons.prems have "a \<noteq> z" "a \<noteq> n" by auto
    moreover obtain x where x: "p = Some a" "h a = Some x" "chain h (node_next x) as"
      using Cons.prems(1) by auto
    ultimately have "(h(n \<mapsto> nd, z \<mapsto> l\<lparr>node_next := Some n\<rparr>)) a = Some x" by simp
    moreover have "chain (h(n \<mapsto> nd, z \<mapsto> l\<lparr>node_next := Some n\<rparr>)) (node_next x) (as @ [n])"
      by (rule Cons.IH [OF x(3) False]) (use Cons.prems False in auto)
    ultimately show ?thesis using x(1) unfolding append_Cons chain.simps by blast
  qed
qed simp

lemma tail_ok_snoc: "as \<noteq> [] \<Longrightarrow> tail_ok (as @ [n]) (Some n)"
  by (cases as; cases "tl as") (auto simp: tail_ok_def split: list.splits)

lemma tail_ok_last: "tail_ok as (Some q) \<Longrightarrow> as \<noteq> [] \<and> q = last as"
  by (auto simp: tail_ok_def split: list.splits)

lemma tail_ok_None: "tail_ok as None \<Longrightarrow> length as \<le> 1"
  by (auto simp: tail_ok_def split: list.splits)

lemma tail_ok_tl: "tail_ok (a # as) q \<Longrightarrow> as \<noteq> [] \<Longrightarrow> tail_ok as q"
  by (auto simp: tail_ok_def split: list.splits)

section \<open>The queue of a mutex\<close>

definition mutex_rep :: "(nat \<rightharpoonup> Node) \<Rightarrow> my_mutex_t \<Rightarrow> nat list \<Rightarrow> bool" where
  "mutex_rep h v as \<longleftrightarrow>
     chain h (blocked_threads_head v) as \<and> tail_ok as (blocked_threads_tail v) \<and> distinct as"

lemma set_next_eq: "nodes s a = Some n \<Longrightarrow>
  set_next a nxt s = Some (s\<lparr>nodes := (nodes s)(a \<mapsto> n\<lparr>node_next := nxt\<rparr>)\<rparr>)"
  by (simp add: set_next_def)

lemma enqueue_rep:
  assumes "mutex_rep (nodes s) v as" "nodes s n = Some nd" "node_next nd = None" "n \<notin> set as"
  shows "\<exists>v' h. enqueue m v n s = Some (s\<lparr>nodes := h, mutexes := (mutexes s)(m \<mapsto> v')\<rparr>) \<and>
    mutex_rep h v' (as @ [n]) \<and> locked v' = locked v \<and> tid_at h = tid_at (nodes s) \<and> dom h = dom (nodes s) \<and>
    (\<forall>a. a \<notin> insert n (set as) \<longrightarrow> h a = nodes s a)"
proof (cases "as = []")
  case True
  then have "blocked_threads_head v = None" "blocked_threads_tail v = None"
    using assms(1) by (auto simp: mutex_rep_def tail_ok_def)
  moreover have "nd\<lparr>node_next := None\<rparr> = nd" using assms(3) by (cases nd) simp
  ultimately show ?thesis
    using True assms(2,3)
    by (intro exI [of _ "v\<lparr>blocked_threads_head := Some n\<rparr>"] exI [of _ "(nodes s)(n \<mapsto> nd)"])
      (auto simp: enqueue_def set_next_def set_mutex_def mutex_rep_def tail_ok_def tid_at_def fun_eq_iff)
next
  case False
  then obtain hd_a where hd: "blocked_threads_head v = Some hd_a" "hd_a = hd as"
    using assms(1) by (cases as) (auto simp: mutex_rep_def)
  obtain l where l: "nodes s (last as) = Some l"
    using chain_dom [of "nodes s" _ as "last as"] assms(1) False by (auto simp: mutex_rep_def)
  have ne: "last as \<noteq> n" using assms(4) False by auto
  have nd: "nd\<lparr>node_next := None\<rparr> = nd" using assms(3) by (cases nd) simp
  let ?v = "v\<lparr>blocked_threads_tail := Some n\<rparr>"
  let ?h = "(nodes s)(n \<mapsto> nd, last as \<mapsto> l\<lparr>node_next := Some n\<rparr>)"
  have enq: "enqueue m v n s = Some (s\<lparr>nodes := ?h, mutexes := (mutexes s)(m \<mapsto> ?v)\<rparr>)"
  proof (cases "blocked_threads_tail v")
    case None
    then have "hd as = last as"
      using assms(1) False tail_ok_None [of as] by (cases as) (auto simp: mutex_rep_def)
    then show ?thesis
      using hd None l assms(2) ne nd
      by (simp add: enqueue_def set_next_def set_mutex_def fun_upd_twist [of n])
  next
    case (Some q)
    then have "q = last as" using assms(1) tail_ok_last by (auto simp: mutex_rep_def)
    then show ?thesis
      using hd Some l assms(2) ne nd by (simp add: enqueue_def set_next_def set_mutex_def)
  qed
  moreover have "mutex_rep ?h ?v (as @ [n])"
    using assms(1,3,4) False l
      chain_snoc [of "nodes s" "blocked_threads_head v" as n "last as" l nd] tail_ok_snoc [OF False]
    by (auto simp: mutex_rep_def)
  moreover have "tid_at ?h = tid_at (nodes s)" using l assms(2) by (auto simp: tid_at_def fun_eq_iff)
  moreover have "dom ?h = dom (nodes s)" using l assms(2) by auto
  ultimately show ?thesis
    using False by (intro exI [of _ ?v] exI [of _ ?h]) auto
qed

lemma pop_head_rep:
  assumes "mutex_rep (nodes s) v (a # as)"
  shows "\<exists>n v'. blocked_threads_head v = Some a \<and> nodes s a = Some n \<and>
    pop_head m v a n s = (v', s\<lparr>nodes := (nodes s)(a := None), mutexes := (mutexes s)(m \<mapsto> v')\<rparr>) \<and>
    mutex_rep ((nodes s)(a := None)) v' as \<and> locked v' = locked v"
proof -
  obtain n where n: "blocked_threads_head v = Some a" "nodes s a = Some n" "chain (nodes s) (node_next n) as"
    using assms by (auto simp: mutex_rep_def)
  have "node_next n = None \<longleftrightarrow> as = []" using n(3) by (cases as) auto
  then show ?thesis
    using n assms by (auto simp: mutex_rep_def pop_head_def set_mutex_def Let_def tail_ok_def [of "[]"] intro: tail_ok_tl)
qed

text \<open>The two operations of the queue as the mutex functions use them.\<close>

definition put_waiter :: "nat \<Rightarrow> nat \<Rightarrow> lib_state \<Rightarrow> lib_state option" where
  "put_waiter m t s =
     (let (n, s1) = new_node \<lparr>node_tid = t, node_next = None\<rparr> s
      in case mutexes s1 m of None \<Rightarrow> None | Some v \<Rightarrow> enqueue m v n s1)"

definition get_waiter :: "nat \<Rightarrow> lib_state \<Rightarrow> (nat \<times> lib_state) option" where
  "get_waiter m s =
     (case mutexes s m of
        None \<Rightarrow> None
      | Some v \<Rightarrow>
          (case blocked_threads_head v of
             None \<Rightarrow> None
           | Some h \<Rightarrow>
               (case nodes s h of None \<Rightarrow> None | Some n \<Rightarrow> Some (node_tid n, snd (pop_head m v h n s)))))"

definition fresh_nodes :: "lib_state \<Rightarrow> bool" where
  "fresh_nodes s \<longleftrightarrow> (\<forall>a \<in> dom (nodes s). a < next_addr s)"

definition waiting :: "nat \<Rightarrow> lib_state \<Rightarrow> nat list \<Rightarrow> bool" where
  "waiting m s ts \<longleftrightarrow>
     (\<exists>v as. mutexes s m = Some v \<and> mutex_rep (nodes s) v as \<and> ts = map (tid_at (nodes s)) as) \<and> fresh_nodes s"

lemma put_waiter_rep:
  assumes "waiting m s ts"
  shows "\<exists>s'. put_waiter m t s = Some s' \<and> waiting m s' (ts @ [t])"
proof -
  obtain v as where v: "mutexes s m = Some v" "mutex_rep (nodes s) v as" "ts = map (tid_at (nodes s)) as"
    and fresh: "fresh_nodes s" using assms by (auto simp: waiting_def)
  let ?n = "next_addr s" and ?nd = "\<lparr>node_tid = t, node_next = None\<rparr>"
  let ?s1 = "s\<lparr>nodes := (nodes s)(?n \<mapsto> ?nd), next_addr := Suc ?n\<rparr>"
  have new: "?n \<notin> set as"
    using chain_dom v(2) fresh by (fastforce simp: mutex_rep_def fresh_nodes_def dom_def)
  then have "mutex_rep (nodes ?s1) v as" using v(2) by (simp add: mutex_rep_def)
  then obtain v' h where e: "enqueue m v ?n ?s1 = Some (?s1\<lparr>nodes := h, mutexes := (mutexes ?s1)(m \<mapsto> v')\<rparr>)"
      "mutex_rep h v' (as @ [?n])" "tid_at h = tid_at (nodes ?s1)" "dom h = dom (nodes ?s1)"
    using enqueue_rep [of ?s1 v as ?n ?nd m] new by auto
  have "map (tid_at (nodes ?s1)) (as @ [?n]) = ts @ [t]" using v(3) new by (auto simp: tid_at_def)
  then have "waiting m (?s1\<lparr>nodes := h, mutexes := (mutexes ?s1)(m \<mapsto> v')\<rparr>) (ts @ [t])"
    unfolding waiting_def
  proof (intro conjI exI)
    show "fresh_nodes (?s1\<lparr>nodes := h, mutexes := (mutexes ?s1)(m \<mapsto> v')\<rparr>)"
      using e(4) fresh by (auto simp: fresh_nodes_def less_Suc_eq)
  qed (use e in auto)
  moreover have "put_waiter m t s = Some (?s1\<lparr>nodes := h, mutexes := (mutexes ?s1)(m \<mapsto> v')\<rparr>)"
    using e(1) v(1) by (simp add: put_waiter_def new_node_def)
  ultimately show ?thesis by blast
qed

lemma get_waiter_rep:
  assumes "waiting m s (t # ts)"
  shows "\<exists>s'. get_waiter m s = Some (t, s') \<and> waiting m s' ts"
proof -
  obtain v a as where v: "mutexes s m = Some v" "mutex_rep (nodes s) v (a # as)" "t = tid_at (nodes s) a"
      "ts = map (tid_at (nodes s)) as" and fresh: "fresh_nodes s"
    using assms by (auto simp: waiting_def)
  from pop_head_rep [OF v(2), of m] obtain n v' where p: "blocked_threads_head v = Some a" "nodes s a = Some n"
      "pop_head m v a n s = (v', s\<lparr>nodes := (nodes s)(a := None), mutexes := (mutexes s)(m \<mapsto> v')\<rparr>)"
      "mutex_rep ((nodes s)(a := None)) v' as" by blast
  have "a \<notin> set as" using v(2) by (simp add: mutex_rep_def)
  then have "map (tid_at ((nodes s)(a := None))) as = ts" using v(4) by (auto simp: tid_at_def)
  then have "waiting m (s\<lparr>nodes := (nodes s)(a := None), mutexes := (mutexes s)(m \<mapsto> v')\<rparr>) ts"
    using p(4) fresh by (auto simp: waiting_def fresh_nodes_def)
  then show ?thesis using p v(1,3) by (simp add: get_waiter_def tid_at_def)
qed

interpretation mq: wait_queue "waiting m" "put_waiter m" "get_waiter m"
proof
  show "\<exists>s'. put_waiter m x s = Some s' \<and> waiting m s' (xs @ [x])" if "waiting m s xs" for s xs x
    using that by (rule put_waiter_rep)
  show "\<exists>s'. get_waiter m s = Some (x, s') \<and> waiting m s' xs" if "waiting m s (x # xs)" for s x xs
    using that by (rule get_waiter_rep)
  show "get_waiter m s = None" if "waiting m s []" for s
    using that by (auto simp: waiting_def mutex_rep_def get_waiter_def)
qed

end
