(* ===== verification/Sync_Inv.thy ===== *)
theory Sync_Inv
  imports Threads_Create Wait_Queue
begin

text \<open>
  The invariant of the synchronisation part: every mutex has a well-formed queue, a thread waits in
  at most one queue and is blocked while it does, a mutex that is not locked has no waiters, and the
  field \<open>init\<close> of a barrier is always 1, so the blocking branch of \<open>pthread_barrier_wait\<close> is never
  taken.
\<close>

section \<open>Steps that leave the waiting threads alone\<close>

definition blocked :: "lib_state \<Rightarrow> nat set" where
  "blocked s = {t. t < MAX_THREADS \<and> status_of s t = TS_BLOCKED}"

definition calm :: "lib_state \<Rightarrow> lib_state \<Rightarrow> bool" where
  "calm s s' \<longleftrightarrow>
     is_first_call s' = is_first_call s \<and> num_threads s' = num_threads s \<and> mutexes s' = mutexes s \<and>
     nodes s' = nodes s \<and> next_addr s \<le> next_addr s' \<and> blocked s' = blocked s"

definition barriers_ok :: "lib_state \<Rightarrow> bool" where
  "barriers_ok s \<longleftrightarrow> (\<forall>b v. barriers s b = Some v \<longrightarrow> barrier_init v = 1)"

definition awake :: "lib_state \<Rightarrow> bool" where
  "awake s \<longleftrightarrow> current_tid s \<notin> blocked s"

lemma calm_refl [simp]: "calm s s"
  by (simp add: calm_def)

lemma calm_trans: "calm s s1 \<Longrightarrow> calm s1 s2 \<Longrightarrow> calm s s2"
  by (simp add: calm_def)

lemma blocked_cong: "threads s' = threads s \<Longrightarrow> blocked s' = blocked s"
  by (simp add: blocked_def status_of_def)

lemma blocked_wrappers [simp]:
  "blocked (set_frame f s) = blocked s" "blocked (lock s) = blocked s" "blocked (unlock s) = blocked s"
  "blocked (set_mutex m v s) = blocked s" "blocked (set_barrier b w s) = blocked s"
  "blocked (s\<lparr>words := wm\<rparr>) = blocked s" "blocked (s\<lparr>stacks := st\<rparr>) = blocked s"
  "blocked (s\<lparr>nodes := h\<rparr>) = blocked s" "blocked (s\<lparr>mutexes := mm\<rparr>) = blocked s"
  "blocked (s\<lparr>barriers := bm\<rparr>) = blocked s" "blocked (s\<lparr>next_addr := na\<rparr>) = blocked s"
  by (rule blocked_cong; simp)+

lemma calm_wrappers [simp]:
  "calm s (set_frame f s)" "calm s (lock s)" "calm s (unlock s)" "calm s (set_barrier b w s)"
  "calm s (s\<lparr>words := wm\<rparr>)" "calm s (s\<lparr>stacks := st\<rparr>)"
  by (simp_all add: calm_def) (simp_all add: set_frame_def lock_def unlock_def set_barrier_def)

lemma awake_wrappers [simp]:
  "awake (set_frame f s) = awake s" "awake (lock s) = awake s" "awake (unlock s) = awake s"
  "awake (set_mutex m v s) = awake s" "awake (set_barrier b w s) = awake s"
  "awake (s\<lparr>words := wm\<rparr>) = awake s" "awake (s\<lparr>stacks := st\<rparr>) = awake s"
  by (simp_all add: awake_def)

lemma barriers_ok_wrappers [simp]:
  "barriers_ok (set_frame f s) = barriers_ok s" "barriers_ok (lock s) = barriers_ok s"
  "barriers_ok (unlock s) = barriers_ok s" "barriers_ok (set_mutex m v s) = barriers_ok s"
  "barriers_ok (set_status t st s) = barriers_ok s"
  "barriers_ok (s\<lparr>words := wm\<rparr>) = barriers_ok s" "barriers_ok (s\<lparr>stacks := sk\<rparr>) = barriers_ok s"
  by (simp_all add: barriers_ok_def)

lemma blocked_set_status:
  assumes "t < length (threads s)" "length (threads s) = MAX_THREADS"
  shows "blocked (set_status t st s) = (if st = TS_BLOCKED then insert t (blocked s) else blocked s - {t})"
  using assms by (auto simp: blocked_def status_of_set_status split: if_splits)

lemma schedule_calm:
  assumes "table_ok s" "schedule guard s = Some s'"
  shows "calm s s'" "awake s'" "frames s' = frames s" "barriers s' = barriers s"
    "current_tid s' < MAX_THREADS" "status_of s' (current_tid s') = TS_RUNNING"
    "current_tid s' \<notin> blocked s"
proof -
  obtain d where d: "first_after s d" "switched guard (after (current_tid s) d) s s'"
    using schedule_SomeE [OF assms] by blast
  let ?u = "after (current_tid s) d"
  have run: "runnable s ?u" using d(1) by (simp add: first_after_def)
  then have u: "?u \<notin> blocked s" by (auto simp: runnable_def blocked_def)
  have st: "status_of s' t = TS_BLOCKED \<longleftrightarrow> status_of s t = TS_BLOCKED" if "t < MAX_THREADS" for t
    using d(2) that u by (auto simp: switched_def blocked_def)
  then have "blocked s' = blocked s" by (auto simp: blocked_def)
  moreover have "current_tid s' = ?u" using d(2) by (simp add: switched_def)
  moreover have "status_of s' ?u = TS_RUNNING" using d(2) by (simp add: switched_def)
  ultimately show "calm s s'" "awake s'" "frames s' = frames s" "barriers s' = barriers s"
    "current_tid s' < MAX_THREADS" "status_of s' (current_tid s') = TS_RUNNING"
    "current_tid s' \<notin> blocked s"
    using switched_fields [OF d(2)] u by (simp_all add: calm_def awake_def)
qed

lemma yield_in_calm:
  assumes "table_ok s" "yield_in guard f s = Some (r, s')"
  shows "calm s s'" "awake s'" "barriers s' = barriers s" "frames s' = (frames s)(current_tid s := f)"
    "current_tid s' < MAX_THREADS" "status_of s' (current_tid s') = TS_RUNNING" "r = None"
proof -
  have t: "table_ok (set_frame f s)" using assms(1) by (simp add: table_ok_def)
  have c: "schedule guard (set_frame f s) = Some s'" "r = None"
    using assms(2) by (auto simp: yield_in_def split: option.splits)
  note y = schedule_calm [OF t c(1)]
  show "calm s s'" using calm_trans [OF calm_wrappers(1) y(1)] .
  show "frames s' = (frames s)(current_tid s := f)" using y(3) by (simp add: set_frame_def)
  show "awake s'" "barriers s' = barriers s" "current_tid s' < MAX_THREADS"
    "status_of s' (current_tid s') = TS_RUNNING" "r = None"
    using y(2,4,5,6) c(2) by simp_all
qed

section \<open>The calls that do\<close>

definition gentle :: "lib_state \<Rightarrow> lib_state \<Rightarrow> bool" where
  "gentle s s' \<longleftrightarrow> calm s s' \<and> awake s' \<and> barriers_ok s'"

lemma gentle_yield_in:
  assumes "table_ok s" "barriers_ok s" "yield_in guard f s = Some (r, s')"
  shows "gentle s s'"
  using yield_in_calm [OF assms(1,3)] assms(2) by (simp add: gentle_def barriers_ok_def)

lemma gentle_after_calm: "calm s s1 \<Longrightarrow> gentle s1 s' \<Longrightarrow> gentle s s'"
  unfolding gentle_def using calm_trans by blast

lemma barriers_ok_init: "barriers_ok s \<Longrightarrow> barriers s b = Some v \<Longrightarrow> barrier_init v = 1"
  by (simp add: barriers_ok_def)

lemma barriers_ok_set: "barriers_ok s \<Longrightarrow> barrier_init v = 1 \<Longrightarrow> barriers_ok (set_barrier b v s)"
  by (simp add: barriers_ok_def)

lemma table_ok_wrappers [simp]:
  "table_ok (set_frame f s) = table_ok s" "table_ok (lock s) = table_ok s" "table_ok (unlock s) = table_ok s"
  "table_ok (set_mutex m v s) = table_ok s" "table_ok (set_barrier b w s) = table_ok s"
  by (simp_all add: table_ok_def)

lemma gentle_exit:
  assumes "table_ok s" "barriers_ok s" "awake s" "pthread_exit guard v s = Some s'"
  shows "gentle s s'"
proof -
  let ?t = "current_tid s"
  let ?b = "(threads s ! ?t)\<lparr>status := TS_EXITED, exit_status := v\<rparr>"
  let ?s = "s\<lparr>threads := (threads s)[?t := ?b], exited_string := exited_string s + 1, timer_on := False\<rparr>"
  have len: "?t < length (threads s)" "length (threads s) = MAX_THREADS" using assms(1) by (simp_all add: table_ok_def)
  have tab: "table_ok ?s" using assms(1) by (auto simp: table_ok_def nth_list_update)
  have "schedule guard ?s = Some s'"
    using assms(4) len by (simp add: pthread_exit_def set_status_def Let_def)
  note y = schedule_calm [OF tab this]
  have "blocked ?s = blocked s"
    using assms(3) len by (auto simp: blocked_def status_of_def awake_def nth_list_update split: if_splits)
  then have "calm s ?s" by (simp add: calm_def)
  then show ?thesis
    using calm_trans [OF _ y(1)] y(2,4) assms(2) by (simp add: gentle_def barriers_ok_def)
qed

lemma gentle_join:
  assumes "table_ok s" "barriers_ok s" "awake s" "pthread_join guard t rv s = Some (r, s')"
  shows "gentle s s'"
proof (cases "status_of s t = TS_EXITED")
  case True
  then obtain s1 where s1: "free_stack (stack (threads s ! t)) s = Some s1"
      "s' = set_frame User (s1\<lparr>words := (words s1)(rv := exit_status (threads s1 ! t))\<rparr>)"
    using assms(4) by (auto simp: pthread_join_def split: option.splits if_splits)
  then consider "s1 = s" | "s1 = s\<lparr>stacks := remove1 (stack (threads s ! t)) (stacks s)\<rparr>"
    by (auto simp: free_stack_def split: if_splits)
  then show ?thesis
  proof cases
    case 1
    then show ?thesis using s1 assms(2,3) calm_trans [OF calm_wrappers(5) calm_wrappers(1)] by (simp add: gentle_def)
  next
    case 2
    have "calm s s'" unfolding s1(2) 2
      by (rule calm_trans [OF calm_wrappers(6) calm_trans [OF calm_wrappers(5) calm_wrappers(1)]])
    then show ?thesis using s1 2 assms(2,3) by (simp add: gentle_def)
  qed
next
  case False
  then have "yield_in guard (Joining t rv) s = Some (r, s')"
    using assms(4) by (auto simp: pthread_join_def yield_in_def split: option.splits if_splits)
  then show ?thesis using gentle_yield_in assms(1,2) by blast
qed

lemma gentle_barrier_loop:
  assumes "table_ok s" "barriers_ok s" "barrier_loop guard b s = Some (r, s')"
  shows "gentle s s'"
proof -
  obtain v where v: "barriers s b = Some v" using assms(3) by (auto simp: barrier_loop_def split: option.splits)
  have rel: "barrier_release v b (lock s) = Some (lock s)"
    using barriers_ok_init [OF assms(2) v] by (simp add: barrier_release_def)
  show ?thesis
  proof (cases "threads_blocked v < barrier_count v")
    case True
    then show ?thesis using v assms gentle_yield_in [of s] by (simp add: barrier_loop_def)
  next
    case False
    then have "yield_in guard (Barrier_Leave b) (unlock (lock s)) = Some (r, s')"
      using v assms(3) rel by (simp add: barrier_loop_def)
    then have "gentle (unlock (lock s)) s'" using gentle_yield_in assms(1,2) by simp
    then show ?thesis using gentle_after_calm [OF calm_trans [OF calm_wrappers(2,3)]] by blast
  qed
qed

lemma gentle_barrier_leave:
  assumes "barriers_ok s" "awake s" "barrier_leave b s = Some (r, s')"
  shows "gentle s s'"
proof -
  have "gentle s (set_frame User (set_barrier b w s))" if "barrier_init w = 1" for w
    using that assms(1,2) calm_trans [OF calm_wrappers(4) calm_wrappers(1)] barriers_ok_set
    by (simp add: gentle_def)
  then show ?thesis using assms(3) by (auto simp: barrier_leave_def Let_def split: option.splits if_splits)
qed

lemma gentle_barrier_wait:
  assumes "table_ok s" "barriers_ok s" "pthread_barrier_wait guard b s = Some (r, s')"
  shows "gentle s s'"
proof -
  obtain v0 where v0: "barriers s b = Some v0" using assms(3) by (auto simp: pthread_barrier_wait_def split: option.splits)
  let ?s1 = "set_barrier b (v0\<lparr>threads_blocked := threads_blocked v0 + 1\<rparr>) s"
  have init: "barrier_init v0 = 1" using barriers_ok_init [OF assms(2) v0] .
  then have "barrier_loop guard b ?s1 = Some (r, s')"
    using assms(3) v0 by (simp add: pthread_barrier_wait_def Let_def split: if_splits)
  then have "gentle ?s1 s'" using gentle_barrier_loop assms(1,2) barriers_ok_set init by simp
  then show ?thesis using gentle_after_calm [OF calm_wrappers(4)] by blast
qed

lemma gentle_resume:
  assumes "table_ok s" "barriers_ok s" "awake s" "resume guard s = Some (r, s')"
  shows "gentle s s'"
proof -
  have "gentle s (set_frame f (unlock s))" "gentle s (set_frame f s)" for f
    using assms(2,3) calm_trans [OF calm_wrappers(3) calm_wrappers(1)] by (simp_all add: gentle_def)
  then show ?thesis
    using assms gentle_join gentle_barrier_loop gentle_barrier_leave
    by (auto simp: resume_def split: frame.splits)
qed

section \<open>The queues of all mutexes\<close>

abbreviation tids :: "lib_state \<Rightarrow> nat list \<Rightarrow> nat list" where
  "tids s as \<equiv> map (tid_at (nodes s)) as"

definition queue_ok :: "lib_state \<Rightarrow> nat list \<Rightarrow> my_mutex_t option \<Rightarrow> bool" where
  "queue_ok s as vo \<longleftrightarrow>
     (case vo of None \<Rightarrow> as = [] | Some v \<Rightarrow> mutex_rep (nodes s) v as \<and> (locked v = 0 \<longrightarrow> as = []))"

definition queues_ok :: "lib_state \<Rightarrow> (nat \<Rightarrow> nat list) \<Rightarrow> bool" where
  "queues_ok s Q \<longleftrightarrow>
     (\<forall>m. queue_ok s (Q m) (mutexes s m)) \<and>
     (\<forall>m. distinct (tids s (Q m)) \<and> set (tids s (Q m)) \<subseteq> blocked s) \<and>
     (\<forall>m m'. m \<noteq> m' \<longrightarrow> set (tids s (Q m)) \<inter> set (tids s (Q m')) = {}) \<and>
     fresh_nodes s \<and> (\<forall>m \<in> dom (mutexes s). m < next_addr s)"

definition sync_inv :: "lib_state \<Rightarrow> bool" where
  "sync_inv s \<longleftrightarrow> lib_inv s \<and> barriers_ok s \<and> awake s \<and> (\<exists>Q. queues_ok s Q)"

lemma queue_ok_cong: "nodes s' = nodes s \<Longrightarrow> queue_ok s' = queue_ok s"
  by (intro ext) (simp add: queue_ok_def split: option.split)

lemma queues_ok_calm:
  assumes "queues_ok s Q" "calm s s'"
  shows "queues_ok s' Q"
proof -
  have eqs: "mutexes s' = mutexes s" "nodes s' = nodes s" "blocked s' = blocked s" "next_addr s \<le> next_addr s'"
    using assms(2) by (simp_all add: calm_def)
  have "fresh_nodes s" "\<forall>m \<in> dom (mutexes s). m < next_addr s" using assms(1) by (simp_all add: queues_ok_def)
  then have "fresh_nodes s'" "\<forall>m \<in> dom (mutexes s). m < next_addr s'"
    using eqs by (auto simp: fresh_nodes_def intro: less_le_trans)
  then show ?thesis using assms(1) eqs queue_ok_cong [OF eqs(2)] by (simp add: queues_ok_def)
qed

lemma queues_ok_at: "queues_ok s Q \<Longrightarrow> queue_ok s (Q m) (mutexes s m)"
  by (simp add: queues_ok_def)

lemma queues_ok_rep: "queues_ok s Q \<Longrightarrow> mutexes s m = Some v \<Longrightarrow> mutex_rep (nodes s) v (Q m)"
  by (drule queues_ok_at [of s Q m]) (simp add: queue_ok_def)

lemma queues_ok_locked: "queues_ok s Q \<Longrightarrow> mutexes s m = Some v \<Longrightarrow> locked v = 0 \<Longrightarrow> Q m = []"
  by (drule queues_ok_at [of s Q m]) (simp add: queue_ok_def)

lemma queues_ok_None: "queues_ok s Q \<Longrightarrow> mutexes s m = None \<Longrightarrow> Q m = []"
  by (drule queues_ok_at [of s Q m]) (simp add: queue_ok_def)

lemma queues_ok_blocked: "queues_ok s Q \<Longrightarrow> a \<in> set (Q m) \<Longrightarrow> tid_at (nodes s) a \<in> blocked s"
  by (auto simp: queues_ok_def)

lemma queues_ok_apart:
  assumes "queues_ok s Q" "m \<noteq> m'" "a \<in> set (Q m)"
  shows "a \<notin> set (Q m')"
  using assms unfolding queues_ok_def by (metis IntI empty_iff image_eqI list.set_map)

lemma queues_ok_distinct: "queues_ok s Q \<Longrightarrow> distinct (Q m)"
  by (auto simp: queues_ok_def distinct_map)

lemma queues_ok_dom:
  assumes "queues_ok s Q" "a \<in> set (Q m)"
  shows "\<exists>n. nodes s a = Some n" "a < next_addr s"
proof -
  obtain v where "mutexes s m = Some v" using queues_ok_None [OF assms(1), of m] assms(2) by fastforce
  then show "\<exists>n. nodes s a = Some n"
    using queues_ok_rep [OF assms(1)] chain_dom assms(2) unfolding mutex_rep_def by blast
  then show "a < next_addr s" using assms(1) by (auto simp: queues_ok_def fresh_nodes_def)
qed

lemma chain_cong: "(\<And>a. a \<in> set as \<Longrightarrow> h a = h' a) \<Longrightarrow> chain h p as \<longleftrightarrow> chain h' p as"
  by (induction as arbitrary: p) auto

lemma mutex_rep_cong: "(\<And>a. a \<in> set as \<Longrightarrow> h a = h' a) \<Longrightarrow> mutex_rep h v as \<longleftrightarrow> mutex_rep h' v as"
  using chain_cong [of as h h'] by (simp add: mutex_rep_def)

text \<open>Replacing the queue of one mutex.\<close>

lemma queues_ok_update:
  assumes Q: "queues_ok s Q" and m: "mutexes s m = Some v"
    and s': "mutexes s' = (mutexes s)(m \<mapsto> v')" "fresh_nodes s'" "next_addr s \<le> next_addr s'"
    and rep: "mutex_rep (nodes s') v' as" "locked v' = 0 \<longrightarrow> as = []"
    and other: "\<And>m' a. m' \<noteq> m \<Longrightarrow> a \<in> set (Q m') \<Longrightarrow> nodes s' a = nodes s a"
    and tids: "distinct (tids s' as)" "set (tids s' as) \<subseteq> blocked s'"
      "\<And>m'. m' \<noteq> m \<Longrightarrow> set (tids s (Q m')) \<inter> set (tids s' as) = {}"
      "\<And>m'. m' \<noteq> m \<Longrightarrow> set (tids s (Q m')) \<subseteq> blocked s'"
  shows "queues_ok s' (Q(m := as))"
proof -
  have same: "tids s' (Q m') = tids s (Q m')" if "m' \<noteq> m" for m'
    using other [OF that] by (simp add: tid_at_def)
  have reps: "queue_ok s' ((Q(m := as)) m') (mutexes s' m')" for m'
  proof (cases "m' = m")
    case True
    then show ?thesis using rep s'(1) by (simp add: queue_ok_def)
  next
    case False
    have "queue_ok s (Q m') (mutexes s m')" using Q by (simp add: queues_ok_def)
    then show ?thesis
      using False s'(1) mutex_rep_cong [of "Q m'" "nodes s'" "nodes s"] other [OF False]
      by (simp add: queue_ok_def split: option.splits)
  qed
  have mine: "distinct (tids s' ((Q(m := as)) m')) \<and> set (tids s' ((Q(m := as)) m')) \<subseteq> blocked s'" for m'
  proof (cases "m' = m")
    case False
    then have "distinct (tids s (Q m'))" using Q by (simp add: queues_ok_def)
    then show ?thesis using tids(4) [OF False] False unfolding same [OF False, symmetric] by simp
  qed (use tids(1,2) in simp)
  have apart: "set (tids s' ((Q(m := as)) m1)) \<inter> set (tids s' ((Q(m := as)) m2)) = {}" if "m1 \<noteq> m2" for m1 m2
  proof (cases "m1 = m \<or> m2 = m")
    case True
    then show ?thesis using that same [of m1] same [of m2] tids(3) [of m1] tids(3) [of m2]
      by (auto simp del: set_map map_eq_conv)
  next
    case False
    then have "set (tids s (Q m1)) \<inter> set (tids s (Q m2)) = {}" using Q that unfolding queues_ok_def by blast
    then show ?thesis using False same [of m1] same [of m2] by (simp del: set_map map_eq_conv)
  qed
  have "\<forall>k \<in> dom (mutexes s). k < next_addr s" using Q by (simp add: queues_ok_def)
  moreover have "dom (mutexes s') = dom (mutexes s)" using s'(1) m by auto
  ultimately have "\<forall>k \<in> dom (mutexes s'). k < next_addr s'" using s'(3) by (auto intro: less_le_trans)
  then show ?thesis using reps mine apart s'(2) unfolding queues_ok_def by blast
qed

end
