(* ===== verification/Sync_Steps.thy ===== *)
theory Sync_Steps
  imports Sync_Inv
begin

text \<open>
  Every call of the library keeps the invariant of the synchronisation part, and what the mutex calls
  do to the queues.
\<close>

section \<open>Locking\<close>

lemma lock_contended_queues:
  assumes Q: "queues_ok s Q" and inv: "lib_inv s" "awake s" and m: "mutexes s m = Some v" "locked v \<noteq> 0"
    and n: "new_node \<lparr>node_tid = current_tid s, node_next = None\<rparr> (set_status (current_tid s) TS_BLOCKED (lock s)) = (n, s2)"
    and e: "enqueue m v n s2 = Some s3"
  shows "queues_ok s3 (Q(m := Q m @ [n])) \<and> tids s3 (Q m @ [n]) = tids s (Q m) @ [current_tid s] \<and>
    blocked s3 = insert (current_tid s) (blocked s) \<and> table_ok s3 \<and> current_tid s3 = current_tid s \<and>
    barriers s3 = barriers s \<and> frames s3 = frames s \<and> is_first_call s3 = is_first_call s \<and>
    num_threads s3 = num_threads s \<and> next_addr s \<le> next_addr s3 \<and> (\<forall>m'. m' \<noteq> m \<longrightarrow> tids s3 (Q m') = tids s (Q m')) \<and>
    (\<exists>v'. mutexes s3 = (mutexes s)(m \<mapsto> v') \<and> locked v' = locked v)"
proof -
  let ?c = "current_tid s" and ?nd = "\<lparr>node_tid = current_tid s, node_next = None\<rparr>"
  have len: "?c < length (threads s)" "length (threads s) = MAX_THREADS"
    using lib_inv_table_ok [OF inv(1)] by (simp_all add: table_ok_def)
  have n_eq: "n = next_addr s" and s2: "s2 = (set_status ?c TS_BLOCKED (lock s))\<lparr>nodes := (nodes s)(n \<mapsto> ?nd), next_addr := Suc n\<rparr>"
    using n by (auto simp: new_node_def set_status_def lock_def)
  have old: "a \<noteq> n" "nodes s2 a = nodes s a" if "a \<in> set (Q k)" for a k
    using queues_ok_dom(2) [OF Q that] n_eq s2 by auto
  have rep2: "mutex_rep (nodes s2) v (Q m)"
    using queues_ok_rep [OF Q m(1)] mutex_rep_cong [of "Q m" "nodes s2" "nodes s"] old by simp
  have nin: "n \<notin> set (Q m)" using old by blast
  obtain v' h where e': "enqueue m v n s2 = Some (s2\<lparr>nodes := h, mutexes := (mutexes s2)(m \<mapsto> v')\<rparr>)"
      "mutex_rep h v' (Q m @ [n])" "locked v' = locked v" "tid_at h = tid_at (nodes s2)" "dom h = dom (nodes s2)"
      "\<And>a. a \<notin> insert n (set (Q m)) \<Longrightarrow> h a = nodes s2 a"
    using enqueue_rep [OF rep2 _ _ nin, of ?nd m] s2 by auto
  have s3: "s3 = s2\<lparr>nodes := h, mutexes := (mutexes s)(m \<mapsto> v')\<rparr>"
    using e e'(1) s2 by simp
  have h: "nodes s3 = h" "mutexes s3 = (mutexes s)(m \<mapsto> v')" "next_addr s3 = Suc n" "threads s3 = threads (set_status ?c TS_BLOCKED s)"
      "current_tid s3 = ?c" "barriers s3 = barriers s" "frames s3 = frames s"
      "is_first_call s3 = is_first_call s" "num_threads s3 = num_threads s"
    unfolding s3 s2 by (simp_all add: set_status_def lock_def)
  have blk: "blocked s3 = insert ?c (blocked s)"
    using blocked_cong [OF h(4)] blocked_set_status [OF len, of TS_BLOCKED] by simp
  have tab: "table_ok s3"
    using lib_inv_table_ok [OF inv(1)] h(4,5) len by (auto simp: table_ok_def set_status_def nth_list_update)
  have tn: "tid_at h n = ?c" using e'(4) s2 by (simp add: tid_at_def)
  have to: "tid_at h a = tid_at (nodes s) a" if "a \<in> set (Q k)" for a k
    using e'(4) old(2) [OF that] by (simp add: tid_at_def)
  have tid3: "tids s3 (Q m @ [n]) = tids s (Q m) @ [?c]" using h(1) tn to by simp
  have c: "?c \<notin> blocked s" using inv(2) by (simp add: awake_def)
  have sub: "set (tids s (Q k)) \<subseteq> blocked s" for k using Q unfolding queues_ok_def by blast
  have "queues_ok s3 (Q(m := Q m @ [n]))"
  proof (rule queues_ok_update [OF Q m(1) h(2)])
    have "fresh_nodes s" using Q by (simp add: queues_ok_def)
    then show "fresh_nodes s3" using h e'(5) s2 n_eq by (auto simp: fresh_nodes_def less_Suc_eq)
    show "next_addr s \<le> next_addr s3" using h(3) n_eq by simp
    show "mutex_rep (nodes s3) v' (Q m @ [n])" "locked v' = 0 \<longrightarrow> Q m @ [n] = []"
      using h(1) e'(2,3) m(2) by simp_all
    show "nodes s3 a = nodes s a" if "m' \<noteq> m" "a \<in> set (Q m')" for m' a
      using e'(6) [of a] old [OF that(2)] queues_ok_apart [OF Q that] h(1) by simp
    have "distinct (tids s (Q m))" using Q unfolding queues_ok_def by blast
    then show "distinct (tids s3 (Q m @ [n]))" unfolding tid3 using c sub [of m] by auto
    show "set (tids s3 (Q m @ [n])) \<subseteq> blocked s3" unfolding tid3 blk using sub [of m] by auto
    show "set (tids s (Q m')) \<inter> set (tids s3 (Q m @ [n])) = {}" if "m' \<noteq> m" for m'
    proof -
      have "set (tids s (Q m')) \<inter> set (tids s (Q m)) = {}" using Q that unfolding queues_ok_def by blast
      then show ?thesis unfolding tid3 using c sub [of m'] by auto
    qed
    show "set (tids s (Q m')) \<subseteq> blocked s3" if "m' \<noteq> m" for m' unfolding blk using sub [of m'] by auto
  qed
  moreover have "\<forall>m'. m' \<noteq> m \<longrightarrow> tids s3 (Q m') = tids s (Q m')" using h(1) to by simp
  moreover have "next_addr s \<le> next_addr s3" using h(3) n_eq by simp
  ultimately show ?thesis using tid3 blk tab h e'(3) by blast
qed

lemma lock_free_queues:
  assumes Q: "queues_ok s Q" and inv: "lib_inv s" "awake s" and m: "mutexes s m = Some v" "locked v = 0"
    and s': "s' = unlock (set_status (current_tid s) TS_READY (set_mutex m (v\<lparr>locked := 1\<rparr>) (lock s)))"
  shows "queues_ok s' Q \<and> awake s' \<and> blocked s' = blocked s"
proof -
  have len: "current_tid s < length (threads s)" "length (threads s) = MAX_THREADS"
    using lib_inv_table_ok [OF inv(1)] by (simp_all add: table_ok_def)
  have blk: "blocked s' = blocked s"
    using s' blocked_set_status [of "current_tid s" "set_mutex m (v\<lparr>locked := 1\<rparr>) (lock s)" TS_READY] len inv(2)
    by (simp add: awake_def)
  have empty: "Q m = []" using queues_ok_locked [OF Q m] .
  have sub: "set (tids s (Q k)) \<subseteq> blocked s" for k using Q unfolding queues_ok_def by blast
  have "mutex_rep (nodes s) (v\<lparr>locked := 1\<rparr>) []"
    using queues_ok_rep [OF Q m(1)] empty by (simp add: mutex_rep_def)
  then have "queues_ok s' (Q(m := []))"
    using s' blk sub Q
    by (intro queues_ok_update [OF Q m(1), of s' "v\<lparr>locked := 1\<rparr>"])
      (auto simp: fresh_nodes_def queues_ok_def lock_def unlock_def set_mutex_def set_status_def)
  then have "queues_ok s' Q" using empty by (metis fun_upd_triv)
  then show ?thesis using blk s' inv(2) by (simp add: awake_def)
qed

section \<open>Unlocking\<close>

lemma unlock_wakes_queues:
  assumes Q: "queues_ok s Q" and inv: "lib_inv s" and m: "mutexes s m = Some v" "blocked_threads_head v = Some h"
    and n: "nodes s h = Some n" "pop_head m v h n (set_status (node_tid n) TS_READY (lock s)) = (v1, s1)"
  defines "s2 \<equiv> unlock (set_mutex m (if blocked_threads_head v1 = None then v1\<lparr>locked := 0\<rparr> else v1) s1)"
  shows "\<exists>as v2. Q m = h # as \<and> queues_ok s2 (Q(m := as)) \<and> blocked s2 = blocked s - {node_tid n} \<and>
    mutexes s2 = (mutexes s)(m \<mapsto> v2) \<and> locked v2 = (if as = [] then 0 else locked v) \<and>
    tids s2 as = tids s as \<and> table_ok s2 \<and> current_tid s2 = current_tid s \<and> barriers s2 = barriers s \<and>
    frames s2 = frames s \<and> is_first_call s2 = is_first_call s \<and> num_threads s2 = num_threads s \<and>
    next_addr s2 = next_addr s \<and> (\<forall>m'. m' \<noteq> m \<longrightarrow> tids s2 (Q m') = tids s (Q m'))"
proof -
  let ?t = "node_tid n"
  obtain as where as: "Q m = h # as"
    using queues_ok_rep [OF Q m(1)] m(2) by (auto simp: mutex_rep_def elim: chain_SomeE)
  have rep: "mutex_rep (nodes (set_status ?t TS_READY (lock s))) v (h # as)"
    using queues_ok_rep [OF Q m(1)] as by simp
  have v1: "s1 = (set_status ?t TS_READY (lock s))\<lparr>nodes := (nodes s)(h := None), mutexes := (mutexes s)(m \<mapsto> v1)\<rparr>"
      "mutex_rep ((nodes s)(h := None)) v1 as" "locked v1 = locked v"
    using pop_head_rep [OF rep, of m] n by auto
  have hd: "blocked_threads_head v1 = None \<longleftrightarrow> as = []" using v1(2) by (cases as) (auto simp: mutex_rep_def)
  define v2 where "v2 = (if blocked_threads_head v1 = None then v1\<lparr>locked := 0\<rparr> else v1)"
  have v2: "locked v2 = (if as = [] then 0 else locked v)" "mutex_rep ((nodes s)(h := None)) v2 as"
    using v1(2,3) hd by (auto simp: v2_def mutex_rep_def)
  have f: "nodes s2 = (nodes s)(h := None)" "mutexes s2 = (mutexes s)(m \<mapsto> v2)" "next_addr s2 = next_addr s"
      "threads s2 = threads (set_status ?t TS_READY s)" "current_tid s2 = current_tid s" "barriers s2 = barriers s"
      "frames s2 = frames s" "is_first_call s2 = is_first_call s" "num_threads s2 = num_threads s"
    unfolding s2_def v1(1) v2_def by (simp_all add: set_status_def lock_def unlock_def set_mutex_def)
  have "alive s ?t" using lib_inv_node_alive [OF inv n(1)] .
  then have len: "?t < length (threads s)" "length (threads s) = MAX_THREADS"
    using alive_lt [OF inv] lib_inv_table_ok [OF inv] by (simp_all add: table_ok_def)
  have blk: "blocked s2 = blocked s - {?t}"
    using blocked_cong [OF f(4)] blocked_set_status [OF len, of TS_READY] by simp
  have tab: "table_ok s2"
    using lib_inv_table_ok [OF inv] f(4,5) len by (auto simp: table_ok_def set_status_def nth_list_update)
  have th: "tid_at (nodes s) h = ?t" using n(1) by (simp add: tid_at_def)
  have hn: "h \<notin> set as" using queues_ok_distinct [OF Q, of m] as by simp
  have same: "tids s2 as = tids s as" using f(1) hn by (auto simp: tid_at_def)
  have sub: "set (tids s (Q k)) \<subseteq> blocked s" for k using Q unfolding queues_ok_def by blast
  have dis: "distinct (?t # tids s as)" using Q as th unfolding queues_ok_def by (metis list.simps(9))
  have apart: "set (tids s (Q m')) \<inter> insert ?t (set (tids s as)) = {}" if "m' \<noteq> m" for m'
    using Q that as th unfolding queues_ok_def by (metis list.simps(15) list.simps(9))
  have "queues_ok s2 (Q(m := as))"
  proof (rule queues_ok_update [OF Q m(1) f(2)])
    have "fresh_nodes s" using Q by (simp add: queues_ok_def)
    then show "fresh_nodes s2" using f(1,3) by (auto simp: fresh_nodes_def)
    show "next_addr s \<le> next_addr s2" using f(3) by simp
    show "mutex_rep (nodes s2) v2 as" "locked v2 = 0 \<longrightarrow> as = []"
      using f(1) v2 queues_ok_locked [OF Q m(1)] as by (auto split: if_splits)
    show "nodes s2 a = nodes s a" if "m' \<noteq> m" "a \<in> set (Q m')" for m' a
      using queues_ok_apart [OF Q that] as f(1) by auto
    show "distinct (tids s2 as)" unfolding same using dis by simp
    show "set (tids s2 as) \<subseteq> blocked s2" unfolding same blk using dis sub [of m] as by (auto simp: image_iff)
    show "set (tids s (Q m')) \<inter> set (tids s2 as) = {}" if "m' \<noteq> m" for m'
      unfolding same using apart [OF that] by blast
    show "set (tids s (Q m')) \<subseteq> blocked s2" if "m' \<noteq> m" for m'
      unfolding blk using apart [OF that] sub [of m'] by blast
  qed
  moreover have "\<forall>m'. m' \<noteq> m \<longrightarrow> tids s2 (Q m') = tids s (Q m')"
  proof (intro allI impI)
    fix m'
    assume "m' \<noteq> m"
    then have "h \<notin> set (Q m')" using queues_ok_apart [OF Q, of m m' h] as by simp
    then show "tids s2 (Q m') = tids s (Q m')" using f(1) by (auto simp: tid_at_def)
  qed
  ultimately show ?thesis using as blk f(2,3) v2(1) same tab f(5-9) by blast
qed

lemma unlock_alone_queues:
  assumes Q: "queues_ok s Q" and m: "mutexes s m = Some v" "blocked_threads_head v = None"
    and s': "s' = unlock (set_mutex m (v\<lparr>locked := 0\<rparr>) (lock s))"
  shows "queues_ok s' Q \<and> Q m = []"
proof -
  have empty: "Q m = []" using queues_ok_rep [OF Q m(1)] m(2) by (simp add: mutex_rep_def)
  have sub: "set (tids s (Q k)) \<subseteq> blocked s'" for k using Q s' unfolding queues_ok_def by simp
  have "mutex_rep (nodes s) (v\<lparr>locked := 0\<rparr>) []"
    using queues_ok_rep [OF Q m(1)] empty by (simp add: mutex_rep_def)
  then have "queues_ok s' (Q(m := []))"
    using s' sub Q
    by (intro queues_ok_update [OF Q m(1), of s' "v\<lparr>locked := 0\<rparr>"])
      (auto simp: fresh_nodes_def queues_ok_def lock_def unlock_def set_mutex_def)
  then show ?thesis using empty by (metis fun_upd_triv)
qed

section \<open>Mutex creation and removal\<close>

lemma mutex_init_queues:
  assumes "queues_ok s Q" "pthread_mutex_init us s = Some (m, s')"
  shows "queues_ok s' Q \<and> m = next_addr s \<and> mutexes s m = None \<and> blocked s' = blocked s"
proof -
  let ?v = "\<lparr>locked = 0, blocked_threads_head = None, blocked_threads_tail = None\<rparr>"
  have s': "m = next_addr s" "s' = s\<lparr>mutexes := (mutexes s)(m \<mapsto> ?v), next_addr := Suc m\<rparr>"
    using assms(2) by (auto simp: pthread_mutex_init_def split: if_splits)
  have new: "mutexes s m = None" using assms(1) s'(1) unfolding queues_ok_def by blast
  then have empty: "Q m = []" using queues_ok_None [OF assms(1)] by blast
  have "queue_ok s' (Q k) (mutexes s' k)" for k
  proof (cases "k = m")
    case False
    then show ?thesis using queues_ok_at [OF assms(1), of k] queue_ok_cong [of s' s] s'(2) by simp
  qed (use empty s' in \<open>simp add: queue_ok_def mutex_rep_def tail_ok_def\<close>)
  moreover have "blocked s' = blocked s" "nodes s' = nodes s" using s'(2) by (auto intro: blocked_cong)
  moreover have "fresh_nodes s'" "\<forall>k \<in> dom (mutexes s'). k < next_addr s'"
    using assms(1) s' by (auto simp: queues_ok_def fresh_nodes_def less_Suc_eq)
  ultimately have "queues_ok s' Q" using assms(1) by (simp add: queues_ok_def)
  then show ?thesis using s'(1) new \<open>blocked s' = blocked s\<close> by simp
qed

lemma mutex_destroy_queues:
  assumes "queues_ok s Q" "pthread_mutex_destroy m s = Some (r, s')"
  shows "queues_ok s' Q \<and> (s' = s \<or> s' = s\<lparr>mutexes := (mutexes s)(m := None)\<rparr> \<and> (\<forall>v. mutexes s m = Some v \<longrightarrow> locked v = 0))"
proof -
  obtain v where v: "mutexes s m = Some v" using assms(2) by (auto simp: pthread_mutex_destroy_def split: option.splits)
  show ?thesis
  proof (cases "locked v = 0")
    case False
    then show ?thesis using assms v by (simp add: pthread_mutex_destroy_def)
  next
    case True
    have empty: "Q m = []" using queues_ok_locked [OF assms(1) v True] .
    then have "blocked_threads_head v = None" using queues_ok_rep [OF assms(1) v] by (simp add: mutex_rep_def)
    then have s': "s' = s\<lparr>mutexes := (mutexes s)(m := None)\<rparr>"
      using assms(2) v True by (simp add: pthread_mutex_destroy_def free_nodes.simps)
    have "queue_ok s' (Q k) (mutexes s' k)" for k
      using queues_ok_at [OF assms(1), of k] queue_ok_cong [of s' s] s' empty by (cases "k = m") (simp_all add: queue_ok_def)
    then have "queues_ok s' Q" using assms(1) s' by (auto simp: queues_ok_def fresh_nodes_def)
    then show ?thesis using s' v True by simp
  qed
qed

section \<open>Thread creation\<close>

lemma create_queues:
  assumes Q: "queues_ok s Q" and inv: "lib_inv s" "awake s"
    and c: "pthread_create guard thunk ex stk start arg s = Some (r, th, s')"
  shows "queues_ok s' Q \<and> awake s' \<and> barriers s' = barriers s \<and> mutexes s' = mutexes s \<and> current_tid s' = current_tid s \<and>
    frames s' = frames s \<and> nodes s' = nodes s \<and> next_addr s' = next_addr s \<and>
    (\<not> is_first_call s \<longrightarrow> blocked s' = blocked s)"
proof -
  let ?s = "first_call guard s"
  have inv1: "lib_inv ?s" using inv(1) by (rule lib_inv_first_call)
  have one: "queues_ok ?s Q \<and> awake ?s \<and> (\<not> is_first_call s \<longrightarrow> blocked ?s = blocked s)"
  proof (cases "is_first_call s")
    case True
    have "Q m = []" for m
    proof (rule ccontr)
      assume "Q m \<noteq> []"
      then obtain a where a: "a \<in> set (Q m)" by (cases "Q m") auto
      then obtain n where "nodes s a = Some n" using queues_ok_dom(1) [OF Q] by blast
      then have "tid_at (nodes s) a = current_tid s"
        using inv(1) True lib_inv_node_alive [OF inv(1)] by (auto simp: tid_at_def alive_def lib_inv_def)
      then show False using queues_ok_blocked [OF Q a] inv(2) by (simp add: awake_def)
    qed
    moreover have "blocked ?s = {}"
      using threads_first_call [OF inv(1) True] by (auto simp: blocked_def status_of_def init_tcb_def Let_def)
    ultimately show ?thesis
      using Q True by (simp add: queues_ok_def queue_ok_def fresh_nodes_def awake_def split: option.splits)
  qed (use Q inv(2) in simp)
  show ?thesis
  proof (cases "num_threads ?s \<ge> MAX_THREADS")
    case True
    then have "s' = ?s" using c by (simp add: pthread_create_eq [OF inv(1)])
    then show ?thesis using one by simp
  next
    case False
    then have s': "s' = with_thread guard thunk ex stk start arg ?s"
      using c by (simp add: pthread_create_eq [OF inv(1)] Let_def split: if_splits)
    have len: "num_threads ?s < length (threads ?s)" using False inv1 by (simp add: lib_inv_def table_ok_def)
    have "status_of ?s (num_threads ?s) \<noteq> TS_BLOCKED"
      using lib_inv_slot [OF inv1, of "num_threads ?s"] False by (simp add: slot_inv_def alive_def status_of_def)
    then have "blocked s' = blocked ?s"
      using s' threads_with_thread [OF len] by (auto simp: blocked_def status_of_def new_tcb_def split: if_splits)
    then have "calm ?s (s'\<lparr>num_threads := num_threads ?s\<rparr>)"
      using s' by (simp add: calm_def blocked_def status_of_def)
    then have "queues_ok (s'\<lparr>num_threads := num_threads ?s\<rparr>) Q" using one queues_ok_calm by blast
    then have "queues_ok s' Q"
      using queue_ok_cong [of s' "s'\<lparr>num_threads := num_threads ?s\<rparr>"]
      by (simp add: queues_ok_def fresh_nodes_def blocked_def status_of_def)
    then show ?thesis using one s' \<open>blocked s' = blocked ?s\<close> by (auto simp: awake_def)
  qed
qed

section \<open>Every call\<close>

text \<open>The calls that concern neither mutexes nor thread creation.\<close>

definition other_call :: "thread_call \<Rightarrow> bool" where
  "other_call c \<longleftrightarrow>
     (case c of Create _ _ _ \<Rightarrow> False | Mutex_init \<Rightarrow> False | Mutex_destroy _ \<Rightarrow> False | Mutex_lock _ \<Rightarrow> False
      | Mutex_unlock _ \<Rightarrow> False | _ \<Rightarrow> True)"

lemma gentle_other_call:
  assumes "lib_inv s" "barriers_ok s" "awake s" "other_call c" "lib_step e c s = Some (r, s')"
  shows "gentle s s'"
proof -
  have tab: "table_ok s" using assms(1) by (rule lib_inv_table_ok)
  have step: "lib_call e c s = Some (r, s')" using assms(5) by (simp add: lib_step_def split: if_splits)
  show ?thesis
  proof (cases c)
    case (Exit v)
    then show ?thesis using step gentle_exit [OF tab assms(2,3)] by auto
  next
    case Self
    then show ?thesis using step assms(2,3) by (simp add: gentle_def)
  next
    case (Join t rv)
    then show ?thesis using step gentle_join [OF tab assms(2,3)] by auto
  next
    case (Barrier_init n)
    then have "s' = snd (pthread_barrier_init n s)" using step by (auto split: prod.splits)
    moreover have "blocked (snd (pthread_barrier_init n s)) = blocked s"
      by (rule blocked_cong) (simp add: pthread_barrier_init_def)
    ultimately show ?thesis
      using assms(2,3) by (auto simp: gentle_def calm_def awake_def barriers_ok_def pthread_barrier_init_def)
  next
    case (Barrier_destroy b)
    then show ?thesis
      using step assms(2,3)
      by (auto simp: gentle_def calm_def awake_def barriers_ok_def pthread_barrier_destroy_def split: option.splits if_splits)
  next
    case (Barrier_wait b)
    then show ?thesis using step gentle_barrier_wait [OF tab assms(2)] by auto
  next
    case Resume
    then show ?thesis using step gentle_resume [OF tab assms(2,3)] by auto
  next
    case Tick
    then show ?thesis using step gentle_yield_in [OF tab assms(2)] by (auto simp: alarm_def split: if_splits)
  qed (use assms(4) in \<open>simp_all add: other_call_def\<close>)
qed

text \<open>The part of the invariant that a step has to establish beside \<open>lib_inv\<close>.\<close>

definition wait_inv :: "lib_state \<Rightarrow> bool" where
  "wait_inv s \<longleftrightarrow> barriers_ok s \<and> awake s \<and> (\<exists>Q. queues_ok s Q)"

lemma sync_inv_eq: "sync_inv s \<longleftrightarrow> lib_inv s \<and> wait_inv s"
  by (simp add: sync_inv_def wait_inv_def)

lemma wait_inv_gentle: "wait_inv s \<Longrightarrow> gentle s s' \<Longrightarrow> wait_inv s'"
  using queues_ok_calm by (auto simp: wait_inv_def gentle_def)

lemma wait_inv_scheduled:
  assumes "queues_ok s Q" "table_ok s" "barriers_ok s" "schedule guard (set_frame f s) = Some s'"
  shows "wait_inv s'" "queues_ok s' Q"
proof -
  have "table_ok (set_frame f s)" using assms(2) by simp
  note y = schedule_calm [OF this assms(4)]
  show "queues_ok s' Q" using queues_ok_calm [OF assms(1) calm_trans [OF calm_wrappers(1) y(1)]] .
  then show "wait_inv s'" using y(2,4) assms(3) by (auto simp: wait_inv_def barriers_ok_def)
qed

lemma wait_inv_lock:
  assumes "lib_inv s" "wait_inv s" "pthread_mutex_lock guard m s = Some (r, s')"
  shows "wait_inv s'"
proof -
  obtain Q where Q: "queues_ok s Q" "barriers_ok s" "awake s" using assms(2) by (auto simp: wait_inv_def)
  from assms(3) show ?thesis
  proof (cases rule: lock_SomeE)
    case (free v)
    then show ?thesis
      using lock_free_queues [OF Q(1) assms(1) Q(3) free(1,2,4)] Q(2) by (auto simp: wait_inv_def)
  next
    case (contended v n s2 s3)
    then show ?thesis
      using lock_contended_queues [OF Q(1) assms(1) Q(3) contended(1,2,4,5)]
        wait_inv_scheduled [of s3 _ guard Lock_Blocked s'] Q(2) by (auto simp: barriers_ok_def)
  qed
qed

lemma wait_inv_unlock:
  assumes "lib_inv s" "wait_inv s" "pthread_mutex_unlock guard m s = Some (r, s')"
  shows "wait_inv s'"
proof -
  obtain Q where Q: "queues_ok s Q" "barriers_ok s" "awake s" using assms(2) by (auto simp: wait_inv_def)
  from assms(3) show ?thesis
  proof (cases rule: unlock_SomeE)
    case (alone v)
    then show ?thesis using unlock_alone_queues [OF Q(1) alone(1,2,4)] Q(2,3) by (auto simp: wait_inv_def)
  next
    case (wakes v h n v1 s1)
    then show ?thesis
      using unlock_wakes_queues [OF Q(1) assms(1) wakes(1,2,4,6)] wait_inv_scheduled(1) [OF _ _ _ wakes(7)] Q(2)
      by (auto simp: barriers_ok_def)
  qed
qed

lemma sync_inv_step:
  assumes "sync_inv s" "lib_step e c s = Some (r, s')"
  shows "sync_inv s'"
proof -
  have inv: "lib_inv s" "wait_inv s" using assms(1) by (simp_all add: sync_inv_eq)
  obtain Q where Q: "queues_ok s Q" "barriers_ok s" "awake s" using inv(2) by (auto simp: wait_inv_def)
  have step: "lib_call e c s = Some (r, s')" using assms(2) by (simp add: lib_step_def split: if_splits)
  have "wait_inv s'"
  proof (cases "other_call c")
    case True
    then show ?thesis using wait_inv_gentle [OF inv(2)] gentle_other_call [OF inv(1) Q(2,3) True assms(2)] by blast
  next
    case False
    then show ?thesis
    proof (cases c)
      case (Create stk start arg)
      then show ?thesis
        using step create_queues [OF Q(1) inv(1) Q(3)] Q(2) by (fastforce simp: wait_inv_def barriers_ok_def split: option.splits)
    next
      case Mutex_init
      then obtain m where m: "pthread_mutex_init (env_usable e) s = Some (m, s')" using step by auto
      then have "current_tid s' = current_tid s" "barriers s' = barriers s"
        by (auto simp: pthread_mutex_init_def split: if_splits)
      then show ?thesis using mutex_init_queues [OF Q(1) m] Q(2,3) by (auto simp: wait_inv_def awake_def barriers_ok_def)
    next
      case (Mutex_destroy m)
      then show ?thesis
        using step mutex_destroy_queues [OF Q(1)] Q(2,3) by (fastforce simp: wait_inv_def awake_def barriers_ok_def)
    next
      case (Mutex_lock m)
      then show ?thesis using step wait_inv_lock [OF inv] by auto
    next
      case (Mutex_unlock m)
      then show ?thesis using step wait_inv_unlock [OF inv] by auto
    qed (simp_all add: other_call_def)
  qed
  then show ?thesis using lib_inv_step [OF inv(1) assms(2)] by (simp add: sync_inv_eq)
qed

end
