(* ===== verification/Sync_Clients.thy ===== *)
theory Sync_Clients
  imports Sync_Steps
begin

text \<open>
  The library under clients that unlock a mutex only when they hold it, that is, when their last
  \<open>pthread_mutex_lock\<close> on it returned 0: the holders are tracked beside the state.  At most one
  thread holds a mutex; but when two or more threads wait, the mutex stays locked without a holder
  and the remaining threads wait for ever.
\<close>

section \<open>The slots of the thread table\<close>

lemma slots_used_step:
  assumes "sync_inv s" "lib_step e c s = Some (r, s')"
  shows "slots_used s + (if thread_creates c r then 1 else 0) \<le> slots_used s'"
proof -
  have inv: "lib_inv s" "wait_inv s" using assms(1) by (simp_all add: sync_inv_eq)
  obtain Q where Q: "queues_ok s Q" "barriers_ok s" "awake s" using inv(2) by (auto simp: wait_inv_def)
  have step: "lib_call e c s = Some (r, s')" using assms(2) by (simp add: lib_step_def split: if_splits)
  show ?thesis
  proof (cases "other_call c")
    case True
    then have "gentle s s'" using gentle_other_call [OF inv(1) Q(2,3) True assms(2)] by blast
    then have "slots_used s' = slots_used s" by (simp add: gentle_def calm_def slots_used_def)
    then show ?thesis using True by (simp add: thread_creates_def other_call_def split: thread_call.splits)
  next
    case False
    then show ?thesis
    proof (cases c)
      case (Create stk start arg)
      then show ?thesis
        using step slots_used_create [OF inv(1)] by (fastforce simp: thread_creates_def split: option.splits)
    next
      case Mutex_init
      then show ?thesis
        using step by (auto simp: thread_creates_def pthread_mutex_init_def slots_used_def split: if_splits)
    next
      case (Mutex_destroy m)
      then show ?thesis
        using step by (auto simp: thread_creates_def pthread_mutex_destroy_def slots_used_def split: if_splits option.splits)
    next
      case (Mutex_lock m)
      then have "pthread_mutex_lock (env_guard e) m s = Some (r, s')" using step by simp
      then have "slots_used s' = slots_used s"
      proof (cases rule: lock_SomeE)
        case (free v)
        then show ?thesis by simp
      next
        case (contended v n s2 s3)
        have "table_ok (set_frame Lock_Blocked s3)" "slots_used s3 = slots_used s"
          using lock_contended_queues [OF Q(1) inv(1) Q(3) contended(1,2,4,5)] by (simp_all add: slots_used_def)
        then show ?thesis
          using schedule_fields(1,2) [OF _ contended(6)] slots_used_cong [of s' "set_frame Lock_Blocked s3"] by simp
      qed
      then show ?thesis using Mutex_lock by (simp add: thread_creates_def)
    next
      case (Mutex_unlock m)
      then have "pthread_mutex_unlock (env_guard e) m s = Some (r, s')" using step by simp
      then have "slots_used s' = slots_used s"
      proof (cases rule: unlock_SomeE)
        case (alone v)
        then show ?thesis by simp
      next
        case (wakes v h n v1 s1)
        let ?s2 = "unlock (set_mutex m (if blocked_threads_head v1 = None then v1\<lparr>locked := 0\<rparr> else v1) s1)"
        have "table_ok ?s2" "slots_used ?s2 = slots_used s"
          using unlock_wakes_queues [OF Q(1) inv(1) wakes(1,2,4,6)] by (auto simp: slots_used_def)
        then show ?thesis
          using schedule_fields(1,2) [OF _ wakes(7)] slots_used_cong [of s' "set_frame Unlock_Yield ?s2"] by simp
      qed
      then show ?thesis using Mutex_unlock by (simp add: thread_creates_def)
    qed (simp_all add: other_call_def)
  qed
qed

lemma sync_inv_start: "sync_inv (lib_start c)"
proof -
  have "queues_ok (lib_start c) (\<lambda>_. [])"
    by (simp add: queues_ok_def queue_ok_def lib_start_def fresh_nodes_def)
  moreover have "awake (lib_start c)" "barriers_ok (lib_start c)"
    by (simp_all add: awake_def blocked_def status_of_def barriers_ok_def lib_start_def zero_tcb_def)
  ultimately show ?thesis using lib_inv_start by (auto simp: sync_inv_def)
qed

interpretation tlib: resource_system "lib_step e" sync_inv slots_used thread_creates
  by unfold_locales (blast intro: sync_inv_step, blast intro: slots_used_step)

section \<open>Clients that unlock only what they hold\<close>

type_synonym client_state = "lib_state \<times> (nat \<times> nat) list"

definition client_step :: "env \<Rightarrow> thread_call \<Rightarrow> client_state \<Rightarrow> (int option \<times> client_state) option" where
  "client_step e c =
     (\<lambda>(s, H).
        (case c of
           Mutex_lock m \<Rightarrow>
             map_option (\<lambda>(r, s'). (r, s', if r = Some 0 then (m, current_tid s) # H else H)) (lib_step e c s)
         | Mutex_unlock m \<Rightarrow>
             if (m, current_tid s) \<in> set H
             then map_option (\<lambda>(r, s'). (r, s', removeAll (m, current_tid s) H)) (lib_step e c s)
             else None
         | _ \<Rightarrow> map_option (\<lambda>(r, s'). (r, s', H)) (lib_step e c s)))"

definition is_locked :: "lib_state \<Rightarrow> nat \<Rightarrow> bool" where
  "is_locked s m \<longleftrightarrow> (\<exists>v. mutexes s m = Some v \<and> locked v \<noteq> 0)"

definition holders_ok :: "client_state \<Rightarrow> bool" where
  "holders_ok = (\<lambda>(s, H).
     sync_inv s \<and> (\<forall>(m, t) \<in> set H. is_locked s m) \<and>
     (\<forall>(m, t) \<in> set H. \<forall>(m', t') \<in> set H. m = m' \<longrightarrow> t = t'))"

lemma client_step_lib:
  "client_step e c (s, H) = Some (r, s', H') \<Longrightarrow> lib_step e c s = Some (r, s')"
  by (auto simp: client_step_def split: thread_call.splits if_splits)

text \<open>What a step does to the lock of a mutex \<open>m\<close>.\<close>

lemma schedule_mutexes:
  "table_ok s \<Longrightarrow> schedule guard (set_frame f s) = Some s' \<Longrightarrow> mutexes s' = mutexes s"
  using schedule_fields(5) [of "set_frame f s"] by simp

lemma lock_is_locked:
  assumes "sync_inv s" "pthread_mutex_lock guard k s = Some (r, s')"
  shows "is_locked s' m \<longleftrightarrow> is_locked s m \<or> m = k" "r = Some 0 \<longleftrightarrow> \<not> is_locked s k"
proof -
  obtain Q where Q: "queues_ok s Q" "lib_inv s" "awake s" using assms(1) by (auto simp: sync_inv_def)
  have "(is_locked s' m \<longleftrightarrow> is_locked s m \<or> m = k) \<and> (r = Some 0 \<longleftrightarrow> \<not> is_locked s k)"
    using assms(2)
  proof (cases rule: lock_SomeE)
    case (free v)
    then show ?thesis by (auto simp: is_locked_def)
  next
    case (contended v n s2 s3)
    then obtain v' where "table_ok s3" "mutexes s3 = (mutexes s)(k \<mapsto> v')" "locked v' = locked v"
      using lock_contended_queues [OF Q contended(1,2,4,5)] by blast
    then show ?thesis using contended schedule_mutexes [of s3 guard Lock_Blocked s'] by (auto simp: is_locked_def)
  qed
  then show "is_locked s' m \<longleftrightarrow> is_locked s m \<or> m = k" "r = Some 0 \<longleftrightarrow> \<not> is_locked s k" by blast+
qed

lemma unlock_other_locked:
  assumes "sync_inv s" "pthread_mutex_unlock guard k s = Some (r, s')" "m \<noteq> k"
  shows "is_locked s' m \<longleftrightarrow> is_locked s m"
proof -
  obtain Q where Q: "queues_ok s Q" "lib_inv s" using assms(1) by (auto simp: sync_inv_def)
  from assms(2) show ?thesis
  proof (cases rule: unlock_SomeE)
    case (alone v)
    then show ?thesis using assms(3) by (simp add: is_locked_def)
  next
    case (wakes v h n v1 s1)
    let ?s2 = "unlock (set_mutex k (if blocked_threads_head v1 = None then v1\<lparr>locked := 0\<rparr> else v1) s1)"
    obtain v2 where "table_ok ?s2" "mutexes ?s2 = (mutexes s)(k \<mapsto> v2)"
      using unlock_wakes_queues [OF Q wakes(1,2,4,6)] by blast
    then have "mutexes s' = (mutexes s)(k \<mapsto> v2)" using schedule_mutexes [OF _ wakes(7)] by simp
    then show ?thesis using assms(3) by (simp add: is_locked_def)
  qed
qed

lemma step_keeps_locked:
  assumes "sync_inv s" "lib_step e c s = Some (r, s')" "is_locked s m" "c \<noteq> Mutex_unlock m"
  shows "is_locked s' m"
proof -
  have inv: "lib_inv s" "wait_inv s" using assms(1) by (simp_all add: sync_inv_eq)
  obtain Q where Q: "queues_ok s Q" "barriers_ok s" "awake s" using inv(2) by (auto simp: wait_inv_def)
  have step: "lib_call e c s = Some (r, s')" using assms(2) by (simp add: lib_step_def split: if_splits)
  show ?thesis
  proof (cases "other_call c")
    case True
    then have "mutexes s' = mutexes s"
      using gentle_other_call [OF inv(1) Q(2,3) True assms(2)] by (simp add: gentle_def calm_def)
    then show ?thesis using assms(3) by (simp add: is_locked_def)
  next
    case False
    then show ?thesis
    proof (cases c)
      case (Create stk start arg)
      then have "mutexes s' = mutexes s"
        using step create_queues [OF Q(1) inv(1) Q(3)] by (fastforce split: option.splits)
      then show ?thesis using assms(3) by (simp add: is_locked_def)
    next
      case Mutex_init
      then obtain k where k: "pthread_mutex_init (env_usable e) s = Some (k, s')" using step by auto
      then have "k \<noteq> m" using mutex_init_queues [OF Q(1) k] assms(3) by (auto simp: is_locked_def)
      then show ?thesis using k assms(3) by (auto simp: pthread_mutex_init_def is_locked_def split: if_splits)
    next
      case (Mutex_destroy k)
      then show ?thesis using step mutex_destroy_queues [OF Q(1)] assms(3) by (fastforce simp: is_locked_def)
    next
      case (Mutex_lock k)
      then show ?thesis using step lock_is_locked(1) [OF assms(1)] assms(3) by auto
    next
      case (Mutex_unlock k)
      then show ?thesis using step unlock_other_locked [OF assms(1)] assms(3,4) by auto
    qed (simp_all add: other_call_def)
  qed
qed

lemma holders_ok_step:
  assumes "holders_ok sH" "client_step e c sH = Some (r, sH')"
  shows "holders_ok sH'"
proof -
  obtain s H where sH: "sH = (s, H)" by (cases sH)
  obtain s' H' where sH': "sH' = (s', H')" by (cases sH')
  have step: "lib_step e c s = Some (r, s')" using assms(2) client_step_lib sH sH' by blast
  have inv: "sync_inv s" "\<And>m t. (m, t) \<in> set H \<Longrightarrow> is_locked s m"
      "\<And>m t t'. (m, t) \<in> set H \<Longrightarrow> (m, t') \<in> set H \<Longrightarrow> t = t'"
    using assms(1) sH unfolding holders_ok_def by blast+
  have keep: "is_locked s' m" if "(m, t) \<in> set H" "c \<noteq> Mutex_unlock m" for m t
    using step_keeps_locked [OF inv(1) step] inv(2) that by blast
  have inv': "sync_inv s'" using sync_inv_step [OF inv(1) step] .
  consider (lock) m where "c = Mutex_lock m" | (unlock) m where "c = Mutex_unlock m"
    | (other) "H' = H" "\<And>m. c \<noteq> Mutex_unlock m"
    using assms(2) sH sH' by (cases c) (auto simp: client_step_def)
  then show ?thesis
  proof cases
    case (lock m)
    have "pthread_mutex_lock (env_guard e) m s = Some (r, s')" using step lock by (simp add: lib_step_def split: if_splits)
    note l = lock_is_locked [OF inv(1) this]
    have "H' = (if r = Some 0 then (m, current_tid s) # H else H)"
      using assms(2) sH sH' lock step by (simp add: client_step_def)
    moreover have "(m, t) \<notin> set H" if "r = Some 0" for t using l(2) inv(2) that by blast
    ultimately show ?thesis
      using inv' inv(2,3) lock l(1) sH' unfolding holders_ok_def by (auto split: if_splits)
  next
    case (unlock m)
    then have H': "H' = removeAll (m, current_tid s) H" "(m, current_tid s) \<in> set H"
      using assms(2) sH sH' step by (simp_all add: client_step_def split: if_splits)
    then have none: "(m, t) \<notin> set H'" for t using inv(3) by fastforce
    then have "is_locked s' k" if "(k, t) \<in> set H'" for k t
      using keep [of k t] that unlock H'(1) by (cases "k = m") auto
    moreover have "set H' \<subseteq> set H" using H'(1) by auto
    ultimately show ?thesis using inv' inv(3) sH' unfolding holders_ok_def by blast
  next
    case other
    then show ?thesis using inv' inv(3) keep sH' unfolding holders_ok_def by auto
  qed
qed

interpretation clients: invariant_system "client_step e" holders_ok
  by unfold_locales (rule holders_ok_step)

section \<open>Waiting threads that nobody wakes\<close>

text \<open>The mutex \<open>m\<close> is locked, no client holds it, and the threads \<open>T\<close> wait for it.\<close>

definition stranded :: "nat \<Rightarrow> nat set \<Rightarrow> client_state \<Rightarrow> bool" where
  "stranded m T = (\<lambda>(s, H).
     sync_inv s \<and> is_locked s m \<and> (\<forall>t. (m, t) \<notin> set H) \<and>
     (\<exists>Q. queues_ok s Q \<and> T \<subseteq> set (tids s (Q m))))"

lemma stranded_blocked: "stranded m T (s, H) \<Longrightarrow> t \<in> T \<Longrightarrow> status_of s t = TS_BLOCKED"
proof -
  assume s: "stranded m T (s, H)" "t \<in> T"
  then obtain Q where "queues_ok s Q" "t \<in> set (tids s (Q m))" unfolding stranded_def by blast
  then have "t \<in> blocked s" unfolding queues_ok_def by blast
  then show "status_of s t = TS_BLOCKED" by (simp add: blocked_def)
qed

lemma queues_scheduled:
  assumes "queues_ok s Q" "table_ok s" "schedule guard (set_frame f s) = Some s'"
  shows "queues_ok s' Q" "nodes s' = nodes s"
proof -
  have "table_ok (set_frame f s)" using assms(2) by simp
  note y = schedule_calm(1) [OF this assms(3)]
  show "queues_ok s' Q" using queues_ok_calm [OF assms(1) calm_trans [OF calm_wrappers(1) y]] .
  show "nodes s' = nodes s" using y by (simp add: calm_def)
qed

text \<open>No call but \<open>pthread_mutex_unlock\<close> on \<open>m\<close> takes a thread out of the queue of \<open>m\<close>.\<close>

lemma step_keeps_waiters:
  assumes "sync_inv s" "lib_step e c s = Some (r, s')" "c \<noteq> Mutex_unlock m" "queues_ok s Q"
  shows "\<exists>Q'. queues_ok s' Q' \<and> set (tids s (Q m)) \<subseteq> set (tids s' (Q' m))"
proof -
  have inv: "lib_inv s" "barriers_ok s" "awake s" using assms(1) by (simp_all add: sync_inv_def)
  have step: "lib_call e c s = Some (r, s')" using assms(2) by (simp add: lib_step_def split: if_splits)
  show ?thesis
  proof (cases "other_call c")
    case True
    then have "calm s s'" using gentle_other_call [OF inv True assms(2)] by (simp add: gentle_def)
    then show ?thesis using queues_ok_calm [OF assms(4)] by (auto simp: calm_def)
  next
    case False
    then show ?thesis
    proof (cases c)
      case (Create stk start arg)
      then have "queues_ok s' Q" "nodes s' = nodes s"
        using step create_queues [OF assms(4) inv(1,3)] by (fastforce split: option.splits)+
      then show ?thesis by auto
    next
      case Mutex_init
      then obtain k where k: "pthread_mutex_init (env_usable e) s = Some (k, s')" using step by auto
      then have "nodes s' = nodes s" by (auto simp: pthread_mutex_init_def split: if_splits)
      then show ?thesis using mutex_init_queues [OF assms(4) k] by auto
    next
      case (Mutex_destroy k)
      then have "queues_ok s' Q" "nodes s' = nodes s"
        using step mutex_destroy_queues [OF assms(4), of k] by fastforce+
      then show ?thesis by auto
    next
      case (Mutex_lock k)
      then have "pthread_mutex_lock (env_guard e) k s = Some (r, s')" using step by simp
      then show ?thesis
      proof (cases rule: lock_SomeE)
        case (free v)
        then show ?thesis using lock_free_queues [OF assms(4) inv(1,3) free(1,2,4)] by auto
      next
        case (contended v n s2 s3)
        note l = lock_contended_queues [OF assms(4) inv(1,3) contended(1,2,4,5)]
        then have q: "queues_ok s' (Q(k := Q k @ [n]))" "nodes s' = nodes s3"
          using queues_scheduled [OF _ _ contended(6)] by blast+
        have "set (tids s (Q m)) \<subseteq> set (tids s' ((Q(k := Q k @ [n])) m))"
        proof (cases "m = k")
          case True
          have "tids s3 (Q k @ [n]) = tids s (Q k) @ [current_tid s]" using l by blast
          then have "set (tids s3 (Q k @ [n])) = set (tids s (Q k) @ [current_tid s])" by metis
          then show ?thesis using True q(2) by (auto simp del: set_map map_append)
        next
          case False
          then have "tids s3 (Q m) = tids s (Q m)" using l by blast
          then show ?thesis using False q(2) by (simp del: set_map map_eq_conv)
        qed
        then show ?thesis using q(1) by blast
      qed
    next
      case (Mutex_unlock k)
      then have "pthread_mutex_unlock (env_guard e) k s = Some (r, s')" "k \<noteq> m" using step assms(3) by auto
      then show ?thesis
      proof (cases rule: unlock_SomeE)
        case (alone v)
        then show ?thesis using unlock_alone_queues [OF assms(4) alone(1,2,4)] by auto
      next
        case (wakes v h n v1 s1)
        let ?s2 = "unlock (set_mutex k (if blocked_threads_head v1 = None then v1\<lparr>locked := 0\<rparr> else v1) s1)"
        obtain as where as: "queues_ok ?s2 (Q(k := as))" "table_ok ?s2"
            "\<forall>m'. m' \<noteq> k \<longrightarrow> tids ?s2 (Q m') = tids s (Q m')"
          using unlock_wakes_queues [OF assms(4) inv(1) wakes(1,2,4,6)] by (elim exE conjE) (rule that)
        then have q: "queues_ok s' (Q(k := as))" "nodes s' = nodes ?s2"
          using queues_scheduled [OF _ _ wakes(7)] by blast+
        moreover have "tids s' ((Q(k := as)) m) = tids s (Q m)"
          unfolding q(2) using spec [OF as(3), of m] \<open>k \<noteq> m\<close> by simp
        ultimately show ?thesis by (intro exI [of _ "Q(k := as)"]) (simp del: set_map map_eq_conv)
      qed
    qed (simp_all add: other_call_def)
  qed
qed

lemma stranded_step:
  assumes "stranded m T sH" "client_step e c sH = Some (r, sH')"
  shows "stranded m T sH'"
proof -
  obtain s H where sH: "sH = (s, H)" by (cases sH)
  obtain s' H' where sH': "sH' = (s', H')" by (cases sH')
  have step: "lib_step e c s = Some (r, s')" using assms(2) client_step_lib sH sH' by blast
  obtain Q where inv: "sync_inv s" "is_locked s m" "\<And>t. (m, t) \<notin> set H" "queues_ok s Q" "T \<subseteq> set (tids s (Q m))"
    using assms(1) sH unfolding stranded_def by blast
  have c: "c \<noteq> Mutex_unlock m" using assms(2) sH inv(3) by (auto simp: client_step_def)
  have H': "(m, t) \<notin> set H'" for t
  proof (cases "c = Mutex_lock m")
    case True
    then have "pthread_mutex_lock (env_guard e) m s = Some (r, s')" using step by (simp add: lib_step_def split: if_splits)
    then have "r \<noteq> Some 0" using lock_is_locked(2) [OF inv(1)] inv(2) by blast
    then show ?thesis using True assms(2) sH sH' step inv(3) by (simp add: client_step_def)
  next
    case False
    then show ?thesis
      using assms(2) sH sH' inv(3) by (cases c) (auto simp: client_step_def split: if_splits)
  qed
  obtain Q' where "queues_ok s' Q'" "set (tids s (Q m)) \<subseteq> set (tids s' (Q' m))"
    using step_keeps_waiters [OF inv(1) step c inv(4)] by blast
  then show ?thesis
    using sync_inv_step [OF inv(1) step] step_keeps_locked [OF inv(1) step inv(2) c] H' inv(5) sH'
    unfolding stranded_def by blast
qed

interpretation strand: invariant_system "client_step e" "stranded m T"
  by unfold_locales (rule stranded_step)

text \<open>Unlocking with two or more threads in the queue strands all but the first.\<close>

lemma unlock_strands:
  assumes inv: "holders_ok (s, H)" and q: "waiting m s (t # u # ts)" and step: "client_step e (Mutex_unlock m) (s, H) = Some (r, s', H')"
  shows "stranded m (set (u # ts)) (s', H')"
proof -
  have lib: "lib_step e (Mutex_unlock m) s = Some (r, s')" using client_step_lib [OF step] .
  then have call: "pthread_mutex_unlock (env_guard e) m s = Some (r, s')" by (simp add: lib_step_def split: if_splits)
  have sinv: "sync_inv s" using inv by (simp add: holders_ok_def)
  obtain Q where Q: "queues_ok s Q" "lib_inv s" using sinv by (auto simp: sync_inv_def)
  obtain v as where v: "mutexes s m = Some v" "mutex_rep (nodes s) v as" "t # u # ts = tids s as"
    using q by (auto simp: waiting_def)
  have asQ: "as = Q m" using v(2) queues_ok_rep [OF Q(1) v(1)] chain_unique by (auto simp: mutex_rep_def)
  have H': "H' = removeAll (m, current_tid s) H" "(m, current_tid s) \<in> set H"
    using step by (auto simp: client_step_def split: if_splits)
  then have nohold: "(m, k) \<notin> set H'" for k using inv unfolding holders_ok_def by fastforce
  have lk: "is_locked s m" using inv H'(2) unfolding holders_ok_def by blast
  from call show ?thesis
  proof (cases rule: unlock_SomeE)
    case (alone w)
    then have "as = []" using v(1,2) by (simp add: mutex_rep_def)
    then show ?thesis using v(3) by simp
  next
    case (wakes w h n v1 s1)
    let ?s2 = "unlock (set_mutex m (if blocked_threads_head v1 = None then v1\<lparr>locked := 0\<rparr> else v1) s1)"
    obtain bs v2 where b: "Q m = h # bs" "queues_ok ?s2 (Q(m := bs))" "table_ok ?s2" "tids ?s2 bs = tids s bs"
        "mutexes ?s2 = (mutexes s)(m \<mapsto> v2)" "locked v2 = (if bs = [] then 0 else locked w)"
      using unlock_wakes_queues [OF Q wakes(1,2,4,6)] by blast
    have tl: "tids s bs = u # ts" using v(3) asQ b(1) by simp
    have s': "queues_ok s' (Q(m := bs))" "nodes s' = nodes ?s2" "mutexes s' = (mutexes s)(m \<mapsto> v2)"
      using queues_scheduled [OF b(2,3) wakes(7)] schedule_mutexes [OF b(3) wakes(7)] b(5) by simp_all
    have "tids s' bs = u # ts" using tl b(4) unfolding s'(2) by simp
    moreover have "bs \<noteq> []" using tl by auto
    then have "is_locked s' m" using lk wakes(1) b(6) s'(3) by (simp add: is_locked_def)
    ultimately show ?thesis
      using sync_inv_step [OF sinv lib] nohold s'(1) unfolding stranded_def
      by (auto intro!: exI [of _ "Q(m := bs)"] simp del: set_map)
  qed
qed

end
