(* ===== verification/Sync_Barriers.thy ===== *)
theory Sync_Barriers
  imports Sync_Clients
begin

text \<open>
  Barriers: no thread returns from \<open>pthread_barrier_wait\<close> before as many threads as the barrier
  counts have entered it, and a barrier that is used twice can leave every thread in the waiting loop
  for ever.
\<close>

section \<open>Where the threads are\<close>

fun leaving :: "nat \<Rightarrow> frame \<Rightarrow> bool" where
  "leaving b (Handler f) = leaving b f"
| "leaving b (Barrier_Leave b') = (b' = b)"
| "leaving b _ = False"

fun spinning :: "nat \<Rightarrow> frame \<Rightarrow> bool" where
  "spinning b (Handler f) = spinning b f"
| "spinning b (Barrier_Spin b') = (b' = b)"
| "spinning b _ = False"

definition complete :: "lib_state \<Rightarrow> nat \<Rightarrow> bool" where
  "complete s b \<longleftrightarrow> (\<exists>v. barriers s b = Some v \<and> barrier_count v \<le> threads_blocked v)"

text \<open>The frame that a step leaves, and the barriers it changes.\<close>

definition frame_to :: "(frame \<Rightarrow> bool) \<Rightarrow> lib_state \<Rightarrow> lib_state \<Rightarrow> bool" where
  "frame_to P s s' \<longleftrightarrow> (\<exists>f. frames s' = (frames s)(current_tid s := f) \<and> P f)"

definition may_leave :: "lib_state \<Rightarrow> lib_state \<Rightarrow> frame \<Rightarrow> bool" where
  "may_leave s s' f \<longleftrightarrow> (\<forall>b. leaving b f \<longrightarrow> leaving b (frames s (current_tid s)) \<or> complete s' b)"

definition barrier_moves :: "bool \<Rightarrow> my_barrier_t \<Rightarrow> my_barrier_t \<Rightarrow> bool" where
  "barrier_moves enters v v' \<longleftrightarrow>
     barrier_count v' = barrier_count v \<and>
     (threads_blocked v' \<le> threads_blocked v + (if enters then 1 else 0) \<or> threads_blocked v' = 0)"

lemma barrier_moves_refl [simp]: "barrier_moves e v v"
  by (simp add: barrier_moves_def)

lemma frame_to_refl: "P (frames s (current_tid s)) \<Longrightarrow> frames s' = frames s \<Longrightarrow> frame_to P s s'"
  unfolding frame_to_def by (metis fun_upd_triv)

lemma frame_toI: "frames s' = (frames s)(current_tid s := f) \<Longrightarrow> P f \<Longrightarrow> frame_to P s s'"
  by (auto simp: frame_to_def)

lemma may_leave_loop:
  "complete s' b = C \<Longrightarrow> may_leave s s' (if C then Barrier_Leave b else Barrier_Spin b)"
  by (auto simp: may_leave_def)

lemma may_leave_same [simp]: "may_leave s s' (frames s (current_tid s))"
  by (simp add: may_leave_def)

lemma may_leave_inside [simp]:
  "may_leave s s' User" "may_leave s s' (Joining t rv)" "may_leave s s' Lock_Blocked"
  "may_leave s s' Unlock_Yield" "may_leave s s' (Barrier_Spin b)"
  "may_leave s s' (Handler f) = may_leave s s' f"
  by (auto simp: may_leave_def)

lemma loop_effect:
  assumes "table_ok s" "barriers_ok s" "barrier_loop guard b s = Some (r, s')"
  shows "barriers s' = barriers s" "r = None"
    "frames s' = (frames s)(current_tid s := if complete s b then Barrier_Leave b else Barrier_Spin b)"
proof -
  obtain v where v: "barriers s b = Some v" using assms(3) by (auto simp: barrier_loop_def split: option.splits)
  have rel: "barrier_release v b (lock s) = Some (lock s)"
    using barriers_ok_init [OF assms(2) v] by (simp add: barrier_release_def)
  have "barriers s' = barriers s \<and> r = None \<and>
      frames s' = (frames s)(current_tid s := if complete s b then Barrier_Leave b else Barrier_Spin b)"
  proof (cases "threads_blocked v < barrier_count v")
    case True
    then have "yield_in guard (Barrier_Spin b) s = Some (r, s')" using v assms(3) by (simp add: barrier_loop_def)
    then show ?thesis using yield_in_calm(3,4,7) [OF assms(1)] True v by (simp add: complete_def)
  next
    case False
    then have "yield_in guard (Barrier_Leave b) (unlock (lock s)) = Some (r, s')"
      using v assms(3) rel by (simp add: barrier_loop_def)
    then show ?thesis using yield_in_calm(3,4,7) [of "unlock (lock s)"] assms(1) False v by (simp add: complete_def)
  qed
  then show "barriers s' = barriers s" "r = None"
    "frames s' = (frames s)(current_tid s := if complete s b then Barrier_Leave b else Barrier_Spin b)" by blast+
qed

lemma join_effect:
  assumes "table_ok s" "pthread_join guard t rv s = Some (r, s')"
  shows "barriers s' = barriers s" "frame_to (may_leave s s') s s'"
proof -
  have "barriers s' = barriers s \<and> frame_to (may_leave s s') s s'"
  proof (cases "status_of s t = TS_EXITED")
    case True
    then have "barriers s' = barriers s" "frames s' = (frames s)(current_tid s := User)"
      using assms(2) by (auto simp: pthread_join_def free_stack_def set_frame_def split: option.splits if_splits)
    then show ?thesis unfolding frame_to_def by auto
  next
    case False
    then have "yield_in guard (Joining t rv) s = Some (r, s')"
      using assms(2) by (auto simp: pthread_join_def yield_in_def split: option.splits if_splits)
    then show ?thesis using yield_in_calm(3,4) [OF assms(1)] unfolding frame_to_def by auto
  qed
  then show "barriers s' = barriers s" "frame_to (may_leave s s') s s'" by blast+
qed

lemma exit_effect:
  assumes "table_ok s" "pthread_exit guard v s = Some s'"
  shows "barriers s' = barriers s" "frames s' = frames s"
proof -
  let ?t = "current_tid s"
  let ?b = "(threads s ! ?t)\<lparr>status := TS_EXITED, exit_status := v\<rparr>"
  let ?s = "s\<lparr>threads := (threads s)[?t := ?b], exited_string := exited_string s + 1, timer_on := False\<rparr>"
  have "table_ok ?s" using assms(1) by (auto simp: table_ok_def nth_list_update)
  moreover have "schedule guard ?s = Some s'"
    using assms by (simp add: pthread_exit_def set_status_def Let_def table_ok_def)
  ultimately show "barriers s' = barriers s" "frames s' = frames s" using schedule_calm(3,4) by fastforce+
qed

lemma lock_effect:
  assumes "sync_inv s" "pthread_mutex_lock guard m s = Some (r, s')"
  shows "barriers s' = barriers s" "frame_to (may_leave s s') s s'" "next_addr s \<le> next_addr s'"
proof -
  obtain Q where Q: "queues_ok s Q" "lib_inv s" "awake s" using assms(1) by (auto simp: sync_inv_def)
  have "barriers s' = barriers s \<and> frame_to (may_leave s s') s s' \<and> next_addr s \<le> next_addr s'"
    using assms(2)
  proof (cases rule: lock_SomeE)
    case (free v)
    then have "next_addr s' = next_addr s" by (simp add: unlock_def lock_def set_mutex_def set_status_def)
    then show ?thesis using free by (auto intro: frame_to_refl)
  next
    case (contended v n s2 s3)
    have s3: "barriers s3 = barriers s" "frames s3 = frames s" "current_tid s3 = current_tid s" "table_ok s3"
        "next_addr s \<le> next_addr s3"
      using lock_contended_queues [OF Q contended(1,2,4,5)] by simp_all
    then have "yield_in guard Lock_Blocked s3 = Some (None, s')" using contended(6) by (simp add: yield_in_def)
    note y = yield_in_calm(1,3,4) [OF s3(4) this]
    show ?thesis using y s3 by (auto simp: calm_def frame_to_def)
  qed
  then show "barriers s' = barriers s" "frame_to (may_leave s s') s s'" "next_addr s \<le> next_addr s'" by blast+
qed

lemma unlock_effect:
  assumes "sync_inv s" "pthread_mutex_unlock guard m s = Some (r, s')"
  shows "barriers s' = barriers s" "frame_to (may_leave s s') s s'" "next_addr s \<le> next_addr s'"
proof -
  obtain Q where Q: "queues_ok s Q" "lib_inv s" using assms(1) by (auto simp: sync_inv_def)
  have "barriers s' = barriers s \<and> frame_to (may_leave s s') s s' \<and> next_addr s \<le> next_addr s'"
    using assms(2)
  proof (cases rule: unlock_SomeE)
    case (alone v)
    then have "next_addr s' = next_addr s" by (simp add: unlock_def lock_def set_mutex_def)
    then show ?thesis using alone by (auto intro: frame_to_refl)
  next
    case (wakes v h n v1 s1)
    let ?s2 = "unlock (set_mutex m (if blocked_threads_head v1 = None then v1\<lparr>locked := 0\<rparr> else v1) s1)"
    have s2: "barriers ?s2 = barriers s" "frames ?s2 = frames s" "current_tid ?s2 = current_tid s" "table_ok ?s2"
        "next_addr ?s2 = next_addr s"
      using unlock_wakes_queues [OF Q wakes(1,2,4,6)] by auto
    have "yield_in guard Unlock_Yield ?s2 = Some (None, s')" using wakes(7) by (simp add: yield_in_def)
    note y = yield_in_calm(1,3,4) [OF s2(4) this]
    have "next_addr s \<le> next_addr s'" using y(1) s2(5) by (simp add: calm_def)
    then show ?thesis using y(2,3) s2(1-3) by (auto simp: frame_to_def)
  qed
  then show "barriers s' = barriers s" "frame_to (may_leave s s') s s'" "next_addr s \<le> next_addr s'" by blast+
qed

lemma wait_effect:
  assumes "table_ok s" "barriers_ok s" "pthread_barrier_wait guard b s = Some (r, s')"
  shows "\<exists>v. barriers s b = Some v \<and> barriers s' = (barriers s)(b \<mapsto> v\<lparr>threads_blocked := threads_blocked v + 1\<rparr>) \<and>
    frames s' = (frames s)(current_tid s := if complete s' b then Barrier_Leave b else Barrier_Spin b) \<and> r = None"
proof -
  obtain v where v: "barriers s b = Some v" using assms(3) by (auto simp: pthread_barrier_wait_def split: option.splits)
  let ?s1 = "set_barrier b (v\<lparr>threads_blocked := threads_blocked v + 1\<rparr>) s"
  have init: "barrier_init v = 1" using barriers_ok_init [OF assms(2) v] .
  then have "barrier_loop guard b ?s1 = Some (r, s')"
    using assms(3) v by (simp add: pthread_barrier_wait_def Let_def split: if_splits)
  moreover have "table_ok ?s1" "barriers_ok ?s1" using assms(1,2) init barriers_ok_set by simp_all
  ultimately have "barriers s' = barriers ?s1" "r = None"
      "frames s' = (frames ?s1)(current_tid ?s1 := if complete ?s1 b then Barrier_Leave b else Barrier_Spin b)"
    using loop_effect by blast+
  then show ?thesis using v by (simp add: complete_def)
qed

lemma leave_effect:
  assumes "barrier_leave b s = Some (r, s')"
  shows "\<exists>v v'. barriers s b = Some v \<and> barriers s' = (barriers s)(b \<mapsto> v') \<and> barrier_moves False v v' \<and>
    frames s' = (frames s)(current_tid s := User) \<and> next_addr s' = next_addr s \<and> r \<noteq> None"
  using assms
  by (auto simp: barrier_leave_def Let_def barrier_moves_def set_frame_def set_barrier_def split: option.splits if_splits)

section \<open>What a step does to frames and barriers\<close>

definition barrier_step :: "thread_call \<Rightarrow> lib_state \<Rightarrow> lib_state \<Rightarrow> bool" where
  "barrier_step c s s' \<longleftrightarrow>
     frame_to (may_leave s s') s s' \<and> next_addr s \<le> next_addr s' \<and>
     (\<forall>b v'. barriers s' b = Some v' \<longrightarrow>
        (\<exists>v. barriers s b = Some v \<and> barrier_moves (c = Barrier_wait b) v v') \<or>
        (b = next_addr s \<and> b < next_addr s' \<and> (\<exists>n. c = Barrier_init n)))"

lemma barrier_step_same:
  assumes "barriers s' = barriers s" "frame_to (may_leave s s') s s'" "next_addr s \<le> next_addr s'"
  shows "barrier_step c s s'"
  using assms by (auto simp: barrier_step_def)

lemma barrier_step_loop:
  assumes "table_ok s" "barriers_ok s" "barrier_loop guard b s = Some (r, s')"
  shows "barrier_step c s s'"
proof (rule barrier_step_same)
  note l = loop_effect [OF assms]
  show "barriers s' = barriers s" by (rule l(1))
  show "next_addr s \<le> next_addr s'" using gentle_barrier_loop [OF assms] by (simp add: gentle_def calm_def)
  have "complete s' b = complete s b" using l(1) by (simp add: complete_def)
  then show "frame_to (may_leave s s') s s'"
    using frame_toI [OF l(3), of "may_leave s s'"] may_leave_loop by blast
qed

lemma barrier_step_resume:
  assumes "sync_inv s" "resume guard s = Some (r, s')"
  shows "barrier_step Resume s s'"
proof -
  have inv: "table_ok s" "barriers_ok s" "awake s" using assms(1) lib_inv_table_ok by (auto simp: sync_inv_def)
  have addr: "next_addr s \<le> next_addr s'" using gentle_resume [OF inv assms(2)] by (simp add: gentle_def calm_def)
  show ?thesis
  proof (cases "frames s (current_tid s)")
    case (Handler f)
    then have "barriers s' = barriers s" "frames s' = (frames s)(current_tid s := f)"
      using assms(2) by (auto simp: resume_def set_frame_def unlock_def)
    moreover have "may_leave s s' f" using Handler by (simp add: may_leave_def)
    ultimately show ?thesis using addr by (intro barrier_step_same) (auto simp: frame_to_def)
  next
    case (Joining t rv)
    then show ?thesis using assms(2) join_effect [OF inv(1)] addr by (intro barrier_step_same) (auto simp: resume_def)
  next
    case (Barrier_Enter b)
    then show ?thesis using assms(2) barrier_step_loop [OF inv(1,2)] by (auto simp: resume_def)
  next
    case (Barrier_Spin b)
    then show ?thesis using assms(2) barrier_step_loop [OF inv(1,2)] by (auto simp: resume_def)
  next
    case (Barrier_Leave b)
    then obtain v v' where "barriers s b = Some v" "barriers s' = (barriers s)(b \<mapsto> v')" "barrier_moves False v v'"
        "frames s' = (frames s)(current_tid s := User)"
      using assms(2) leave_effect [of b s r s'] by (auto simp: resume_def)
    then show ?thesis using addr by (auto simp: barrier_step_def frame_to_def)
  qed (use assms(2) in \<open>auto simp: resume_def set_frame_def intro!: barrier_step_same frame_toI [where f = User]\<close>)
qed

lemma lib_barrier_step:
  assumes "sync_inv s" "lib_step e c s = Some (r, s')"
  shows "barrier_step c s s'"
proof -
  have inv: "lib_inv s" "table_ok s" "barriers_ok s" "awake s"
    using assms(1) lib_inv_table_ok by (auto simp: sync_inv_def)
  obtain Q where Q: "queues_ok s Q" using assms(1) by (auto simp: sync_inv_def)
  have step: "lib_call e c s = Some (r, s')" using assms(2) by (simp add: lib_step_def split: if_splits)
  have addr: "next_addr s \<le> next_addr s'" if "other_call c"
    using gentle_other_call [OF inv(1,3,4) that assms(2)] by (simp add: gentle_def calm_def)
  show ?thesis
  proof (cases c)
    case (Create stk start arg)
    then have "barriers s' = barriers s" "frames s' = frames s" "next_addr s' = next_addr s"
      using step create_queues [OF Q inv(1,4)] by (fastforce split: option.splits)+
    then show ?thesis by (auto intro!: barrier_step_same frame_to_refl)
  next
    case (Exit v)
    then show ?thesis
      using step exit_effect [OF inv(2)] addr by (intro barrier_step_same) (auto simp: other_call_def intro!: frame_to_refl)
  next
    case Self
    then show ?thesis using step by (auto intro!: barrier_step_same frame_to_refl)
  next
    case (Join t rv)
    then show ?thesis using step join_effect [OF inv(2)] addr by (intro barrier_step_same) (auto simp: other_call_def)
  next
    case Mutex_init
    then show ?thesis
      using step by (auto simp: pthread_mutex_init_def intro!: barrier_step_same frame_to_refl split: if_splits)
  next
    case (Mutex_destroy m)
    then show ?thesis
      using step by (auto simp: pthread_mutex_destroy_def intro!: barrier_step_same frame_to_refl split: if_splits option.splits)
  next
    case (Mutex_lock m)
    then show ?thesis using step lock_effect [OF assms(1)] by (intro barrier_step_same) auto
  next
    case (Mutex_unlock m)
    then show ?thesis using step unlock_effect [OF assms(1)] by (intro barrier_step_same) auto
  next
    case (Barrier_init n)
    then show ?thesis
      using step by (auto simp: pthread_barrier_init_def barrier_step_def intro!: frame_to_refl)
  next
    case (Barrier_destroy b)
    then show ?thesis
      using step by (auto simp: pthread_barrier_destroy_def barrier_step_def intro!: frame_to_refl split: option.splits if_splits)
  next
    case (Barrier_wait b)
    then obtain v where v: "barriers s b = Some v"
        "barriers s' = (barriers s)(b \<mapsto> v\<lparr>threads_blocked := threads_blocked v + 1\<rparr>)"
        "frames s' = (frames s)(current_tid s := if complete s' b then Barrier_Leave b else Barrier_Spin b)"
      using step wait_effect [OF inv(2,3), of "env_guard e" b r s'] by auto
    then have "frame_to (may_leave s s') s s'"
      using frame_toI [OF v(3), of "may_leave s s'"] may_leave_loop by blast
    then show ?thesis
      using v(1,2) addr Barrier_wait by (auto simp: barrier_step_def other_call_def barrier_moves_def)
  next
    case Resume
    then show ?thesis using step barrier_step_resume [OF assms(1)] by auto
  next
    case Tick
    then have y: "yield_in (env_guard e) (Handler (frames s (current_tid s))) s = Some (r, s')"
      using step by (auto simp: alarm_def split: if_splits)
    show ?thesis
      using yield_in_calm [OF inv(2) y] addr Tick
      by (intro barrier_step_same) (auto simp: other_call_def frame_to_def)
  qed
qed

section \<open>Nobody leaves early\<close>

text \<open>Barriers and frames mention only addresses that have been allocated.\<close>

definition barrier_inv :: "lib_state \<Rightarrow> bool" where
  "barrier_inv s \<longleftrightarrow>
     sync_inv s \<and> (\<forall>b \<in> dom (barriers s). b < next_addr s) \<and>
     (\<forall>t b. leaving b (frames s t) \<longrightarrow> b < next_addr s)"

lemma barrier_step_dom:
  assumes "barrier_step c s s'" "\<forall>b \<in> dom (barriers s). b < next_addr s" "barriers s' b = Some v"
  shows "b < next_addr s'"
  using assms unfolding barrier_step_def by (meson domI less_le_trans)

lemma barrier_step_leaving:
  assumes "barrier_step c s s'" "leaving b (frames s' t)"
  shows "(\<exists>u. leaving b (frames s u)) \<or> complete s' b"
proof -
  obtain f where f: "frames s' = (frames s)(current_tid s := f)" "may_leave s s' f"
    using assms(1) by (auto simp: barrier_step_def frame_to_def)
  then show ?thesis using assms(2) by (cases "t = current_tid s") (auto simp: may_leave_def)
qed

lemma barrier_inv_step:
  assumes "barrier_inv s" "lib_step e c s = Some (r, s')"
  shows "barrier_inv s'"
proof -
  have inv: "sync_inv s" "\<forall>b \<in> dom (barriers s). b < next_addr s" "\<And>t b. leaving b (frames s t) \<Longrightarrow> b < next_addr s"
    using assms(1) by (auto simp: barrier_inv_def)
  note st = lib_barrier_step [OF inv(1) assms(2)]
  have le: "next_addr s \<le> next_addr s'" using st by (simp add: barrier_step_def)
  have "b < next_addr s'" if "leaving b (frames s' t)" for t b
    using barrier_step_leaving [OF st that] inv(3) le barrier_step_dom [OF st inv(2)]
    by (auto simp: complete_def intro: less_le_trans)
  then show ?thesis
    using sync_inv_step [OF inv(1) assms(2)] barrier_step_dom [OF st inv(2)] by (auto simp: barrier_inv_def)
qed

lemma barrier_inv_start: "barrier_inv (lib_start c)"
  using sync_inv_start by (simp add: barrier_inv_def lib_start_def)

interpretation bars: invariant_system "lib_step e" barrier_inv
  by unfold_locales (rule barrier_inv_step)

text \<open>The calls of \<open>pthread_barrier_wait\<close> on \<open>b\<close> and the returns from it are counted beside the state.\<close>

definition watch_step :: "env \<Rightarrow> nat \<Rightarrow> thread_call \<Rightarrow> lib_state \<times> nat \<times> nat \<Rightarrow> (int option \<times> lib_state \<times> nat \<times> nat) option" where
  "watch_step e b c =
     (\<lambda>(s, n, k).
        map_option (\<lambda>(r, s').
            (r, s', n + (if c = Barrier_wait b then 1 else 0),
             k + (if c = Resume \<and> frames s (current_tid s) = Barrier_Leave b then 1 else 0)))
          (lib_step e c s))"

definition watch_inv :: "nat \<Rightarrow> int \<Rightarrow> lib_state \<times> nat \<times> nat \<Rightarrow> bool" where
  "watch_inv b N =
     (\<lambda>(s, n, k).
        barrier_inv s \<and> b < next_addr s \<and>
        (\<forall>v. barriers s b = Some v \<longrightarrow> barrier_count v = N \<and> threads_blocked v \<le> int n) \<and>
        (0 < k \<or> (\<exists>t. leaving b (frames s t)) \<longrightarrow> N \<le> int n))"

lemma watch_inv_step:
  assumes "watch_inv b N w" "watch_step e b c w = Some (r, w')"
  shows "watch_inv b N w'"
proof -
  obtain s n k where w: "w = (s, n, k)" by (cases w)
  obtain s' n' k' where w': "w' = (s', n', k')" by (cases w')
  have step: "lib_step e c s = Some (r, s')" and n': "n' = n + (if c = Barrier_wait b then 1 else 0)"
    and k': "k' = k + (if c = Resume \<and> frames s (current_tid s) = Barrier_Leave b then 1 else 0)"
    using assms(2) w w' by (auto simp: watch_step_def)
  have inv: "barrier_inv s" "sync_inv s" "b < next_addr s"
    and cnt: "\<And>v. barriers s b = Some v \<Longrightarrow> barrier_count v = N \<and> threads_blocked v \<le> int n"
    and early: "0 < k \<or> (\<exists>t. leaving b (frames s t)) \<Longrightarrow> N \<le> int n"
    using assms(1) w unfolding watch_inv_def barrier_inv_def by blast+
  note st = lib_barrier_step [OF inv(2) step]
  have cnt': "barrier_count v' = N \<and> threads_blocked v' \<le> int n'" if v': "barriers s' b = Some v'" for v'
  proof -
    obtain v where v: "barriers s b = Some v" "barrier_moves (c = Barrier_wait b) v v'"
      using st v' inv(3) unfolding barrier_step_def by blast
    then show ?thesis using cnt [OF v(1)] n' by (auto simp: barrier_moves_def split: if_splits)
  qed
  have "N \<le> int n'" if "0 < k' \<or> (\<exists>t. leaving b (frames s' t))"
  proof (cases "0 < k \<or> (\<exists>t. leaving b (frames s t))")
    case True
    then show ?thesis using early n' by (simp split: if_splits)
  next
    case False
    then have "k' = k" using k' by (metis add_0_right leaving.simps(2))
    then have "complete s' b" using that False barrier_step_leaving [OF st] by blast
    then show ?thesis using cnt' by (auto simp: complete_def)
  qed
  moreover have "b < next_addr s'" using st inv(3) by (auto simp: barrier_step_def)
  ultimately show ?thesis
    using barrier_inv_step [OF inv(1) step] cnt' w' unfolding watch_inv_def by blast
qed

interpretation watch: invariant_system "watch_step e b" "watch_inv b N"
  by unfold_locales (rule watch_inv_step)

section \<open>Threads that spin for ever\<close>

definition stuck_at :: "nat \<Rightarrow> lib_state \<Rightarrow> bool" where
  "stuck_at b s \<longleftrightarrow>
     table_ok s \<and> barriers_ok s \<and> (\<exists>v. barriers s b = Some v) \<and> \<not> complete s b \<and>
     spinning b (frames s (current_tid s)) \<and>
     (\<forall>t < MAX_THREADS. runnable s t \<longrightarrow> spinning b (frames s t))"

lemma stuck_yield:
  assumes "stuck_at b s" "spinning b f" "yield_in guard f s = Some (r, s')"
  shows "stuck_at b s'" "r = None"
proof -
  let ?s = "set_frame f s"
  have inv: "table_ok s" "barriers_ok s" "\<not> complete s b" "\<exists>v. barriers s b = Some v"
    "\<And>t. t < MAX_THREADS \<Longrightarrow> runnable s t \<Longrightarrow> spinning b (frames s t)"
    using assms(1) by (auto simp: stuck_at_def)
  have sch: "schedule guard ?s = Some s'" "r = None" using assms(3) by (auto simp: yield_in_def split: option.splits)
  have tab: "table_ok ?s" using inv(1) by simp
  obtain d where d: "first_after ?s d" "switched guard (after (current_tid ?s) d) ?s s'"
    using schedule_SomeE [OF tab sch(1)] by blast
  let ?u = "after (current_tid s) d"
  have fr: "frames s' = (frames s)(current_tid s := f)" "barriers s' = barriers s"
    using switched_fields(3,6) [OF d(2)] by (simp_all add: set_frame_def)
  have spin: "spinning b (frames s' t)" if "t < MAX_THREADS" "runnable s t \<or> t = current_tid s" for t
    using that fr(1) assms(2) inv(5) by auto
  have run: "runnable s ?u" using d(1) by (simp add: first_after_def runnable_def status_of_def)
  have cur: "current_tid s' = ?u" using d(2) by (simp add: switched_def)
  have "runnable s t \<or> t = current_tid s" if "t < MAX_THREADS" "runnable s' t" for t
  proof -
    have st: "status_of (set_frame f s) = status_of s" by (simp add: status_of_def fun_eq_iff)
    have "status_of s' t = (if t = ?u then TS_RUNNING
        else if t = current_tid s \<and> status_of s t = TS_RUNNING then TS_READY else status_of s t)"
      using switched_status [OF d(2) that(1)] unfolding st wrapper_fields .
    then show ?thesis using that(2) run cur by (auto simp: runnable_def split: if_splits)
  qed
  then have "spinning b (frames s' t)" if "t < MAX_THREADS" "runnable s' t" for t using spin that by blast
  moreover have "spinning b (frames s' (current_tid s'))" using spin [of ?u] run cur by simp
  moreover have "table_ok s'" using schedule_table_ok [OF tab sch(1)] .
  ultimately show "stuck_at b s'" using inv fr(2) by (simp add: stuck_at_def complete_def barriers_ok_def)
  show "r = None" by (rule sch(2))
qed

lemma stuck_step:
  assumes "stuck_at b s" "lib_step e c s = Some (r, s')"
  shows "stuck_at b s' \<and> r = None"
proof -
  have spin: "spinning b (frames s (current_tid s))" using assms(1) by (simp add: stuck_at_def)
  then have "c = Resume \<or> c = Tick" using assms(2) by (auto simp: lib_step_def split: if_splits)
  then consider (resume) "resume (env_guard e) s = Some (r, s')" | (tick) "alarm (env_guard e) s = Some (r, s')"
    using assms(2) by (auto simp: lib_step_def)
  then show ?thesis
  proof cases
    case tick
    then have "yield_in (env_guard e) (Handler (frames s (current_tid s))) s = Some (r, s')"
      by (simp add: alarm_def split: if_splits)
    then show ?thesis using stuck_yield [OF assms(1), of "Handler (frames s (current_tid s))"] spin by simp
  next
    case resume
    show ?thesis
    proof (cases "frames s (current_tid s)")
      case (Handler f)
      then have "s' = set_frame f (unlock s)" "r = None" "spinning b f"
        using resume spin by (auto simp: resume_def)
      then show ?thesis
        using assms(1) by (auto simp: stuck_at_def complete_def runnable_def status_of_def set_frame_def unlock_def table_ok_def barriers_ok_def)
    next
      case (Barrier_Spin b')
      then have "barrier_loop (env_guard e) b s = Some (r, s')" using resume spin by (simp add: resume_def)
      then have "yield_in (env_guard e) (Barrier_Spin b) s = Some (r, s')"
        using assms(1) by (auto simp: barrier_loop_def stuck_at_def complete_def)
      then show ?thesis using stuck_yield [OF assms(1), of "Barrier_Spin b"] by simp
    qed (use spin in simp_all)
  qed
qed

lemma stuck_run:
  "stuck_at b s \<Longrightarrow> run_calls (lib_step e) cs s = Some (rs, s') \<Longrightarrow> rs = replicate (length cs) None"
proof (induction cs arbitrary: s rs)
  case (Cons c cs)
  from Cons.prems(2) obtain r s1 rs1 where
    1: "lib_step e c s = Some (r, s1)" "run_calls (lib_step e) cs s1 = Some (rs1, s')" "rs = r # rs1"
    by (rule run_calls_ConsE)
  then show ?case using Cons.IH [OF _ 1(2)] stuck_step [OF Cons.prems(1) 1(1)] by simp
qed simp

end
