(* ===== verification/Thread_Props.thy ===== *)
theory Thread_Props
  imports Sync_Barriers
begin

text \<open>
  The properties of the thread library, stated over the functions of \<^verbatim>\<open>threads.c\<close> and
  \<^verbatim>\<open>ec440threads.h\<close>, with concrete runs of the library as witnesses.
\<close>

section \<open>Concrete runs\<close>

definition demo_cpu :: cpu where
  "demo_cpu = \<lparr>rbx = 1, rbp = 2, r12 = 3, r13 = 4, r14 = 5, r15 = 6, rsp = 7, pc = 8, rdi = 9\<rparr>"

definition demo_env :: env where
  "demo_env = \<lparr>env_guard = 0x5555, env_thunk = 0x1000, env_exit = 0x2000, env_usable = 24\<rparr>"

lemma run_result: "map_option fst x = Some rs \<Longrightarrow> x = Some (rs, snd (the x))"
  by (cases x) auto

text \<open>Two threads beside the main thread.\<close>

definition two_calls :: "thread_call list" where
  "two_calls = [Create 0x10000 11 21, Create 0x20000 12 22]"

definition two_threads :: lib_state where
  "two_threads = snd (the (run_calls (lib_step demo_env) two_calls (lib_start demo_cpu)))"

lemma two_threads_run:
  "run_calls (lib_step demo_env) two_calls (lib_start demo_cpu) = Some ([Some 1, Some 2], two_threads)"
  unfolding two_threads_def by (rule run_result) code_simp

lemma two_threads_inv: "sync_inv two_threads"
  using tlib.run_inv [OF sync_inv_start two_threads_run] .

lemma two_threads_status:
  "current_tid two_threads = 0 \<and> status_of two_threads 1 = TS_READY \<and> status_of two_threads 2 = TS_READY \<and>
   slots_used two_threads = 3 \<and> \<not> is_first_call two_threads"
  by code_simp

section \<open>The scheduler\<close>

text \<open>C6: \<open>schedule\<close> returns exactly when some thread can run (the search loop of lines 70 to 81 ends), and
  then it switches to the first such thread after the current one in the order of the slots, which
  wraps around: the chosen thread becomes RUNNING, a RUNNING thread that is left becomes READY, the
  registers of a thread that is left are saved unless it has exited, those of the chosen thread are
  loaded, and nothing else changes.\<close>

theorem schedule_round_robin:
  assumes "table_ok s"
  shows "(schedule guard s = None \<longleftrightarrow> (\<forall>t < MAX_THREADS. \<not> runnable s t)) \<and>
    (\<forall>s'. schedule guard s = Some s' \<longrightarrow>
      (\<exists>d < MAX_THREADS. first_after s d \<and> switched guard (after (current_tid s) d) s s'))"
  using schedule_None_iff [OF assms] schedule_SomeE [OF assms] by metis

lemma schedule_round_robin_witness:
  "(schedule 0x5555 two_threads = None \<longleftrightarrow> (\<forall>t < MAX_THREADS. \<not> runnable two_threads t)) \<and>
   (\<exists>s'. schedule 0x5555 two_threads = Some s')"
proof -
  have tab: "table_ok two_threads" using two_threads_inv by (simp add: sync_inv_def lib_inv_def)
  have "runnable two_threads 1" using two_threads_status by (simp add: runnable_def)
  moreover have "(1::nat) < MAX_THREADS" by (simp add: MAX_THREADS_def)
  ultimately show ?thesis
    using schedule_round_robin [OF tab, of "0x5555"] by (cases "schedule 0x5555 two_threads") auto
qed

text \<open>C10: A READY thread does not starve: when the running threads only give way, it runs after at most
  \<open>MAX_THREADS\<close> context switches, with the registers that its control block holds.\<close>

theorem ready_thread_runs:
  assumes "table_ok s" "t < MAX_THREADS" "t \<noteq> current_tid s" "status_of s t = TS_READY"
  shows "\<exists>n s'. n \<le> MAX_THREADS \<and> yields guard n s = Some s' \<and> current_tid s' = t \<and>
    (\<exists>c. machine s' = longjmp guard (regs (threads s ! t)) c)"
proof -
  have "places (current_tid s) t < MAX_THREADS" using assms(1,2) places_lt by (simp add: table_ok_def)
  moreover obtain n s' where n: "n \<le> places (current_tid s) t" "yields guard (Suc n) s = Some s'" "current_tid s' = t"
      "\<exists>c. machine s' = longjmp guard (regs (threads s ! t)) c"
    using yields_reach_at [OF assms, of guard] by blast
  ultimately have "Suc n \<le> MAX_THREADS" by simp
  then show ?thesis using n(2-4) by blast
qed

lemma ready_thread_runs_witness:
  "\<exists>n s'. n \<le> MAX_THREADS \<and> yields 0x5555 n two_threads = Some s' \<and> current_tid s' = 2 \<and>
    (\<exists>c. machine s' = longjmp 0x5555 (regs (threads two_threads ! 2)) c)"
  using two_threads_inv two_threads_status
  by (intro ready_thread_runs) (simp_all add: sync_inv_def lib_inv_def MAX_THREADS_def)

section \<open>Thread creation\<close>

text \<open>C9: While a slot is left, \<open>pthread_create\<close> returns 0 and stores the number of the slot it filled
  in \<open>*thread\<close>; the new thread is READY, and when its registers are loaded and \<open>start_thunk\<close> runs, the
  processor enters \<open>start_routine\<close> with \<open>arg\<close> in the first argument register and the address of
  \<open>pthread_exit\<close> as its return address at the top of the new stack.\<close>

theorem created_thread_starts:
  assumes "lib_inv s" "slots_used s < MAX_THREADS" "stk \<noteq> 0"
  shows "\<exists>s'. pthread_create guard thunk ex stk start arg s = Some (0, Some (slots_used s), s') \<and>
    lib_inv s' \<and> status_of s' (slots_used s) = TS_READY \<and>
    (let c1 = longjmp guard (regs (threads s' ! slots_used s)) c; (c2, m2) = start_thunk (c1, words s')
     in pc c1 = thunk \<and> pc c2 = start \<and> rdi c2 = arg \<and> rsp c2 = stk + THREAD_STACK_SIZE - 8 \<and> m2 (rsp c2) = ex)"
proof -
  let ?s = "first_call guard s" and ?t = "slots_used s"
  let ?w = "with_thread guard thunk ex stk start arg ?s"
  have t: "num_threads ?s = ?t" by (cases "is_first_call s") (simp_all add: slots_used_def)
  have inv: "lib_inv ?s" using assms(1) by (rule lib_inv_first_call)
  have lt: "num_threads ?s < length (threads ?s)" using t assms(2) inv by (simp add: lib_inv_def table_ok_def)
  have tcb: "threads ?w ! ?t = new_tcb guard thunk stk start arg ?t (threads ?s ! ?t)"
    using threads_with_thread [OF lt] t by simp
  have len: "length (regs (threads ?s ! ?t)) = 8" using inv assms(2) by (simp add: lib_inv_def table_ok_def)
  let ?c = "longjmp guard (regs (threads ?w ! ?t)) c"
  have regs: "pc ?c = thunk" "r12 ?c = start" "r13 ?c = arg" "rsp ?c = stack_top stk"
    unfolding tcb using len by (simp_all add: new_tcb_def new_thread_regs_def longjmp_def get_set_reg)
  have "words ?w (stack_top stk) = ex" by (simp add: with_thread_def Let_def)
  moreover have "stack_top stk - 8 \<noteq> stack_top stk" by simp
  ultimately have "snd (start_thunk (?c, words ?w)) (stack_top stk) = ex"
    by (simp add: start_thunk_enters regs)
  moreover have "lib_inv ?w" using lib_inv_with_thread inv t assms(2,3) by simp
  moreover have "pthread_create guard thunk ex stk start arg s = Some (0, Some ?t, ?w)"
    using assms t by (simp add: pthread_create_eq)
  moreover have "status_of ?w ?t = TS_READY" using tcb by (simp add: status_of_def new_tcb_def)
  ultimately show ?thesis
    using regs by (auto simp: start_thunk_enters Let_def stack_top_def)
qed

lemma created_thread_starts_witness:
  "\<exists>s'. pthread_create 0x5555 0x1000 0x2000 0x30000 13 23 two_threads = Some (0, Some 3, s') \<and>
    status_of s' 3 = TS_READY"
  using created_thread_starts [of two_threads "0x30000" "0x5555" "0x1000" "0x2000" 13 23] two_threads_inv two_threads_status
  by (auto simp: sync_inv_def MAX_THREADS_def)

text \<open>C15: Every sequence of library calls, context switches and timer interrupts in which no interrupt
  falls inside \<open>pthread_create\<close> (interrupts come at the entry of a library function and after its calls
  of \<open>schedule\<close>; the mutex functions block them otherwise) keeps the invariant of the library: thread
  identifiers are slot numbers, the slots in use are those below \<open>num_threads\<close>, the
  queues of the mutexes are well formed and hold blocked threads only, and the current thread is not
  blocked.  \<open>pthread_self\<close> returns the slot of the caller, and at most 127 calls of \<open>pthread_create\<close>
  succeed over the life of the process, since no slot is ever given back.\<close>

theorem thread_calls_safe:
  assumes "run_calls (lib_step e) cs (lib_start c) = Some (rs, s)"
  shows "sync_inv s \<and> (\<not> is_first_call s \<longrightarrow> pthread_self s = current_tid s) \<and>
    length (filter (\<lambda>(c, r). thread_creates c r) (zip cs rs)) \<le> 127"
proof -
  have inv: "sync_inv s" using tlib.run_inv [OF sync_inv_start assms] .
  then have lib: "lib_inv s" "current_tid s < MAX_THREADS" by (auto simp: sync_inv_def lib_inv_def table_ok_def)
  have "slots_used (lib_start c) = 1" by (simp add: slots_used_def lib_start_def)
  then have "1 + length (filter (\<lambda>(c, r). thread_creates c r) (zip cs rs)) \<le> MAX_THREADS"
    using tlib.run_amount [OF sync_inv_start assms] slots_used_le [OF lib(1)] by simp
  moreover have "pthread_self s = current_tid s" if "\<not> is_first_call s"
    using lib_inv_slot [OF lib] that by (simp add: slot_inv_def pthread_self_def)
  ultimately show ?thesis using inv by (simp add: MAX_THREADS_def)
qed

lemma thread_calls_safe_witness: "sync_inv two_threads \<and> pthread_self two_threads = 0"
  using thread_calls_safe [OF two_threads_run] two_threads_status by simp

text \<open>C34: An interrupt inside \<open>pthread_create\<close> breaks that invariant, because the function does not block
  SIGALRM.  A thread has searched for a free slot and is interrupted; before it goes on, another
  thread has been created.  Then it fills a slot that is in use: the control block of the other thread
  is overwritten and that thread is lost, the identifier it stores is not the number of the slot, and
  the slot with that number, which now counts as used, is empty.\<close>

theorem interrupted_create_overwrites:
  assumes "sync_inv s" "\<not> is_first_call s" "create_scan s = Some t"
    and "run_calls (lib_step e) cs s = Some (rs, s1)" "num_threads s < num_threads s1"
    and "create_fill guard thunk ex stk start arg t s1 = Some (r, th, s2)"
  shows "stack (threads s1 ! t) \<noteq> 0 \<and> stack (threads s2 ! t) = stk \<and>
    (\<forall>u < MAX_THREADS. u \<noteq> t \<longrightarrow> threads s2 ! u = threads s1 ! u) \<and>
    r = 0 \<and> th = Some (num_threads s1) \<and> tid (threads s2 ! t) = num_threads s1 \<and> num_threads s1 \<noteq> t \<and>
    (num_threads s1 < MAX_THREADS \<longrightarrow> status_of s2 (num_threads s1) = TS_EMPTY) \<and> \<not> lib_inv s2"
proof -
  have inv: "lib_inv s" "lib_inv s1" using assms(1) tlib.run_inv [OF assms(1,4)] by (simp_all add: sync_inv_def)
  have t: "t = num_threads s" "num_threads s < MAX_THREADS"
    using assms(3) free_tid_eq [OF inv(1) assms(2)] by (auto simp: create_scan_def Let_def split: if_splits)
  have first: "\<not> is_first_call s1" using inv(2) assms(5) by (auto simp: lib_inv_def split: if_splits)
  have t1: "1 \<le> t" "t < num_threads s1" "t < length (threads s1)"
    using inv t assms(2,5) by (auto simp: lib_inv_def table_ok_def)
  have "slot_inv s1 t (threads s1 ! t)" using lib_inv_slot [OF inv(2)] t by simp
  then have used: "stack (threads s1 ! t) \<noteq> 0" using t1 first by (simp add: slot_inv_def)
  have s2: "r = 0" "th = Some (num_threads s1)" "stack (threads s2 ! t) = stk" "tid (threads s2 ! t) = num_threads s1"
      "is_first_call s2 = is_first_call s1" "\<And>u. u \<noteq> t \<Longrightarrow> threads s2 ! u = threads s1 ! u"
    using assms(6) t1(3) by (auto simp: create_fill_def Let_def split: if_splits)
  have "\<not> lib_inv s2"
  proof
    assume "lib_inv s2"
    then have "slot_inv s2 t (threads s2 ! t)" using lib_inv_slot t by simp
    then show False using s2(4,5) first t1(2) by (simp add: slot_inv_def)
  qed
  moreover have "status_of s2 (num_threads s1) = TS_EMPTY" if "num_threads s1 < MAX_THREADS"
    using lib_inv_slot [OF inv(2) that] s2(6) [of "num_threads s1"] t1(2) first
    by (simp add: status_of_def slot_inv_def alive_def)
  ultimately show ?thesis using used s2 t1(2) by auto
qed

text \<open>The main thread is interrupted while thread 1 creates a thread; both take slot 3.\<close>

definition race_calls :: "thread_call list" where
  "race_calls = [Tick, Create 0x30000 13 23, Tick, Tick, Tick, Resume]"

definition race_state :: lib_state where
  "race_state = snd (the (run_calls (lib_step demo_env) race_calls two_threads))"

lemma race_state_run:
  "run_calls (lib_step demo_env) race_calls two_threads = Some ([None, Some 3, None, None, None, None], race_state)"
  unfolding race_state_def by (rule run_result) code_simp

lemma race_state_values: "num_threads two_threads = 3 \<and> num_threads race_state = 4 \<and> current_tid race_state = 0 \<and>
    frames race_state 0 = User \<and> create_scan two_threads = Some 3 \<and>
    create_fill 0x5555 0x1000 0x2000 0x40000 14 24 3 race_state \<noteq> None"
  by code_simp

lemma interrupted_create_overwrites_witness:
  "\<exists>s2. create_fill 0x5555 0x1000 0x2000 0x40000 14 24 3 race_state = Some (0, Some 4, s2) \<and>
     stack (threads race_state ! 3) \<noteq> 0 \<and> stack (threads s2 ! 3) = 0x40000 \<and> status_of s2 4 = TS_EMPTY"
proof -
  obtain r th s2 where f: "create_fill 0x5555 0x1000 0x2000 0x40000 14 24 3 race_state = Some (r, th, s2)"
    using race_state_values by (metis not_None_eq prod_cases3)
  have "num_threads two_threads < num_threads race_state" "create_scan two_threads = Some 3" using race_state_values by simp_all
  from interrupted_create_overwrites [OF two_threads_inv _ this(2) race_state_run this(1) f] f show ?thesis
    using two_threads_status race_state_values by (simp add: MAX_THREADS_def)
qed

section \<open>Mutexes\<close>

lemma waiting_queues:
  assumes "queues_ok s Q" "waiting m s ts"
  shows "ts = tids s (Q m)"
proof -
  obtain v as where v: "mutexes s m = Some v" "mutex_rep (nodes s) v as" "ts = tids s as"
    using assms(2) by (auto simp: waiting_def)
  then have "as = Q m" using queues_ok_rep [OF assms(1) v(1)] chain_unique by (auto simp: mutex_rep_def)
  then show ?thesis using v(3) by simp
qed

lemma queues_waiting:
  assumes "queues_ok s Q" "mutexes s m = Some v"
  shows "waiting m s (tids s (Q m))"
  using assms queues_ok_rep [OF assms] by (auto simp: waiting_def queues_ok_def)

lemma woken_status:
  assumes "lib_inv s" "nodes s h = Some n" "pop_head m v h n (set_status (node_tid n) TS_READY (lock s)) = (v1, s1)"
    and "schedule guard (set_frame Unlock_Yield (unlock (set_mutex m v2 s1))) = Some s'"
  shows "status_of s' (node_tid n) \<in> {TS_READY, TS_RUNNING}"
proof -
  let ?t = "node_tid n" and ?s2 = "set_frame Unlock_Yield (unlock (set_mutex m v2 s1))"
  have t: "?t < MAX_THREADS" using alive_lt [OF assms(1) lib_inv_node_alive [OF assms(1,2)]] .
  have tab: "table_ok s" using assms(1) by (rule lib_inv_table_ok)
  have th: "threads s1 = threads (set_status ?t TS_READY s)" "current_tid s1 = current_tid s"
    using assms(3) by (auto simp: pop_head_def Let_def set_mutex_def set_status_def lock_def)
  have tab2: "table_ok ?s2" using tab th t by (auto simp: table_ok_def set_status_def nth_list_update)
  have "status_of ?s2 ?t = TS_READY"
    using th(1) t tab by (simp add: status_of_def set_status_def table_ok_def)
  moreover obtain d where "switched guard (after (current_tid ?s2) d) ?s2 s'"
    using schedule_SomeE [OF tab2 assms(4)] by blast
  ultimately show ?thesis using switched_status [OF _ t] by auto
qed

lemma lock_refines:
  assumes "sync_inv s" "waiting m s ts" "is_locked s m" "pthread_mutex_lock guard m s = Some (r, s')"
  shows "r = None \<and> waiting m s' (ts @ [current_tid s]) \<and> status_of s' (current_tid s) = TS_BLOCKED"
proof -
  obtain Q where Q: "queues_ok s Q" "lib_inv s" "awake s" using assms(1) by (auto simp: sync_inv_def)
  from assms(4) show ?thesis
  proof (cases rule: lock_SomeE)
    case (free v)
    then show ?thesis using assms(3) by (simp add: is_locked_def)
  next
    case (contended v n s2 s3)
    have l: "queues_ok s3 (Q(m := Q m @ [n]))" "tids s3 (Q m @ [n]) = tids s (Q m) @ [current_tid s]" "table_ok s3"
        "\<exists>v'. mutexes s3 = (mutexes s)(m \<mapsto> v')"
      using lock_contended_queues [OF Q contended(1,2,4,5)] by blast+
    have q: "queues_ok s' (Q(m := Q m @ [n]))" "nodes s' = nodes s3" "mutexes s' = mutexes s3"
      using queues_scheduled [OF l(1,3) contended(6)] schedule_mutexes [OF l(3) contended(6)] by simp_all
    have w: "waiting m s' (tids s (Q m) @ [current_tid s])"
    proof -
      obtain v' where "mutexes s' m = Some v'" using l(4) q(3) by auto
      then have "waiting m s' (tids s' (Q m @ [n]))" using queues_waiting [OF q(1)] by (metis fun_upd_same)
      then show ?thesis unfolding q(2) l(2) .
    qed
    have "set (tids s' (Q m @ [n])) \<subseteq> blocked s'" using q(1) unfolding queues_ok_def by (metis fun_upd_same)
    then have "current_tid s \<in> blocked s'" using l(2) unfolding q(2) by auto
    then show ?thesis using w contended(3) waiting_queues [OF Q(1) assms(2)] by (simp add: blocked_def)
  qed
qed

lemma unlock_refines:
  assumes "sync_inv s" "waiting m s ts" "pthread_mutex_unlock guard m s = Some (r, s')"
  shows "waiting m s' (tl ts) \<and> (is_locked s' m \<longleftrightarrow> is_locked s m \<and> tl ts \<noteq> []) \<and>
    (ts \<noteq> [] \<longrightarrow> status_of s' (hd ts) \<in> {TS_READY, TS_RUNNING})"
proof -
  obtain Q where Q: "queues_ok s Q" "lib_inv s" using assms(1) by (auto simp: sync_inv_def)
  have ts: "ts = tids s (Q m)" using waiting_queues [OF Q(1) assms(2)] .
  from assms(3) show ?thesis
  proof (cases rule: unlock_SomeE)
    case (alone v)
    have u: "queues_ok s' Q" "Q m = []" using unlock_alone_queues [OF Q(1) alone(1,2,4)] by blast+
    have "mutexes s' m = Some (v\<lparr>locked := 0\<rparr>)" using alone(4) by simp
    then show ?thesis using queues_waiting [OF u(1), of m] u(2) ts by (simp add: is_locked_def)
  next
    case (wakes v h n v1 s1)
    let ?s2 = "unlock (set_mutex m (if blocked_threads_head v1 = None then v1\<lparr>locked := 0\<rparr> else v1) s1)"
    obtain as v2 where u: "Q m = h # as" "queues_ok ?s2 (Q(m := as))" "blocked ?s2 = blocked s - {node_tid n}"
        "mutexes ?s2 = (mutexes s)(m \<mapsto> v2)" "locked v2 = (if as = [] then 0 else locked v)"
        "tids ?s2 as = tids s as" "table_ok ?s2"
      using unlock_wakes_queues [OF Q wakes(1,2,4,6)] by blast
    have q: "queues_ok s' (Q(m := as))" "nodes s' = nodes ?s2" "mutexes s' = mutexes ?s2"
      using queues_scheduled [OF u(2,7) wakes(7)] schedule_mutexes [OF u(7) wakes(7)] by simp_all
    have hd: "ts = node_tid n # tids s as" using ts u(1) wakes(4) by (simp add: tid_at_def)
    have w: "waiting m s' (tids s as)"
    proof -
      have "mutexes s' m = Some v2" unfolding q(3) u(4) by simp
      then have "waiting m s' (tids s' as)" using queues_waiting [OF q(1)] by (metis fun_upd_same)
      then show ?thesis unfolding q(2) u(6) .
    qed
    have lk: "is_locked s' m \<longleftrightarrow> is_locked s m \<and> as \<noteq> []"
      using q(3) u(4,5) wakes(1) by (auto simp: is_locked_def)
    have "status_of s' (node_tid n) \<in> {TS_READY, TS_RUNNING}"
      using woken_status [OF Q(2) wakes(4,6,7)] .
    then show ?thesis using w lk hd by auto
  qed
qed

text \<open>A locked mutex with three waiting threads: the main thread holds it.\<close>

definition queue_calls :: "thread_call list" where
  "queue_calls =
     [Create 0x10000 11 21, Create 0x20000 12 22, Create 0x30000 13 23, Mutex_init, Mutex_lock 1, Tick,
      Mutex_lock 1, Mutex_lock 1, Mutex_lock 1, Resume]"

definition queue_state :: client_state where
  "queue_state = snd (the (run_calls (client_step demo_env) queue_calls (lib_start demo_cpu, [])))"

lemma queue_state_run:
  "run_calls (client_step demo_env) queue_calls (lib_start demo_cpu, []) =
     Some ([Some 1, Some 2, Some 3, Some 1, Some 0, None, None, None, None, None], queue_state)"
  unfolding queue_state_def by (rule run_result) code_simp

lemma holders_ok_start: "holders_ok (lib_start c, [])"
  using sync_inv_start by (simp add: holders_ok_def)

lemma queue_state_inv: "holders_ok queue_state"
  using clients.run_inv [OF holders_ok_start queue_state_run] .

lemma queue_state_check:
  "case queue_state of (s, H) \<Rightarrow>
     H = [(1, 0)] \<and>
     (case mutexes s 1 of
        None \<Rightarrow> False
      | Some v \<Rightarrow>
          chain (nodes s) (blocked_threads_head v) [2, 3, 4] \<and> tail_ok [2, 3, 4] (blocked_threads_tail v)) \<and>
     map (tid_at (nodes s)) [2, 3, 4] = [1, 2, 3] \<and>
     (case client_step demo_env (Mutex_unlock 1) (s, H) of
        None \<Rightarrow> False
      | Some (r, w) \<Rightarrow>
          r = None \<and>
          map_option fst (run_calls (client_step demo_env) [Resume, Mutex_lock 1, Resume] w) =
            Some [Some (-1), None, Some 0])"
  by code_simp

lemma queue_state_pair: "queue_state = (fst queue_state, [(1, 0)])"
proof -
  obtain s H where q: "queue_state = (s, H)" by (cases queue_state)
  show ?thesis using queue_state_check unfolding q by simp
qed

lemma queue_state_sync: "sync_inv (fst queue_state)"
proof -
  have "holders_ok (fst queue_state, [(1, 0)])" using queue_state_inv queue_state_pair by simp
  then show ?thesis by (simp add: holders_ok_def)
qed

lemma queue_state_waiting: "waiting 1 (fst queue_state) [1, 2, 3]"
proof -
  let ?s = "fst queue_state"
  have 1: "\<exists>v. mutexes ?s 1 = Some v \<and> chain (nodes ?s) (blocked_threads_head v) [2, 3, 4] \<and>
      tail_ok [2, 3, 4] (blocked_threads_tail v)" "map (tid_at (nodes ?s)) [2, 3, 4] = [1, 2, 3]"
  proof -
    obtain s H where q: "queue_state = (s, H)" by (cases queue_state)
    show "\<exists>v. mutexes ?s 1 = Some v \<and> chain (nodes ?s) (blocked_threads_head v) [2, 3, 4] \<and>
        tail_ok [2, 3, 4] (blocked_threads_tail v)" "map (tid_at (nodes ?s)) [2, 3, 4] = [1, 2, 3]"
      using queue_state_check unfolding q by (auto split: option.splits)
  qed
  obtain Q where "queues_ok ?s Q" using queue_state_sync by (auto simp: sync_inv_def)
  then have "fresh_nodes ?s" by (simp add: queues_ok_def)
  moreover obtain v where "mutexes ?s 1 = Some v" "mutex_rep (nodes ?s) v [2, 3, 4]"
    using 1(1) by (auto simp: mutex_rep_def)
  ultimately show ?thesis unfolding waiting_def using 1(2) by metis
qed

text \<open>C11: The linked queue of a mutex implements a first-in first-out list of threads: a contended
  \<open>pthread_mutex_lock\<close> appends the caller, blocks it and switches to another thread;
  \<open>pthread_mutex_unlock\<close> removes the thread that has waited longest and makes it READY, and unlocks
  the mutex exactly when no other thread waits; and the threads come out of the queue in the order in
  which they went in.\<close>

theorem mutex_refines_queue:
  assumes "sync_inv s" "waiting m s ts"
  shows "(is_locked s m \<longrightarrow> pthread_mutex_lock guard m s = Some (r, s1) \<longrightarrow>
      r = None \<and> waiting m s1 (ts @ [current_tid s]) \<and> status_of s1 (current_tid s) = TS_BLOCKED) \<and>
    (pthread_mutex_unlock guard m s = Some (r, s2) \<longrightarrow>
      waiting m s2 (tl ts) \<and> (is_locked s2 m \<longleftrightarrow> is_locked s m \<and> tl ts \<noteq> []) \<and>
      (ts \<noteq> [] \<longrightarrow> status_of s2 (hd ts) \<in> {TS_READY, TS_RUNNING})) \<and>
    (\<exists>s3. mq.get_all m (length ts) s = Some (ts, s3) \<and> waiting m s3 [])"
proof -
  obtain Q where Q: "queues_ok s Q" "lib_inv s" "awake s" using assms(1) by (auto simp: sync_inv_def)
  have "\<exists>s3. mq.get_all m (length ts) s = Some (ts, s3) \<and> waiting m s3 []"
    using mq.get_all_rep [of m s ts "[]"] assms(2) by simp
  then show ?thesis
    using lock_refines [OF assms] unlock_refines [OF assms] by blast
qed

lemma mutex_refines_queue_witness:
  "\<exists>s3. mq.get_all 1 (length [1, 2, 3 :: nat]) (fst queue_state) = Some ([1, 2, 3], s3) \<and> waiting 1 s3 []"
  using mutex_refines_queue [OF queue_state_sync queue_state_waiting] by blast

text \<open>C5: Mutual exclusion: as long as threads unlock a mutex only while they hold it (their
  \<open>pthread_mutex_lock\<close> returned 0), at most one thread holds a mutex at any time, and the mutex is
  locked while a thread holds it, in every interleaving of calls, context switches and timer
  interrupts.\<close>

theorem mutual_exclusion:
  assumes "run_calls (client_step e) cs (lib_start c, []) = Some (rs, s, H)"
    and "(m, t) \<in> set H" "(m, t') \<in> set H"
  shows "t = t' \<and> is_locked s m"
proof -
  have "holders_ok (s, H)" using clients.run_inv [OF holders_ok_start assms(1)] .
  then show ?thesis using assms(2,3) unfolding holders_ok_def by blast
qed

lemma mutual_exclusion_witness: "(0::nat) = 0 \<and> is_locked (fst queue_state) 1"
  using mutual_exclusion [of demo_env queue_calls demo_cpu _ "fst queue_state" "[(1, 0)]" 1 0 0]
    queue_state_run unfolding queue_state_pair [symmetric] by auto

text \<open>C38: When two or more threads wait, unlocking wakes the first but leaves the mutex locked with no
  holder (the woken thread's \<open>pthread_mutex_lock\<close> returns -1): if threads unlock only what they hold,
  then whatever calls follow, no thread ever acquires the mutex again and the remaining waiters stay
  blocked for ever.\<close>

theorem unlock_strands_waiters:
  assumes "holders_ok (s, H)" "waiting m s (t # u # ts)"
    and "client_step e (Mutex_unlock m) (s, H) = Some (r, s', H')"
    and "run_calls (client_step e) cs (s', H') = Some (rs, s2, H2)"
  shows "(\<forall>k. (m, k) \<notin> set H2) \<and> is_locked s2 m \<and> (\<forall>k \<in> set (u # ts). status_of s2 k = TS_BLOCKED)"
proof -
  have "stranded m (set (u # ts)) (s2, H2)"
    using strand.run_inv [OF unlock_strands [OF assms(1-3)] assms(4)] .
  then show ?thesis using stranded_blocked unfolding stranded_def by blast
qed

lemma unlock_strands_waiters_witness:
  "\<exists>s' H' rs s2 H2. client_step demo_env (Mutex_unlock 1) queue_state = Some (None, s', H') \<and>
     run_calls (client_step demo_env) [Resume, Mutex_lock 1, Resume] (s', H') = Some (rs, s2, H2) \<and>
     rs = [Some (-1), None, Some 0] \<and> is_locked s2 1 \<and> status_of s2 2 = TS_BLOCKED"
proof -
  obtain s' H' rs s2 H2 where
    1: "client_step demo_env (Mutex_unlock 1) queue_state = Some (None, s', H')"
      "run_calls (client_step demo_env) [Resume, Mutex_lock 1, Resume] (s', H') = Some (rs, s2, H2)"
      "rs = [Some (-1), None, Some 0]"
  proof -
    obtain s H where q: "queue_state = (s, H)" by (cases queue_state)
    obtain w where w: "client_step demo_env (Mutex_unlock 1) queue_state = Some (None, w)"
        "map_option fst (run_calls (client_step demo_env) [Resume, Mutex_lock 1, Resume] w) = Some [Some (-1), None, Some 0]"
      using queue_state_check unfolding q by (auto simp del: run_calls.simps split: option.splits)
    show ?thesis using that w(1) run_result [OF w(2)] by (metis prod.collapse)
  qed
  have "holders_ok (fst queue_state, [(1, 0)])"
    "client_step demo_env (Mutex_unlock 1) (fst queue_state, [(1, 0)]) = Some (None, s', H')"
    using queue_state_inv 1(1) queue_state_pair by simp_all
  from unlock_strands_waiters [OF this(1) queue_state_waiting this(2) 1(2)] 1 show ?thesis by auto
qed

section \<open>Barriers\<close>

text \<open>C12: No thread passes a barrier early: in every interleaving, when a thread has returned from
  \<open>pthread_barrier_wait\<close> at least \<open>count\<close> calls of \<open>pthread_barrier_wait\<close> on that barrier have been
  made.\<close>

theorem barrier_no_early_return:
  assumes "run_calls (lib_step e) cs0 (lib_start c) = Some (rs0, s0)" "pthread_barrier_init count s0 = (b, s)"
    and "run_calls (watch_step e b) cs (s, 0, 0) = Some (rs, s', entered, returned)" "0 < returned"
  shows "sint count \<le> int entered"
proof -
  have inv: "barrier_inv s0" using bars.run_inv [OF barrier_inv_start assms(1)] .
  have b: "b = next_addr s0" "frames s = frames s0" "lib_step e (Barrier_init count) (s0\<lparr>frames := \<lambda>_. User\<rparr>) \<noteq> None"
    using assms(2) by (auto simp: pthread_barrier_init_def lib_step_def)
  have "sync_inv s"
  proof -
    have "sync_inv s0" using inv by (simp add: barrier_inv_def)
    moreover have "gentle s0 s"
      using assms(2) calculation blocked_cong [of s s0]
      by (auto simp: gentle_def calm_def awake_def barriers_ok_def pthread_barrier_init_def sync_inv_def split: if_splits)
    moreover have "lib_inv s" using assms(2) calculation(1) by (auto simp: pthread_barrier_init_def sync_inv_def)
    ultimately show ?thesis using wait_inv_gentle unfolding sync_inv_eq by blast
  qed
  then have "watch_inv b (sint count) (s, 0, 0)"
    using inv assms(2) b(1,2) by (auto simp: watch_inv_def barrier_inv_def pthread_barrier_init_def less_Suc_eq)
  then have "watch_inv b (sint count) (s', entered, returned)" using watch.run_inv [OF _ assms(3)] by blast
  then show ?thesis using assms(4) by (simp add: watch_inv_def)
qed

definition round_calls :: "thread_call list" where
  "round_calls = [Barrier_wait 1, Barrier_wait 1, Barrier_wait 1, Resume, Resume, Resume]"

definition round_state :: "lib_state \<times> nat \<times> nat" where
  "round_state = snd (the (run_calls (watch_step demo_env 1) round_calls (snd (pthread_barrier_init 3 two_threads), 0, 0)))"

lemma round_state_run:
  "run_calls (watch_step demo_env 1) round_calls (snd (pthread_barrier_init 3 two_threads), 0, 0) =
     Some ([None, None, None, None, None, Some (-1)], round_state)"
  unfolding round_state_def by (rule run_result) code_simp

lemma round_state_counts: "snd round_state = (3, 1)"
  by code_simp

lemma barrier_no_early_return_witness: "sint (3 :: u32) \<le> int (fst (snd round_state))"
proof -
  have "next_addr two_threads = 1" by code_simp
  then have init: "pthread_barrier_init 3 two_threads = (1, snd (pthread_barrier_init 3 two_threads))"
    by (simp add: pthread_barrier_init_def)
  have r: "round_state = (fst round_state, 3, 1)" using round_state_counts by (metis prod.collapse)
  then have "run_calls (watch_step demo_env 1) round_calls (snd (pthread_barrier_init 3 two_threads), 0, 0) =
      Some ([None, None, None, None, None, Some (-1)], fst round_state, 3, 1)"
    using round_state_run by simp
  from barrier_no_early_return [OF two_threads_run init this] show ?thesis using round_state_counts by simp
qed

text \<open>C39: Reusing a barrier can deadlock.  When a thread leaves the barrier while every other thread that
  can run is already in the waiting loop of \<open>pthread_barrier_wait\<close> (a faster thread that has entered the
  next round, for instance), its reset of \<open>threads_blocked\<close> erases their arrivals; when it then calls
  \<open>pthread_barrier_wait\<close> itself, no library call ever returns again, whatever context switches and timer
  interrupts follow.  (When the faster thread is interrupted before it enters the next round, the
  next round can complete.)\<close>

theorem late_leaver_deadlocks:
  assumes "sync_inv s" "barriers s b = Some v" "1 < barrier_count v" "frames s (current_tid s) = Barrier_Leave b"
    and "\<forall>t < MAX_THREADS. runnable s t \<and> t \<noteq> current_tid s \<longrightarrow> spinning b (frames s t)"
    and "run_calls (lib_step e) (Resume # Barrier_wait b # cs) s = Some (rs, s')"
  shows "\<exists>r \<in> {PTHREAD_BARRIER_SERIAL_THREAD, 0}. rs = Some r # replicate (Suc (length cs)) None"
proof -
  from assms(6) obtain r1 s1 rs1 where 1: "lib_step e Resume s = Some (r1, s1)"
      "run_calls (lib_step e) (Barrier_wait b # cs) s1 = Some (rs1, s')" "rs = r1 # rs1"
    by (rule run_calls_ConsE)
  from 1(2) obtain r2 s2 rs2 where 2: "lib_step e (Barrier_wait b) s1 = Some (r2, s2)"
      "run_calls (lib_step e) cs s2 = Some (rs2, s')" "rs1 = r2 # rs2"
    by (rule run_calls_ConsE)
  let ?v = "v\<lparr>threads_blocked := 0, Blocked_one := None, barrier_init := 1, Blocked_two := None\<rparr>"
  obtain sd where s1: "s1 = set_frame User (set_barrier b (?v\<lparr>serialed := sd\<rparr>) s)"
      "r1 = Some PTHREAD_BARRIER_SERIAL_THREAD \<or> r1 = Some 0"
  proof -
    have "barrier_leave b s = Some (r1, s1)" using 1(1) assms(4) by (simp add: lib_step_def resume_def)
    moreover have "?v\<lparr>serialed := serialed v\<rparr> = ?v" by simp
    ultimately show ?thesis
      using that [of True] that [of "serialed v"] assms(2) by (auto simp: barrier_leave_def Let_def split: if_splits)
  qed
  define u where "u = set_frame (Barrier_Spin b) (set_barrier b (?v\<lparr>serialed := sd, threads_blocked := 1\<rparr>) s1)"
  have "pthread_barrier_wait (env_guard e) b s1 = Some (r2, s2)" using 2(1) by (simp add: lib_step_def split: if_splits)
  then have "yield_in (env_guard e) (Barrier_Spin b) (set_barrier b (?v\<lparr>serialed := sd, threads_blocked := 1\<rparr>) s1) = Some (r2, s2)"
    using assms(3)
    by (simp add: s1(1) pthread_barrier_wait_def barrier_loop_def INT_MAX_def Let_def set_barrier_def set_frame_def)
  then have y: "yield_in (env_guard e) (Barrier_Spin b) u = Some (r2, s2)"
    by (simp add: u_def yield_in_def set_frame_def set_barrier_def)
  have "stuck_at b u"
    using assms(1,3,5)
    by (auto simp: u_def s1(1) stuck_at_def complete_def sync_inv_def lib_inv_def barriers_ok_def runnable_def status_of_def
        set_frame_def set_barrier_def table_ok_def)
  then have "stuck_at b s2" "r2 = None" using stuck_yield [OF _ _ y] by simp_all
  then have "rs2 = replicate (length cs) None" using stuck_run [OF _ 2(2)] by blast
  then show ?thesis using 1(3) 2(3) s1(2) \<open>r2 = None\<close> by auto
qed

text \<open>Two threads that use a barrier for two threads twice: the first has entered the second round, the second leaves.\<close>

definition late_calls :: "thread_call list" where
  "late_calls =
     [Create 0x10000 11 21, Barrier_init 2, Barrier_wait 1, Barrier_wait 1, Resume, Resume, Barrier_wait 1]"

definition late_state :: lib_state where
  "late_state = snd (the (run_calls (lib_step demo_env) late_calls (lib_start demo_cpu)))"

lemma late_state_run:
  "run_calls (lib_step demo_env) late_calls (lib_start demo_cpu) =
     Some ([Some 1, Some 1, None, None, None, Some (-1), None], late_state)"
  unfolding late_state_def by (rule run_result) code_simp

definition late_leaver :: "nat \<Rightarrow> lib_state \<Rightarrow> bool" where
  "late_leaver b s \<longleftrightarrow>
     (case barriers s b of None \<Rightarrow> False | Some v \<Rightarrow> 1 < barrier_count v) \<and>
     frames s (current_tid s) = Barrier_Leave b \<and>
     list_all (\<lambda>t. runnable s t \<and> t \<noteq> current_tid s \<longrightarrow> spinning b (frames s t)) [0..<MAX_THREADS]"

lemma late_state_check: "late_leaver 1 late_state"
  by code_simp

lemma late_state_goes_on:
  "map_option fst (run_calls (lib_step demo_env) [Resume, Barrier_wait 1, Resume, Tick, Resume] late_state) \<noteq> None"
  by code_simp

lemma late_leaver_deadlocks_witness:
  "\<exists>rs s'. run_calls (lib_step demo_env) [Resume, Barrier_wait 1, Resume, Tick, Resume] late_state = Some (rs, s') \<and>
     (\<exists>r \<in> {PTHREAD_BARRIER_SERIAL_THREAD, 0}. rs = Some r # replicate 4 None)"
proof -
  have inv: "sync_inv late_state" using tlib.run_inv [OF sync_inv_start late_state_run] .
  obtain v where v: "barriers late_state 1 = Some v" "1 < barrier_count v"
    using late_state_check by (auto simp: late_leaver_def split: option.splits)
  obtain rs s' where run: "run_calls (lib_step demo_env) [Resume, Barrier_wait 1, Resume, Tick, Resume] late_state = Some (rs, s')"
    using late_state_goes_on by auto
  have "frames late_state (current_tid late_state) = Barrier_Leave 1"
    "\<forall>t < MAX_THREADS. runnable late_state t \<and> t \<noteq> current_tid late_state \<longrightarrow> spinning 1 (frames late_state t)"
    using late_state_check by (auto simp: late_leaver_def list_all_iff)
  from late_leaver_deadlocks [OF inv v this run] run show ?thesis by (simp add: numeral_eq_Suc)
qed

end
