(* ===== verification/Spec2Isabelle.thy ===== *)
theory Spec2Isabelle
  imports Shell_Props FS_Props TLS_Props Thread_Props
begin

text \<open>
  \<^bold>\<open>Verification of four operating-system projects\<close>

  The repository holds four independent C programs: a shell with its command-line parser
  (\<^verbatim>\<open>parser-for-shell-noodlez102\<close>), a file system on a virtual disk (\<^verbatim>\<open>file-systems-noodlez102\<close>),
  thread-local storage with copy on write (\<^verbatim>\<open>copy-on-write-noodlez102\<close>) and a user-level thread
  library with mutexes and barriers (\<^verbatim>\<open>ulpt-noodlez102\<close>).  Every function of their implementation
  files is a definition of this development; the test drivers, scripts and makefiles are not modelled.

  \<^bold>\<open>Conventions.\<close>  A C struct is a record with the field names of the source, an enum a datatype, a
  global variable a field of the state record of its program.  A function returns its result and the
  new state.  \<open>None\<close> stands for \<^emph>\<open>no defined result\<close>: an index outside an array, a null or dangling
  pointer, a read of uninitialised memory, or a loop that does not end.  Error codes are ordinary
  results.  Unsigned integers are words of their width; a C \<open>int\<close> is an \<open>int\<close> where its range is not in
  question, and the conversions in which it is are written out (\<open>int_of_ulong\<close>, \<open>ulong_of_int\<close>).
  Diagnostics on stderr are left out.

  \<^bold>\<open>Shared theories.\<close>  \<^verbatim>\<open>Prelude\<close>: integer types, the first-match search \<open>find_slot\<close> that all the fixed-size
  tables use, the interface \<open>slot_table\<close> of such tables, \<open>memcpy_at\<close>.  \<^verbatim>\<open>Systems\<close>: sequences of calls
  (\<open>run_calls\<close>) and the interfaces \<open>invariant_system\<close> and \<open>resource_system\<close>, which the file system, the
  thread-local storage and the thread library interpret.

  \<^bold>\<open>Shell.\<close>  \<^verbatim>\<open>Shell_Parser\<close> models \<^verbatim>\<open>myshell_parser.c\<close> function by function on suffixes of the line; the
  loops terminate because each turn consumes a token.  \<^verbatim>\<open>Shell_Grammar\<close> gives the token grammar that the
  parser computes, the printer for the round trip, well-formedness of the result, and the inputs on
  which the parser is undefined or rejects what its comments promise.  \<^verbatim>\<open>Shell_Exec\<close> models \<^verbatim>\<open>myshell.c\<close>
  over descriptor tables: \<open>doCommand\<close>, the SIGCHLD handler and \<open>main\<close>; \<^verbatim>\<open>Shell_Props\<close> proves how the
  commands of a pipeline are connected, that the shell keeps its own descriptors, and which lines of
  the input are executed, interrupted reads included.  Which paths can be opened, which programs end
  while the shell waits for them (\<open>None\<close> is a \<open>waitpid\<close> that never returns) and which reads a signal
  interrupts are parameters; \<open>fork\<close> is taken to succeed; what a child does after \<open>execvp\<close> is outside the
  program.

  \<^bold>\<open>File system.\<close>  \<^verbatim>\<open>Disk\<close> models \<^verbatim>\<open>disk.c\<close> over the contents of a host file; which system call fails
  and how many bytes a transfer moves are schedules in the state, and \<open>block_write_outcome\<close> says what
  \<open>block_write\<close> does under every schedule.  Its interface \<open>block_store\<close> is what the layers above use.  \<^verbatim>\<open>FS_State\<close> holds the
  globals of \<^verbatim>\<open>fs.c\<close>, \<^verbatim>\<open>FS_Dir\<close> the directory and descriptor functions, \<^verbatim>\<open>FS_Data\<close> and \<^verbatim>\<open>FS_Write\<close>
  \<open>fs_read\<close> and \<open>fs_write\<close> with their loops and the specification of their effect on file contents,
  \<^verbatim>\<open>FS_Codec\<close> and \<^verbatim>\<open>FS_Layout\<close> the bytes of the structures (interface \<open>codec\<close>), \<^verbatim>\<open>FS_Mount\<close> \<open>make_fs\<close>,
  \<open>mount_fs\<close> and \<open>umount_fs\<close>, \<^verbatim>\<open>FS_Calls\<close> and \<^verbatim>\<open>FS_Sharing\<close> sequences of calls, and \<^verbatim>\<open>FS_Props\<close> the
  properties: functional behaviour of reads and writes, the write/read and unmount/mount round trips,
  refinement of the directory by a map, the invariants over the calls of one mounted session, and the
  errors of \<open>fs_delete\<close>, \<open>fs_write\<close> past the size limit, \<open>umount_fs\<close> and \<open>mount_fs\<close>.  The properties of
  reads and writes are for a host on which no call fails or stops short (\<open>fault_free\<close>).  The bytes that \<open>fs_delete\<close> and \<open>make_fs\<close> read past the end of an object are
  parameters.

  \<^bold>\<open>Thread-local storage.\<close>  \<^verbatim>\<open>TLS_Model\<close> models \<^verbatim>\<open>tls.c\<close> with an explicit heap of \<open>struct page\<close>, the memory
  of the pages and their protection; \<open>pthread_self\<close> and the page size are arguments.  \<^verbatim>\<open>TLS_Inv\<close>,
  \<^verbatim>\<open>TLS_Write\<close>, \<^verbatim>\<open>TLS_Ops\<close> and \<^verbatim>\<open>TLS_Slots\<close> prove the invariant (a page's reference count is at least the number
  of its users, every page is protected between calls) and the effect of each call on the storage of
  every thread; \<^verbatim>\<open>TLS_Props\<close> states isolation of writes, the copy semantics of clones and the errors.
  Each call runs without interruption by another thread (the code takes no lock).  \<open>mmap\<close>, \<open>mprotect\<close> and
  \<open>malloc\<close> are taken to succeed.

  \<^bold>\<open>Threads.\<close>  \<^verbatim>\<open>Jmpbuf\<close> models \<^verbatim>\<open>ec440threads.h\<close>: pointer mangling, the layout of a jump buffer, and
  the thunk of a new thread on a small machine.  \<^verbatim>\<open>Threads\<close> holds the thread table and \<open>schedule\<close>,
  \<open>scheduler_init\<close>, \<open>pthread_create\<close>, \<open>pthread_exit\<close>, \<open>pthread_self\<close> and \<open>pthread_join\<close>; \<^verbatim>\<open>Sync\<close> the mutexes
  and barriers and the system of calls \<open>lib_step\<close>.  A function that calls \<open>schedule\<close> is cut there: its
  thread keeps a \<open>frame\<close>, and the call \<open>Resume\<close> runs the rest when the thread is current again; \<open>Tick\<close> is
  a timer interrupt, which can come at the entry of a library function and after its calls of
  \<open>schedule\<close>.  (The context that the first \<open>pthread_create\<close> saves for the main thread is overwritten by
  the next \<open>schedule\<close> before it can be resumed.)  The search loop of \<open>schedule\<close> is a partial function, and
  \<^verbatim>\<open>Threads_Sched\<close> proves when it ends, which thread it finds, and fairness.  \<^verbatim>\<open>Threads_Inv\<close> and
  \<^verbatim>\<open>Threads_Create\<close> prove the invariant of the table, \<^verbatim>\<open>Wait_Queue\<close> that the linked nodes implement a
  queue (interface \<open>wait_queue\<close>), \<^verbatim>\<open>Sync_Inv\<close> and \<^verbatim>\<open>Sync_Steps\<close> the invariant of mutexes and barriers,
  \<^verbatim>\<open>Sync_Clients\<close> mutual exclusion and stranded waiters for threads that unlock only what they hold,
  \<^verbatim>\<open>Sync_Barriers\<close> the barrier properties, and \<^verbatim>\<open>Thread_Props\<close> states the properties with concrete runs.
  \<open>pthread_create\<close> is not interrupted in that system, although it does not block SIGALRM; its two parts
  \<open>create_scan\<close> and \<open>create_fill\<close> are definitions of their own, and \<open>interrupted_create_overwrites\<close> shows what
  an interrupt between them does.
  The pointer guard, the addresses of \<open>start_thunk\<close> and \<open>pthread_exit\<close>, the address that \<open>malloc\<close> returns
  for a stack and the size it provides for a mutex are parameters.

  \<^bold>\<open>Not modelled.\<close>  The test programs, scripts and makefiles; text on stderr; failure of \<open>malloc\<close>, \<open>mmap\<close>,
  \<open>mprotect\<close> and \<open>fork\<close>; timer interrupts in the middle of a library function between two of its calls
  of \<open>schedule\<close> (other than the one in \<open>pthread_create\<close> just named; the mutex functions block them);
  concurrent calls of the thread-local storage; memory that is leaked.
\<close>

end
